(* ===== verification/Prelude.thy ===== *)
theory Prelude
  imports Main "HOL-Library.Word"
begin

text \<open>
  The prelude of the development: the names of the machine integer types, the collections
  of facts that the component proofs draw on, and the lemmas on words, lists and byte
  addressed memory that several components share.

  Memory is a function from 64-bit physical addresses to bytes. Multi-byte accesses are
  little-endian, as on x86-64: \<open>load_word\<close> reads the integer made of \<open>n\<close> bytes and
  \<open>store64\<close> writes a 64-bit one. \<open>mem_fill\<close> and \<open>store_bytes\<close> are the closed forms
  of the byte loops of the C code; \<open>byte_loop_eq\<close> shows that they are what such a loop
  computes.
\<close>

unbundle bit_operations_syntax

type_synonym u8 = "8 word"
type_synonym u16 = "16 word"
type_synonym u32 = "32 word"
type_synonym u64 = "64 word"
type_synonym memory = "u64 \<Rightarrow> u8"

named_theorems mem_simps \<open>reads after writes on byte addressed memory\<close>
named_theorems frame_simps \<open>fields that an operation leaves alone\<close>
named_theorems layout_simps \<open>bit-level layout of descriptors and addresses\<close>

section \<open>Words\<close>

lemma unat_less_2p64: "unat (w :: u64) < 2 ^ 64"
  using unsigned_less[of w, where ?'a = nat] by simp

lemma unat_Suc_word:
  fixes w :: "'a::len word"
  assumes "unat w < 2 ^ LENGTH('a) - 1"
  shows "unat (w + 1) = Suc (unat w)"
  using assms by (simp add: unat_word_ariths)

lemma unat_of_nat64: "n < 2 ^ 64 \<Longrightarrow> unat (of_nat n :: u64) = n"
  by (simp add: unat_of_nat take_bit_nat_eq_self)

lemma unat_add64: "unat (a :: u64) + unat b < 2 ^ 64 \<Longrightarrow> unat (a + b) = unat a + unat b"
  by (simp add: unat_word_ariths)

lemma unat_add_of_nat64: "unat (a :: u64) + n < 2 ^ 64 \<Longrightarrow> unat (a + of_nat n) = unat a + n"
  using unat_add64[of a "of_nat n"] by (simp add: unat_of_nat64)

lemma word_offset_less:
  fixes x a :: u64
  assumes "n < 2 ^ 64"
  shows "unat (x - a) < n \<longleftrightarrow> (\<exists>i<n. x = a + of_nat i)"
proof
  assume "unat (x - a) < n"
  moreover have "x = a + of_nat (unat (x - a))" by simp
  ultimately show "\<exists>i<n. x = a + of_nat i" by blast
next
  assume "\<exists>i<n. x = a + of_nat i"
  then obtain i where "i < n" "x = a + of_nat i" by blast
  with assms show "unat (x - a) < n" by (simp add: unat_of_nat64)
qed

lemma ucast_and_mask16 [layout_simps]: "(ucast ((w :: 'a::len word) AND 0xFFFF) :: u16) = ucast w"
proof -
  have *: "(0xFFFF :: 'a word) = mask 16" by (simp add: mask_eq_exp_minus_1)
  show ?thesis unfolding * by (rule bit_word_eqI) (auto simp: bit_simps bit_imp_le_length)
qed

lemma ucast_and_mask8 [layout_simps]: "(ucast ((w :: 'a::len word) AND 0xFF) :: u8) = ucast w"
proof -
  have *: "(0xFF :: 'a word) = mask 8" by (simp add: mask_eq_exp_minus_1)
  show ?thesis unfolding * by (rule bit_word_eqI) (auto simp: bit_simps bit_imp_le_length)
qed

lemma ucast_and_mask32 [layout_simps]: "(ucast ((w :: 'a::len word) AND 0xFFFFFFFF) :: u32) = ucast w"
proof -
  have *: "(0xFFFFFFFF :: 'a word) = mask 32" by (simp add: mask_eq_exp_minus_1)
  show ?thesis unfolding * by (rule bit_word_eqI) (auto simp: bit_simps bit_imp_le_length)
qed

section \<open>Integers as little-endian bytes\<close>

primrec bytes_le :: "nat \<Rightarrow> 'a::len word \<Rightarrow> u8 list" where
  "bytes_le 0 w = []"
| "bytes_le (Suc n) w = ucast w # bytes_le n (drop_bit 8 w)"

primrec word_of_bytes :: "u8 list \<Rightarrow> 'a::len word" where
  "word_of_bytes [] = 0"
| "word_of_bytes (b # bs) = ucast b OR push_bit 8 (word_of_bytes bs)"

lemma length_bytes_le [simp]: "length (bytes_le n w) = n"
  by (induction n arbitrary: w) auto

lemma take_bit_byte_step:
  fixes w :: "'a::len word"
  shows "ucast (ucast w :: u8) OR push_bit 8 (take_bit n (drop_bit 8 w)) = take_bit (8 + n) w"
  by (rule bit_word_eqI) (auto simp: bit_simps)

lemma word_of_bytes_le: "word_of_bytes (bytes_le n w) = take_bit (8 * n) w"
  by (induction n arbitrary: w) (simp_all add: take_bit_byte_step)

section \<open>Byte addressed memory\<close>

definition load_bytes :: "memory \<Rightarrow> u64 \<Rightarrow> nat \<Rightarrow> u8 list" where
  "load_bytes m a n = map (\<lambda>i. m (a + of_nat i)) [0..<n]"

definition store_bytes :: "memory \<Rightarrow> u64 \<Rightarrow> u8 list \<Rightarrow> memory" where
  "store_bytes m a bs = (\<lambda>x. if unat (x - a) < length bs then bs ! unat (x - a) else m x)"

definition mem_fill :: "memory \<Rightarrow> u64 \<Rightarrow> nat \<Rightarrow> u8 \<Rightarrow> memory" where
  "mem_fill m a n v = (\<lambda>x. if unat (x - a) < n then v else m x)"

abbreviation load16 :: "memory \<Rightarrow> u64 \<Rightarrow> u16" where
  "load16 m a \<equiv> word_of_bytes (load_bytes m a 2)"

abbreviation load32 :: "memory \<Rightarrow> u64 \<Rightarrow> u32" where
  "load32 m a \<equiv> word_of_bytes (load_bytes m a 4)"

definition load64 :: "memory \<Rightarrow> u64 \<Rightarrow> u64" where
  "load64 m a = word_of_bytes (load_bytes m a 8)"

definition store64 :: "memory \<Rightarrow> u64 \<Rightarrow> u64 \<Rightarrow> memory" where
  "store64 m a v = store_bytes m a (bytes_le 8 v)"

lemma length_load_bytes [simp]: "length (load_bytes m a n) = n"
  by (simp add: load_bytes_def)

lemma nth_load_bytes: "i < n \<Longrightarrow> load_bytes m a n ! i = m (a + of_nat i)"
  by (simp add: load_bytes_def)

lemma mem_fill_eq_store_bytes: "mem_fill m a n v = store_bytes m a (replicate n v)"
  by (auto simp: mem_fill_def store_bytes_def)

text \<open>A loop that writes byte after byte, and its closed form.\<close>

lemma byte_loop_eq:
  assumes "n \<le> length bs" "n < 2 ^ 64"
  shows "fold (\<lambda>i m. m(a + of_nat i := bs ! i)) [0..<n] m = store_bytes m a (take n bs)"
  using assms
proof (induction n)
  case 0
  show ?case by (simp add: store_bytes_def)
next
  case (Suc n)
  let ?m = "store_bytes m a (take n bs)"
  have "?m(a + of_nat n := bs ! n) = store_bytes m a (take (Suc n) bs)"
  proof
    fix x
    have "unat (x - a) < Suc n \<longleftrightarrow> unat (x - a) < n \<or> x = a + of_nat n"
      using word_offset_less[of "Suc n" x a] word_offset_less[of n x a] Suc.prems
      by (auto simp: less_Suc_eq)
    with Suc.prems show "(?m(a + of_nat n := bs ! n)) x = store_bytes m a (take (Suc n) bs) x"
      by (auto simp: store_bytes_def take_Suc_conv_app_nth nth_append unat_of_nat64)
  qed
  with Suc show ?case by (simp del: fun_upd_apply)
qed

section \<open>Reads after writes\<close>

lemma load_bytes_store_same [mem_simps]:
  assumes "length bs < 2 ^ 64"
  shows "load_bytes (store_bytes m a bs) a (length bs) = bs"
  using assms by (intro nth_equalityI) (auto simp: load_bytes_def store_bytes_def unat_of_nat64)

lemma load_bytes_cong:
  "(\<And>i. i < n \<Longrightarrow> m (a + of_nat i) = m' (a + of_nat i)) \<Longrightarrow> load_bytes m a n = load_bytes m' a n"
  by (simp add: load_bytes_def)

lemma load64_cong:
  "(\<And>i. i < 8 \<Longrightarrow> m (a + of_nat i) = m' (a + of_nat i)) \<Longrightarrow> load64 m a = load64 m' a"
  unfolding load64_def by (metis load_bytes_cong)

lemma load64_store64_same [mem_simps]: "load64 (store64 m a v) a = v"
  using load_bytes_store_same[of "bytes_le 8 v" m a]
  by (simp add: load64_def store64_def word_of_bytes_le take_bit_word_eq_self)

lemma store64_other: "unat (x - a) \<ge> 8 \<Longrightarrow> store64 m a v x = m x"
  by (auto simp: store64_def store_bytes_def)

text \<open>Two 64-bit slots at different multiples of eight do not overlap.\<close>

lemma slots_apart:
  fixes a b :: u64
  assumes "8 dvd unat a" "8 dvd unat b" "a \<noteq> b" "i < 8"
  shows "unat (b + of_nat i - a) \<ge> 8"
proof (rule ccontr)
  assume "\<not> 8 \<le> unat (b + of_nat i - a)"
  then obtain j where j: "j < 8" "b + of_nat i = a + of_nat j"
    using word_offset_less[of 8 "b + of_nat i" a] by auto
  obtain ka where ka: "unat a = 8 * ka" using assms(1) by blast
  obtain kb where kb: "unat b = 8 * kb" using assms(2) by blast
  have "unat (a + of_nat j) = unat a + j"
    using ka j(1) unat_less_2p64[of a] by (intro unat_add_of_nat64) simp
  moreover have "unat (b + of_nat i) = unat b + i"
    using kb assms(4) unat_less_2p64[of b] by (intro unat_add_of_nat64) simp
  ultimately have "8 * ka + j = 8 * kb + i" using ka kb j(2) by simp
  with j(1) assms(4) have "ka = kb" by presburger
  with ka kb assms(3) show False by (simp add: word_unat_eq_iff)
qed

lemma load64_store64_other:
  assumes "8 dvd unat a" "8 dvd unat b" "a \<noteq> b"
  shows "load64 (store64 m a v) b = load64 m b"
  by (rule load64_cong) (simp add: store64_other slots_apart[OF assms])

text \<open>A 64-bit read determines the eight bytes.\<close>

lemma bit_word_of_bytes:
  "bit (word_of_bytes bs :: u64) n \<longleftrightarrow> n < 64 \<and> n div 8 < length bs \<and> bit (bs ! (n div 8)) (n mod 8)"
proof (induction bs arbitrary: n)
  case (Cons b bs)
  show ?case
  proof (cases "n < 8")
    case True
    then show ?thesis by (simp add: bit_or_iff bit_push_bit_iff bit_unsigned_iff)
  next
    case False
    then have "n div 8 = Suc ((n - 8) div 8)" "n mod 8 = (n - 8) mod 8" "\<not> bit b n"
      by (auto simp: le_div_geq le_mod_geq dest: bit_imp_le_length)
    with False Cons.IH[of "n - 8"] show ?thesis by (auto simp: bit_or_iff bit_push_bit_iff bit_unsigned_iff)
  qed
qed simp

lemma load64_bytes:
  assumes "load64 m a = load64 m' b" "i < 8"
  shows "m (a + of_nat i) = m' (b + of_nat i)"
proof -
  have "bit (load64 m x) (8 * i + k) \<longleftrightarrow> bit (m (x + of_nat i)) k" if "k < 8" for m x k
    using assms(2) that by (simp add: load64_def bit_word_of_bytes nth_load_bytes)
  with assms(1) have "bit (m (a + of_nat i)) k = bit (m' (b + of_nat i)) k" if "k < 8" for k
    using that by metis
  then show ?thesis by (intro bit_word_eqI) simp
qed

section \<open>Characters\<close>

lemma char_byte: "unat (of_nat (of_char c) :: u8) = of_char c" "char_of (unat (of_nat (of_char c) :: u8)) = c"
proof -
  show "unat (of_nat (of_char c) :: u8) = of_char c"
    using nat_of_char_less_256[of c] by (simp add: unsigned_of_nat take_bit_nat_eq_self)
  then show "char_of (unat (of_nat (of_char c) :: u8)) = c" by simp
qed

lemma of_char_zero_iff: "(of_nat (of_char c) :: u8) = 0 \<longleftrightarrow> c = CHR 0x00"
proof -
  have "(of_nat (of_char c) :: u8) = 0 \<longleftrightarrow> (of_char c :: nat) = 0" by (metis char_byte(1) unat_0 word_unat_eq_iff)
  also have "\<dots> \<longleftrightarrow> (of_char c :: nat) = of_char (CHR 0x00)" by simp
  also have "\<dots> \<longleftrightarrow> c = CHR 0x00" by (rule of_char_eq_iff)
  finally show ?thesis .
qed

section \<open>Code that may stop\<close>

text \<open>
  A piece of code that may leave for good, with \<open>Inl\<close>, or have a value, with \<open>Inr\<close>; \<open>None\<close>
  stands for no result, a loop without end. \<open>run_wp\<close> says that it ends and how.
\<close>

definition run_then ::
    "('s \<Rightarrow> (('e + 'a) \<times> 's) option) \<Rightarrow> ('a \<Rightarrow> 's \<Rightarrow> (('e + 'b) \<times> 's) option) \<Rightarrow> 's \<Rightarrow> (('e + 'b) \<times> 's) option" where
  "run_then f g s =
     (case f s of None \<Rightarrow> None | Some (Inl e, s') \<Rightarrow> Some (Inl e, s') | Some (Inr a, s') \<Rightarrow> g a s')"

definition run_return :: "'a \<Rightarrow> 's \<Rightarrow> (('e + 'a) \<times> 's) option" where
  "run_return a s = Some (Inr a, s)"

definition run_wp :: "('s \<Rightarrow> (('e + 'a) \<times> 's) option) \<Rightarrow> 's \<Rightarrow> ('e + 'a \<Rightarrow> 's \<Rightarrow> bool) \<Rightarrow> bool" where
  "run_wp f s P \<longleftrightarrow> (\<exists>r s'. f s = Some (r, s') \<and> P r s')"

lemma run_wp_then:
  assumes "run_wp f s (\<lambda>r s'. \<exists>a. r = Inr a \<and> run_wp (g a) s' P)"
  shows "run_wp (run_then f g) s P"
  using assms by (auto simp: run_wp_def run_then_def)

lemma run_wp_return [simp]: "run_wp (run_return a) s P \<longleftrightarrow> P (Inr a) s"
  by (simp add: run_wp_def run_return_def)

lemma run_wp_seq:
  assumes "run_wp f s Q" "\<And>r s'. Q r s' \<Longrightarrow> \<exists>a. r = Inr a \<and> run_wp (g a) s' P"
  shows "run_wp (run_then f g) s P"
  using assms by (intro run_wp_then) (fastforce simp: run_wp_def)

lemma run_wp_mono: "run_wp f s Q \<Longrightarrow> (\<And>r s'. Q r s' \<Longrightarrow> P r s') \<Longrightarrow> run_wp f s P"
  by (auto simp: run_wp_def)

end
