(* ===== verification/Machine.thy ===== *)
theory Machine
  imports Prelude
begin

text \<open>
  The part of the x86-64 machine that the kernel's C code touches directly: physical
  memory, the port I/O bus, the console behind COM1, the control register CR3 and the
  interrupt flag. Every component's state is a \<open>record\<close> that extends this one, in the
  order in which \<open>kernel_main\<close> brings the components up, so that an operation of one
  component applies to the state of every later one.

  Devices are not part of the repository. A device is a parameter, a \<open>device\<close>: what a
  read from a port returns, as a function of everything that happened on the bus before.
  The bus history \<open>io_log\<close> holds the newest event first.
\<close>

datatype io_event =
    Outb u16 u8
  | Inb u16 u8
  | Insw u16 u16
  | Outsw u16 u16

record device =
  dev_inb :: "io_event list \<Rightarrow> u16 \<Rightarrow> u8"
  dev_insw :: "io_event list \<Rightarrow> u16 \<Rightarrow> u16"

record machine =
  console :: string
  phys_mem :: memory
  io_log :: "io_event list"
  hhdm_offset :: u64
  cr3_reg :: u64
  if_flag :: bool

text \<open>
  The addresses that the assembler and the linker give to static objects and to the entry
  points written in assembly. The code only passes them around, so they are a parameter.
\<close>

record image =
  tss_addr :: u64
  gdt_addr :: u64
  idt_addr :: u64
  stacks_addr :: u64
  isr_stub :: "nat \<Rightarrow> u64"
  syscall_entry_asm :: u64
  usermode_trampoline :: u64

section \<open>Port I/O\<close>

definition outb :: "u16 \<Rightarrow> u8 \<Rightarrow> 'z machine_scheme \<Rightarrow> 'z machine_scheme" where
  [simp]: "outb p v s = s\<lparr>io_log := Outb p v # io_log s\<rparr>"

definition inb :: "device \<Rightarrow> u16 \<Rightarrow> 'z machine_scheme \<Rightarrow> u8 \<times> 'z machine_scheme" where
  "inb dev p s = (let v = dev_inb dev (io_log s) p in (v, s\<lparr>io_log := Inb p v # io_log s\<rparr>))"

lemma inb_simps [simp]:
  "fst (inb dev p s) = dev_inb dev (io_log s) p"
  "snd (inb dev p s) = s\<lparr>io_log := Inb p (dev_inb dev (io_log s) p) # io_log s\<rparr>"
  by (simp_all add: inb_def Let_def)

section \<open>Kernel pointers\<close>

text \<open>
  The kernel runs on the page tables that Limine set up. As the comment in
  \<^verbatim>\<open>vmm_init\<close> says, these map all physical memory at \<open>hhdm_offset\<close> (the higher half
  direct map) and low memory at itself. \<open>kptr\<close> is that boot mapping: the physical
  address that a kernel data pointer stands for. The kernel's own static variables are
  fields of the state records and need no address here.
\<close>

definition kptr :: "u64 \<Rightarrow> u64 \<Rightarrow> u64" where
  "kptr hhdm p = (if hhdm \<le> p then p - hhdm else p)"

definition phys_to_virt :: "u64 \<Rightarrow> u64 \<Rightarrow> u64" where
  "phys_to_virt hhdm phys = phys + hhdm"

text \<open>A page that the direct map covers without wrapping past the address space.\<close>

definition hhdm_covers :: "u64 \<Rightarrow> u64 \<Rightarrow> bool" where
  "hhdm_covers hhdm p \<longleftrightarrow> unat p + 4096 + unat hhdm \<le> 2 ^ 64"

lemma kptr_phys_to_virt:
  assumes "hhdm_covers hhdm p" "n < 4096"
  shows "kptr hhdm (phys_to_virt hhdm p + of_nat n) = p + of_nat n"
proof -
  have "unat (phys_to_virt hhdm p + of_nat n) = unat p + unat hhdm + n"
    using assms by (simp add: hhdm_covers_def phys_to_virt_def unat_add_of_nat64 unat_add64)
  then have "hhdm \<le> phys_to_virt hhdm p + of_nat n"
    by (simp add: word_le_nat_alt)
  then show ?thesis by (simp add: kptr_def phys_to_virt_def)
qed

text \<open>
  The loop \<^verbatim>\<open>p[i] = bs[i]\<close> over a kernel pointer, and its closed form in the direct
  map.
\<close>

definition kcopy :: "u64 \<Rightarrow> memory \<Rightarrow> u64 \<Rightarrow> u8 list \<Rightarrow> memory" where
  "kcopy hhdm m p bs = fold (\<lambda>i m. m(kptr hhdm (p + of_nat i) := bs ! i)) [0..<length bs] m"

lemma kcopy_eq:
  assumes "\<And>i. i < length bs \<Longrightarrow> kptr hhdm (p + of_nat i) = q + of_nat i" "length bs < 2 ^ 64"
  shows "kcopy hhdm m p bs = store_bytes m q bs"
proof -
  have "kcopy hhdm m p bs = fold (\<lambda>i m. m(q + of_nat i := bs ! i)) [0..<length bs] m"
    unfolding kcopy_def using assms(1) by (intro fold_cong) auto
  with assms(2) show ?thesis by (simp add: byte_loop_eq)
qed

lemma kcopy_direct_map:
  assumes "hhdm_covers hhdm p" "length bs \<le> 4096"
  shows "kcopy hhdm m (phys_to_virt hhdm p) bs = store_bytes m p bs"
  using assms by (intro kcopy_eq) (auto simp: kptr_phys_to_virt)

end
