(* ===== verification/Serial.thy ===== *)
theory Serial
  imports Machine
begin

text \<open>
  The serial driver, \<^verbatim>\<open>kernel/serial.c\<close>.

  The driver is modelled twice. \<open>serial_putc_dev\<close> and \<open>serial_print_dev\<close> are the
  polling loops against a UART device; they may wait forever, so they return an option.
  \<open>serial_putc\<close> and \<open>serial_print\<close> are the contract the rest of the kernel relies
  on: the characters appear on the console. \<open>serial_print_dev_transmits\<close> shows that the
  loops meet the contract on every UART whose transmitter becomes empty again.
  \<open>serial_print_hex\<close> and \<open>serial_print_dec\<close> fill their stack buffers as the C code
  does.
\<close>

definition COM1 :: u16 where
  "COM1 = 0x3F8"

abbreviation NUL :: char where
  "NUL \<equiv> CHR 0x00"

definition c_string :: "string \<Rightarrow> string" where
  "c_string buf = takeWhile (\<lambda>c. c \<noteq> NUL) buf"

section \<open>The contract: text on the console\<close>

definition serial_putc :: "char \<Rightarrow> 'z machine_scheme \<Rightarrow> 'z machine_scheme" where
  [simp]: "serial_putc c s = s\<lparr>console := console s @ [c]\<rparr>"

definition serial_print :: "string \<Rightarrow> 'z machine_scheme \<Rightarrow> 'z machine_scheme" where
  [simp]: "serial_print str s = s\<lparr>console := console s @ str\<rparr>"

section \<open>Numbers\<close>

definition hex_chars :: string where
  "hex_chars = ''0123456789ABCFEF''"

text \<open>The loop runs \<open>i\<close> from 15 down to 0; the last element of the buffer is the terminator.\<close>

primrec hex_fill :: "nat \<Rightarrow> u64 \<Rightarrow> string \<Rightarrow> string" where
  "hex_fill 0 value buffer = buffer"
| "hex_fill (Suc i) value buffer =
     hex_fill i (drop_bit 4 value) (buffer[i := hex_chars ! unat (value AND 0xF)])"

definition hex_buffer :: "u64 \<Rightarrow> string" where
  "hex_buffer value = hex_fill 16 value (replicate 17 NUL)"

definition serial_print_hex :: "u64 \<Rightarrow> 'z machine_scheme \<Rightarrow> 'z machine_scheme" where
  "serial_print_hex value s = serial_print (c_string (hex_buffer value)) (serial_print ''0x'' s)"

fun dec_fill :: "u64 \<Rightarrow> nat \<Rightarrow> string \<Rightarrow> nat \<times> string" where
  "dec_fill value i buffer =
     (if value > 0 \<and> i > 0
      then dec_fill (value div 10) (i - 1) (buffer[i - 1 := char_of (48 + unat (value mod 10))])
      else (i, buffer))"

definition serial_print_dec :: "u64 \<Rightarrow> 'z machine_scheme \<Rightarrow> 'z machine_scheme" where
  "serial_print_dec value s =
     (if value = 0 then serial_putc (CHR ''0'') s
      else let (i, buffer) = dec_fill value 20 (replicate 21 NUL)
           in serial_print (c_string (drop i buffer)) s)"

section \<open>The device level\<close>

definition serial_is_transmit_empty ::
    "device \<Rightarrow> 'z machine_scheme \<Rightarrow> bool \<times> 'z machine_scheme" where
  "serial_is_transmit_empty dev s = (let (v, s') = inb dev (COM1 + 5) s in (v AND 0x20 \<noteq> 0, s'))"

partial_function (option) serial_wait ::
    "device \<Rightarrow> 'z machine_scheme \<Rightarrow> 'z machine_scheme option" where
  "serial_wait dev s =
     (let (e, s') = serial_is_transmit_empty dev s in if e then Some s' else serial_wait dev s')"

definition serial_putc_dev :: "device \<Rightarrow> char \<Rightarrow> 'z machine_scheme \<Rightarrow> 'z machine_scheme option" where
  "serial_putc_dev dev c s = map_option (outb COM1 (of_char c)) (serial_wait dev s)"

primrec serial_print_dev ::
    "device \<Rightarrow> string \<Rightarrow> 'z machine_scheme \<Rightarrow> 'z machine_scheme option" where
  "serial_print_dev dev [] s = Some s"
| "serial_print_dev dev (c # str) s = Option.bind (serial_putc_dev dev c s) (serial_print_dev dev str)"

definition serial_init :: "device \<Rightarrow> 'z machine_scheme \<Rightarrow> 'z machine_scheme" where
  "serial_init dev s0 =
    (let s1 = outb (COM1 + 1) 0x00 s0;
         s2 = outb (COM1 + 3) 0x80 s1;
         s3 = outb (COM1 + 0) 0x03 s2;
         s4 = outb (COM1 + 1) 0x00 s3;
         s5 = outb (COM1 + 3) 0x03 s4;
         s6 = outb (COM1 + 2) 0xC7 s5;
         s7 = outb (COM1 + 4) 0x0B s6;
         s8 = outb (COM1 + 4) 0x1E s7;
         s9 = outb (COM1 + 0) 0xAE s8;
         (v, s10) = inb dev (COM1 + 0) s9
     in if v \<noteq> 0xAE then s10 else outb (COM1 + 4) 0x0F s10)"

section \<open>Decimal output\<close>

text \<open>The reference: the decimal numeral of a natural number, most significant digit first.\<close>

fun dec_string :: "nat \<Rightarrow> string" where
  "dec_string n = (if n < 10 then [char_of (48 + n)]
                   else dec_string (n div 10) @ [char_of (48 + n mod 10)])"

declare dec_string.simps [simp del] dec_fill.simps [simp del]

lemma digit_not_NUL: "d < 10 \<Longrightarrow> char_of (48 + d :: nat) \<noteq> NUL"
proof
  assume "d < 10" and eq: "char_of (48 + d) = NUL"
  from eq have "of_char (char_of (48 + d)) = (of_char NUL :: nat)" by (rule arg_cong)
  with \<open>d < 10\<close> show False by (simp add: take_bit_nat_eq_self)
qed

lemma dec_string_no_NUL: "NUL \<notin> set (dec_string n)"
proof (induction n rule: dec_string.induct)
  case (1 n)
  have "n mod 10 < 10" by simp
  then show ?case using "1" digit_not_NUL[of "n mod 10"] digit_not_NUL[of n]
    by (subst dec_string.simps) auto
qed

lemma drop_update_pred: "0 < i \<Longrightarrow> i \<le> length xs \<Longrightarrow> drop (i - 1) (xs[i - 1 := x]) = x # drop i xs"
  by (cases i) (auto simp: Cons_nth_drop_Suc[symmetric] drop_update_swap)

lemma dec_fill_spec:
  assumes "unat v < 10 ^ i" "i < length buffer" "v \<noteq> 0"
  shows "\<exists>j b. dec_fill v i buffer = (j, b) \<and> drop j b = dec_string (unat v) @ drop i buffer"
  using assms
proof (induction v i buffer rule: dec_fill.induct)
  case (1 v i buffer)
  let ?b = "buffer[i - 1 := char_of (48 + unat (v mod 10))]"
  have i: "0 < i" using "1.prems" by (cases i) (simp_all add: unat_0_iff)
  have step: "dec_fill v i buffer = dec_fill (v div 10) (i - 1) ?b"
    using "1.prems"(3) i by (simp add: dec_fill.simps[of v i buffer] word_gt_0)
  have div10: "unat (v div 10) = unat v div 10" "unat (v mod 10) = unat v mod 10"
    by (simp_all add: unat_div unat_mod)
  have d: "drop (i - 1) ?b = char_of (48 + unat v mod 10) # drop i buffer"
    using i "1.prems"(2) by (simp add: drop_update_pred[unfolded One_nat_def] div10)
  show ?case
  proof (cases "unat v < 10")
    case True
    then have "v div 10 = 0" using div10(1) by (simp add: unat_0_iff[symmetric])
    then have "dec_fill (v div 10) (i - 1) ?b = (i - 1, ?b)" by (simp add: dec_fill.simps)
    with step d True show ?thesis by (simp add: dec_string.simps)
  next
    case False
    have "unat (v div 10) < 10 ^ (i - 1)"
      using "1.prems"(1) i div10(1) power_minus_mult[of i "10::nat"]
      by (simp add: less_mult_imp_div_less mult.commute)
    moreover have "v div 10 \<noteq> 0" using False div10(1) by (auto simp: unat_0_iff[symmetric])
    moreover have "i - 1 < length ?b" using "1.prems"(2) by simp
    ultimately obtain j b where
      "dec_fill (v div 10) (i - 1) ?b = (j, b)"
      "drop j b = dec_string (unat (v div 10)) @ drop (i - 1) ?b"
      using "1.IH" i "1.prems"(3) by (auto simp: word_gt_0)
    with step d False show ?thesis
      by (simp add: dec_string.simps[of "unat v"] div10)
  qed
qed

lemma takeWhile_append_stop: "(\<forall>x\<in>set xs. P x) \<Longrightarrow> \<not> P y \<Longrightarrow> takeWhile P (xs @ y # ys) = xs"
  by (induction xs) auto

lemma serial_print_dec_text:
  "serial_print_dec v s = s\<lparr>console := console s @ dec_string (unat v)\<rparr>"
proof (cases "v = 0")
  case True
  have "char_of (of_char (CHR ''0'') :: nat) = CHR ''0''" by (rule char_of_char)
  then have "dec_string 0 = ''0''" by (simp add: dec_string.simps)
  with True show ?thesis by (simp add: serial_print_dec_def)
next
  case False
  have "unat v < 10 ^ 20" using unat_less_2p64[of v] by simp
  then obtain j b where jb: "dec_fill v 20 (replicate 21 NUL) = (j, b)"
      "drop j b = dec_string (unat v) @ [NUL]"
    using dec_fill_spec[of v 20 "replicate 21 NUL"] False by auto
  have "c_string (dec_string (unat v) @ [NUL]) = dec_string (unat v)"
    unfolding c_string_def using dec_string_no_NUL[of "unat v"] by (intro takeWhile_append_stop) auto
  with jb False show ?thesis by (simp add: serial_print_dec_def)
qed

text \<open>Reading a decimal numeral.\<close>

definition parse_dec :: "string \<Rightarrow> nat" where
  "parse_dec str = foldl (\<lambda>acc c. 10 * acc + (of_char c - 48)) 0 str"

lemma parse_dec_string: "parse_dec (dec_string n) = n"
proof (induction n rule: dec_string.induct)
  case (1 n)
  have "n mod 10 < 10" by simp
  with "1" show ?case
    by (subst dec_string.simps) (auto simp: parse_dec_def take_bit_nat_eq_self)
qed

lemma dec_string_no_leading_zero: "n \<noteq> 0 \<Longrightarrow> hd (dec_string n) \<noteq> CHR ''0''"
proof (induction n rule: dec_string.induct)
  case (1 n)
  have ne: "dec_string m \<noteq> []" for m by (subst dec_string.simps) simp
  show ?case
  proof (cases "n < 10")
    case True
    have "of_char (char_of (48 + n) :: char) \<noteq> (of_char (CHR ''0'') :: nat)"
      using True "1.prems" by (simp add: take_bit_nat_eq_self)
    then have "char_of (48 + n) \<noteq> CHR ''0''" by metis
    with True show ?thesis by (subst dec_string.simps) simp
  next
    case False
    with "1.IH" ne show ?thesis by (subst dec_string.simps) simp
  qed
qed

text \<open>
  C39. \<open>serial_print_dec\<close> prints a decimal numeral of its argument for every 64-bit value:
  the text reads back as the value and a value other than zero has no leading zero, so
  the 21-byte buffer is long enough and the digits are in the right order.
\<close>

theorem serial_print_dec_correct:
  "\<exists>txt. serial_print_dec v s = s\<lparr>console := console s @ txt\<rparr>
     \<and> parse_dec txt = unat v \<and> (hd txt = CHR ''0'' \<longleftrightarrow> v = 0)"
proof (intro exI conjI)
  show "serial_print_dec v s = s\<lparr>console := console s @ dec_string (unat v)\<rparr>"
    by (rule serial_print_dec_text)
  show "parse_dec (dec_string (unat v)) = unat v" by (rule parse_dec_string)
  have "char_of (of_char (CHR ''0'') :: nat) = CHR ''0''" by (rule char_of_char)
  then show "(hd (dec_string (unat v)) = CHR ''0'') = (v = 0)"
    using dec_string_no_leading_zero[of "unat v"]
    by (cases "v = 0") (auto simp: dec_string.simps[of 0] unat_0_iff)
qed

section \<open>Hexadecimal output\<close>

definition nibble :: "u64 \<Rightarrow> nat \<Rightarrow> nat" where
  "nibble v k = unat (drop_bit (4 * k) v AND 0xF)"

text \<open>The reference: sixteen upper-case hexadecimal digits.\<close>

definition hex16 :: "u64 \<Rightarrow> string" where
  "hex16 v = map (\<lambda>i. ''0123456789ABCDEF'' ! nibble v (15 - i)) [0..<16]"

lemma nibble_less: "nibble v k < 16"
proof -
  have "unat (drop_bit (4 * k) v AND 0xF) \<le> unat (0xF :: u64)"
    by (rule word_and_le1 [THEN word_le_nat_alt [THEN iffD1]])
  then show ?thesis by (simp add: nibble_def)
qed

lemma hex_fill_length [simp]: "length (hex_fill n v buf) = length buf"
  by (induction n arbitrary: v buf) auto

lemma hex_fill_nth:
  "n \<le> length buf \<Longrightarrow> i < length buf \<Longrightarrow>
   hex_fill n v buf ! i = (if i < n then hex_chars ! nibble v (n - 1 - i) else buf ! i)"
proof (induction n arbitrary: v buf)
  case 0
  then show ?case by simp
next
  case (Suc n)
  have "nibble (drop_bit 4 v) (n - 1 - i) = nibble v (n - i)" if "i < n"
  proof -
    have "4 * (n - i) = 4 + 4 * (n - 1 - i)" using that by simp
    then show ?thesis by (simp add: nibble_def drop_bit_drop_bit add.commute)
  qed
  moreover have "unat (v AND 0xF) = nibble v 0" by (simp add: nibble_def)
  ultimately show ?case using Suc by (auto simp: nth_list_update less_Suc_eq)
qed

lemma hex_buffer_eq: "hex_buffer v = map (\<lambda>i. hex_chars ! nibble v (15 - i)) [0..<16] @ [NUL]"
  by (rule nth_equalityI) (auto simp: hex_buffer_def hex_fill_nth nth_append less_Suc_eq_le)

lemma hex_chars_cases: "k < 16 \<Longrightarrow> hex_chars ! k \<noteq> NUL \<and>
    (hex_chars ! k = ''0123456789ABCDEF'' ! k \<longleftrightarrow> k \<noteq> 13)"
  by (auto simp: hex_chars_def less_Suc_eq numeral_eq_Suc)

lemma serial_print_hex_text:
  "serial_print_hex v s =
     s\<lparr>console := console s @ ''0x'' @ map (\<lambda>i. hex_chars ! nibble v (15 - i)) [0..<16]\<rparr>"
proof -
  have "c_string (hex_buffer v) = map (\<lambda>i. hex_chars ! nibble v (15 - i)) [0..<16]"
    unfolding c_string_def hex_buffer_eq
    by (intro takeWhile_append_stop) (use hex_chars_cases nibble_less in auto)
  then show ?thesis by (simp add: serial_print_hex_def)
qed

text \<open>
  C40. \<open>serial_print_hex\<close> prints \<^verbatim>\<open>0x\<close> and the sixteen hexadecimal digits of its
  argument exactly when no digit is \<^verbatim>\<open>D\<close>: the table of digits in the source reads
  \<^verbatim>\<open>ABCFEF\<close>, so a nibble of value 13 comes out as \<^verbatim>\<open>F\<close>.
\<close>

theorem serial_print_hex_correct_iff:
  "serial_print_hex v s = s\<lparr>console := console s @ ''0x'' @ hex16 v\<rparr>
     \<longleftrightarrow> 13 \<notin> nibble v ` {..<16}"
proof -
  have "serial_print_hex v s = s\<lparr>console := console s @ ''0x'' @ hex16 v\<rparr>
      \<longleftrightarrow> (\<forall>i<16. nibble v (15 - i) \<noteq> 13)"
    using hex_chars_cases nibble_less
    by (auto simp: serial_print_hex_text hex16_def dest!: arg_cong[where f = console])
  also have "\<dots> \<longleftrightarrow> 13 \<notin> nibble v ` {..<16}"
  proof safe
    fix k :: nat assume *: "\<forall>i<16. nibble v (15 - i) \<noteq> 13" "k < 16" "13 = nibble v k"
    have "15 - k < 16" "15 - (15 - k) = k" using *(2) by auto
    with * show False by metis
  qed (auto simp: image_iff)
  finally show ?thesis .
qed

section \<open>The polling loops meet the contract\<close>

text \<open>The bus history after \<open>k\<close> further reads of a port, and the bytes sent on COM1.\<close>

primrec poll_log :: "device \<Rightarrow> u16 \<Rightarrow> io_event list \<Rightarrow> nat \<Rightarrow> io_event list" where
  "poll_log dev p h 0 = h"
| "poll_log dev p h (Suc k) = poll_log dev p (Inb p (dev_inb dev h p) # h) k"

fun transmitted :: "io_event list \<Rightarrow> u8 list" where
  "transmitted [] = []"
| "transmitted (Outb p v # h) = transmitted h @ (if p = COM1 then [v] else [])"
| "transmitted (_ # h) = transmitted h"

text \<open>
  The documented behaviour of a UART that the driver relies on: after any history, the
  transmitter holding register is empty after finitely many polls.
\<close>

definition uart_drains :: "device \<Rightarrow> bool" where
  "uart_drains dev \<longleftrightarrow>
     (\<forall>h. \<exists>k. dev_inb dev (poll_log dev (COM1 + 5) h k) (COM1 + 5) AND 0x20 \<noteq> 0)"

lemma serial_wait_returns:
  assumes "dev_inb dev (poll_log dev (COM1 + 5) (io_log s) k) (COM1 + 5) AND 0x20 \<noteq> 0"
  shows "\<exists>h. serial_wait dev s = Some (s\<lparr>io_log := h\<rparr>) \<and> transmitted h = transmitted (io_log s)"
  using assms
proof (induction k arbitrary: s)
  case 0
  then show ?case
    by (subst serial_wait.simps) (auto simp: serial_is_transmit_empty_def inb_def Let_def)
next
  case (Suc k)
  let ?v = "dev_inb dev (io_log s) (COM1 + 5)"
  let ?s = "s\<lparr>io_log := Inb (COM1 + 5) ?v # io_log s\<rparr>"
  show ?case
  proof (cases "?v AND 0x20 = 0")
    case True
    then have "serial_wait dev s = serial_wait dev ?s"
      by (subst serial_wait.simps) (simp add: serial_is_transmit_empty_def inb_def Let_def)
    with Suc.IH[of ?s] Suc.prems show ?thesis by auto
  next
    case False
    then show ?thesis
      by (subst serial_wait.simps) (auto simp: serial_is_transmit_empty_def inb_def Let_def)
  qed
qed

lemma serial_putc_dev_transmits:
  assumes "uart_drains dev"
  shows "\<exists>h. serial_putc_dev dev c s = Some (s\<lparr>io_log := h\<rparr>)
           \<and> transmitted h = transmitted (io_log s) @ [of_char c]"
proof -
  obtain k where "dev_inb dev (poll_log dev (COM1 + 5) (io_log s) k) (COM1 + 5) AND 0x20 \<noteq> 0"
    using assms unfolding uart_drains_def by blast
  from serial_wait_returns[OF this] show ?thesis by (auto simp: serial_putc_dev_def)
qed

text \<open>
  On every UART whose transmitter drains, the polling loops of \<open>serial_print\<close> return
  and put exactly the characters of the string on COM1, in order, which is the contract
  that the console field of the state stands for.
\<close>

theorem serial_print_dev_transmits:
  assumes "uart_drains dev"
  shows "\<exists>h. serial_print_dev dev str s = Some (s\<lparr>io_log := h\<rparr>)
           \<and> transmitted h = transmitted (io_log s) @ map of_char str"
proof (induction str arbitrary: s)
  case Nil
  show ?case by (auto intro: exI[of _ "io_log s"])
next
  case (Cons c str)
  obtain h where h: "serial_putc_dev dev c s = Some (s\<lparr>io_log := h\<rparr>)"
      "transmitted h = transmitted (io_log s) @ [of_char c]"
    using serial_putc_dev_transmits[OF assms] by blast
  from Cons.IH[of "s\<lparr>io_log := h\<rparr>"] h show ?case by auto
qed

definition ready_uart :: device where
  "ready_uart = \<lparr>dev_inb = (\<lambda>_ _. 0x20), dev_insw = (\<lambda>_ _. 0)\<rparr>"

definition bss_machine :: machine where
  "bss_machine = \<lparr>console = [], phys_mem = (\<lambda>_. 0), io_log = [], hhdm_offset = 0,
     cr3_reg = 0, if_flag = False\<rparr>"

theorem serial_print_dev_transmits_witness:
  "uart_drains ready_uart \<and>
   (\<exists>h. serial_print_dev ready_uart ''ok'' bss_machine = Some (bss_machine\<lparr>io_log := h\<rparr>)
      \<and> transmitted h = transmitted (io_log bss_machine) @ map of_char ''ok'')"
proof -
  have "uart_drains ready_uart" by (simp add: uart_drains_def ready_uart_def)
  from this serial_print_dev_transmits[OF this, of "''ok''" bss_machine] show ?thesis by (rule conjI)
qed

end
