(* ===== verification/Gdt.thy ===== *)
theory Gdt
  imports Serial
begin

text \<open>
  The global descriptor table and the task state segment: \<^verbatim>\<open>kernel/gdt.c\<close>,
  \<^verbatim>\<open>kernel/include/gdt.h\<close> and the two routines of \<^verbatim>\<open>kernel/gdt_asm.asm\<close>.

  The model keeps the packed fields of the table entries. The decoding functions
  \<open>seg_base\<close>, \<open>seg_limit\<close>, \<open>seg_dpl\<close> are the processor's reading of a descriptor;
  the lemmas show that what \<open>gdt_set_entry\<close> and \<open>gdt_set_tss\<close> pack is what the
  processor reads back.
\<close>

record gdt_entry =
  limit_low :: u16
  base_low :: u16
  base_mid :: u8
  access :: u8
  granularity :: u8
  base_high :: u8

record tss =
  tss_reserved0 :: u32
  rsp0 :: u64
  rsp1 :: u64
  rsp2 :: u64
  tss_reserved1 :: u64
  ist1 :: u64
  ist2 :: u64
  ist3 :: u64
  ist4 :: u64
  ist5 :: u64
  ist6 :: u64
  ist7 :: u64
  tss_reserved2 :: u64
  tss_reserved3 :: u16
  iomap_base :: u16

record table_ptr =
  ptr_limit :: u16
  ptr_base :: u64

record gdt_state = machine +
  gdt :: "gdt_entry list"
  gdt_pointer :: table_ptr
  the_tss :: tss
  gdtr :: table_ptr
  tr_reg :: u16
  cs_reg :: u16
  data_segs :: u16

definition GDT_ENTRIES :: nat where "GDT_ENTRIES = 7"
definition GDT_NULL :: nat where "GDT_NULL = 0"
definition GDT_KERNEL_CODE :: nat where "GDT_KERNEL_CODE = 1"
definition GDT_KERNEL_DATA :: nat where "GDT_KERNEL_DATA = 2"
definition GDT_USER_CODE :: nat where "GDT_USER_CODE = 3"
definition GDT_USER_DATA :: nat where "GDT_USER_DATA = 4"
definition GDT_TSS :: nat where "GDT_TSS = 5"

lemmas gdt_index_defs = GDT_ENTRIES_def GDT_NULL_def GDT_KERNEL_CODE_def GDT_KERNEL_DATA_def
  GDT_USER_CODE_def GDT_USER_DATA_def GDT_TSS_def

definition KERNEL_CS :: u16 where "KERNEL_CS = push_bit 3 (of_nat GDT_KERNEL_CODE)"
definition KERNEL_DS :: u16 where "KERNEL_DS = push_bit 3 (of_nat GDT_KERNEL_DATA)"
definition USER_CS :: u16 where "USER_CS = push_bit 3 (of_nat GDT_USER_CODE) OR 3"
definition USER_DS :: u16 where "USER_DS = push_bit 3 (of_nat GDT_USER_DATA) OR 3"
definition TSS_SEG :: u16 where "TSS_SEG = push_bit 3 (of_nat GDT_TSS)"

definition GDT_ACCESS_PRESENT :: u8 where "GDT_ACCESS_PRESENT = push_bit 7 1"
definition GDT_ACCESS_RING0 :: u8 where "GDT_ACCESS_RING0 = push_bit 5 0"
definition GDT_ACCESS_RING3 :: u8 where "GDT_ACCESS_RING3 = push_bit 5 3"
definition GDT_ACCESS_SEGMENT :: u8 where "GDT_ACCESS_SEGMENT = push_bit 4 1"
definition GDT_ACCESS_EXECUTABLE :: u8 where "GDT_ACCESS_EXECUTABLE = push_bit 3 1"
definition GDT_ACCESS_RW :: u8 where "GDT_ACCESS_RW = push_bit 1 1"
definition GDT_GRANULARITY_4K :: u32 where "GDT_GRANULARITY_4K = push_bit 7 1"
definition GDT_GRANULARITY_64BIT :: u32 where "GDT_GRANULARITY_64BIT = push_bit 5 1"

lemmas gdt_flag_defs = GDT_ACCESS_PRESENT_def GDT_ACCESS_RING0_def GDT_ACCESS_RING3_def
  GDT_ACCESS_SEGMENT_def GDT_ACCESS_EXECUTABLE_def GDT_ACCESS_RW_def
  GDT_GRANULARITY_4K_def GDT_GRANULARITY_64BIT_def

definition gdt_set_entry ::
    "nat \<Rightarrow> u32 \<Rightarrow> u32 \<Rightarrow> u8 \<Rightarrow> u32 \<Rightarrow> 'z gdt_state_scheme \<Rightarrow> 'z gdt_state_scheme" where
  "gdt_set_entry index base limit acc gran s = s\<lparr>gdt := (gdt s)[index :=
     \<lparr>limit_low = ucast (limit AND 0xFFFF),
      base_low = ucast (base AND 0xFFFF),
      base_mid = ucast (drop_bit 16 base AND 0xFF),
      access = acc,
      granularity = ucast ((gran AND 0xF0) OR (drop_bit 16 limit AND 0x0F)),
      base_high = ucast (drop_bit 24 base AND 0xFF)\<rparr>]\<rparr>"

definition gdt_set_tss ::
    "nat \<Rightarrow> u64 \<Rightarrow> u32 \<Rightarrow> 'z gdt_state_scheme \<Rightarrow> 'z gdt_state_scheme" where
  "gdt_set_tss index base limit s = s\<lparr>gdt := (gdt s)[index :=
     \<lparr>limit_low = ucast (limit AND 0xFFFF),
      base_low = ucast (base AND 0xFFFF),
      base_mid = ucast (drop_bit 16 base AND 0xFF),
      access = 0x89,
      granularity = 0x00,
      base_high = ucast (drop_bit 24 base AND 0xFF)\<rparr>, index + 1 :=
     \<lparr>limit_low = ucast (drop_bit 32 base AND 0xFFFF),
      base_low = ucast (drop_bit 48 base AND 0xFFFF),
      base_mid = 0, access = 0, granularity = 0, base_high = 0\<rparr>]\<rparr>"

definition zero_gdt_entry :: gdt_entry where
  "zero_gdt_entry = \<lparr>limit_low = 0, base_low = 0, base_mid = 0, access = 0, granularity = 0,
     base_high = 0\<rparr>"

definition zero_tss :: tss where
  "zero_tss = \<lparr>tss_reserved0 = 0, rsp0 = 0, rsp1 = 0, rsp2 = 0, tss_reserved1 = 0,
     ist1 = 0, ist2 = 0, ist3 = 0, ist4 = 0, ist5 = 0, ist6 = 0, ist7 = 0,
     tss_reserved2 = 0, tss_reserved3 = 0, iomap_base = 0\<rparr>"

definition sizeof_tss :: nat where "sizeof_tss = 104"

text \<open>
  \<open>gdt_load\<close> and \<open>tss_load\<close> of \<^verbatim>\<open>gdt_asm.asm\<close>: load GDTR, the data segment
  registers and, through the far return, CS; load the task register.
\<close>

definition gdt_load :: "table_ptr \<Rightarrow> 'z gdt_state_scheme \<Rightarrow> 'z gdt_state_scheme" where
  "gdt_load p s = s\<lparr>gdtr := p, data_segs := 0x10, cs_reg := 0x08\<rparr>"

definition tss_load :: "u16 \<Rightarrow> 'z gdt_state_scheme \<Rightarrow> 'z gdt_state_scheme" where
  "tss_load sel s = s\<lparr>tr_reg := sel\<rparr>"

text \<open>The eight bytes of an entry read as one integer, which the debug output prints.\<close>

definition gdt_entry_bits :: "gdt_entry \<Rightarrow> u64" where
  "gdt_entry_bits e = word_of_bytes (bytes_le 2 (limit_low e) @ bytes_le 2 (base_low e)
     @ [base_mid e, access e, granularity e, base_high e])"

definition gdt_debug_line :: "nat \<Rightarrow> 'z gdt_state_scheme \<Rightarrow> 'z gdt_state_scheme" where
  "gdt_debug_line i s =
     serial_print ''\<newline>'' (serial_print_hex (gdt_entry_bits (gdt s ! i))
       (serial_print '': '' (serial_print_dec (of_nat i) (serial_print ''  Entry '' s))))"

definition gdt_init :: "image \<Rightarrow> 'z gdt_state_scheme \<Rightarrow> 'z gdt_state_scheme" where
  "gdt_init img s0 =
    (let s1 = s0\<lparr>gdt := replicate GDT_ENTRIES zero_gdt_entry\<rparr>;
         s2 = gdt_set_entry GDT_NULL 0 0 0 0 s1;
         s3 = gdt_set_entry GDT_KERNEL_CODE 0 0xFFFFF
                (GDT_ACCESS_PRESENT OR GDT_ACCESS_RING0 OR GDT_ACCESS_SEGMENT
                  OR GDT_ACCESS_EXECUTABLE OR GDT_ACCESS_RW)
                (GDT_GRANULARITY_4K OR GDT_GRANULARITY_64BIT) s2;
         s4 = gdt_set_entry GDT_KERNEL_DATA 0 0xFFFFF
                (GDT_ACCESS_PRESENT OR GDT_ACCESS_RING0 OR GDT_ACCESS_SEGMENT OR GDT_ACCESS_RW)
                GDT_GRANULARITY_4K s3;
         s5 = gdt_set_entry GDT_USER_CODE 0 0xFFFFF
                (GDT_ACCESS_PRESENT OR GDT_ACCESS_RING3 OR GDT_ACCESS_SEGMENT
                  OR GDT_ACCESS_EXECUTABLE OR GDT_ACCESS_RW)
                (GDT_GRANULARITY_4K OR GDT_GRANULARITY_64BIT) s4;
         s6 = gdt_set_entry GDT_USER_DATA 0 0xFFFFF
                (GDT_ACCESS_PRESENT OR GDT_ACCESS_RING3 OR GDT_ACCESS_SEGMENT OR GDT_ACCESS_RW)
                GDT_GRANULARITY_4K s5;
         s7 = s6\<lparr>the_tss := zero_tss\<lparr>rsp0 := 0, iomap_base := of_nat sizeof_tss\<rparr>\<rparr>;
         s8 = gdt_set_tss GDT_TSS (tss_addr img) (of_nat sizeof_tss - 1) s7;
         s9 = s8\<lparr>gdt_pointer := \<lparr>ptr_limit = of_nat (8 * GDT_ENTRIES) - 1, ptr_base = gdt_addr img\<rparr>\<rparr>;
         s10 = tss_load TSS_SEG (gdt_load (gdt_pointer s9) s9);
         s11 = serial_print ''\<newline>GDT Debug:\<newline>'' s10
     in serial_print ''\<newline>'' (fold gdt_debug_line [0..<5] s11))"

definition gdt_set_kernel_stack :: "u64 \<Rightarrow> 'z gdt_state_scheme \<Rightarrow> 'z gdt_state_scheme" where
  [simp]: "gdt_set_kernel_stack stack s = s\<lparr>the_tss := (the_tss s)\<lparr>rsp0 := stack\<rparr>\<rparr>"

section \<open>What the processor reads back\<close>

definition seg_base :: "gdt_entry \<Rightarrow> u32" where
  "seg_base e = ucast (base_low e) OR push_bit 16 (ucast (base_mid e))
     OR push_bit 24 (ucast (base_high e))"

definition seg_limit :: "gdt_entry \<Rightarrow> u32" where
  "seg_limit e = ucast (limit_low e) OR push_bit 16 (ucast (granularity e AND 0x0F))"

definition seg_dpl :: "gdt_entry \<Rightarrow> nat" where
  "seg_dpl e = unat (drop_bit 5 (access e) AND 3)"

definition seg_present :: "gdt_entry \<Rightarrow> bool" where "seg_present e = bit (access e) 7"
definition seg_code :: "gdt_entry \<Rightarrow> bool" where "seg_code e = (bit (access e) 4 \<and> bit (access e) 3)"
definition seg_data :: "gdt_entry \<Rightarrow> bool" where "seg_data e = (bit (access e) 4 \<and> \<not> bit (access e) 3)"
definition seg_long :: "gdt_entry \<Rightarrow> bool" where "seg_long e = bit (granularity e) 5"

text \<open>A 64-bit system descriptor takes two slots.\<close>

definition sys_base :: "gdt_entry \<Rightarrow> gdt_entry \<Rightarrow> u64" where
  "sys_base lo hi = ucast (seg_base lo) OR push_bit 32 (ucast (limit_low hi))
     OR push_bit 48 (ucast (base_low hi))"

lemma base_fields [layout_simps]:
  fixes base :: u32
  shows "ucast (ucast base :: u16) OR push_bit 16 (ucast (ucast (drop_bit 16 base) :: u8))
     OR push_bit 24 (ucast (ucast (drop_bit 24 base) :: u8)) = base" (is "?lhs = base")
proof (rule bit_word_eqI)
  fix n assume "n < LENGTH(32)"
  then show "bit ?lhs n = bit base n" by (cases "n < 24") (auto simp: bit_simps)
qed

lemma limit_fields [layout_simps]:
  fixes limit :: u32
  shows "ucast (ucast limit :: u16) OR push_bit 16 (ucast (ucast ((gran AND 0xF0)
     OR (drop_bit 16 limit AND 0x0F)) AND (0x0F :: u8))) = limit AND 0xFFFFF"
proof -
  have m: "(0xFFFFF :: u32) = mask 20" "(0x0F :: u32) = mask 4" "(0x0F :: u8) = mask 4"
    "(0xF0 :: u32) = push_bit 4 (mask 4)" by (simp_all add: mask_eq_exp_minus_1)
  show ?thesis unfolding m by (rule bit_word_eqI) (auto simp: bit_simps)
qed

lemma sys_base_fields:
  fixes base :: u64
  shows "ucast (ucast base :: u32) OR push_bit 32 (ucast (ucast (drop_bit 32 base) :: u16))
     OR push_bit 48 (ucast (ucast (drop_bit 48 base) :: u16)) = base" (is "?lhs = base")
proof (rule bit_word_eqI)
  fix n assume "n < LENGTH(64)"
  then show "bit ?lhs n = bit base n" by (cases "n < 48") (auto simp: bit_simps)
qed

lemma narrow_fields:
  fixes base :: u64
  shows "(ucast base :: u16) = ucast (ucast base :: u32)"
    and "(ucast (drop_bit 16 base) :: u8) = ucast (drop_bit 16 (ucast base :: u32))"
    and "(ucast (drop_bit 24 base) :: u8) = ucast (drop_bit 24 (ucast base :: u32))"
  by (rule bit_word_eqI; auto simp: bit_simps)+

text \<open>
  The descriptor that \<open>gdt_set_entry\<close> packs is the one the processor unpacks: the
  full 32-bit base, the low 20 bits of the limit, the access byte and the granularity
  flags; the other descriptors stay as they were.
\<close>

theorem gdt_set_entry_roundtrip:
  assumes "index < length (gdt s)"
  shows "let s' = gdt_set_entry index base limit acc gran s; e = gdt s' ! index in
     seg_base e = base \<and> seg_limit e = limit AND 0xFFFFF \<and> access e = acc
     \<and> granularity e AND 0xF0 = ucast gran AND 0xF0 \<and> gdt s' = (gdt s)[index := e]"
proof -
  have m: "(0x0F :: u32) = mask 4" "(0xF0 :: u8) = push_bit 4 (mask 4)"
    "(0xF0 :: u32) = push_bit 4 (mask 4)" by (simp_all add: mask_eq_exp_minus_1)
  have "ucast ((gran AND 0xF0) OR (drop_bit 16 limit AND 0x0F)) AND (0xF0 :: u8) = ucast gran AND 0xF0"
    unfolding m by (rule bit_word_eqI) (auto simp: bit_simps)
  with assms show ?thesis
    by (simp add: Let_def gdt_set_entry_def seg_base_def seg_limit_def layout_simps)
qed

definition bss_gdt :: gdt_state where
  "bss_gdt = machine.extend bss_machine
     \<lparr>gdt = replicate GDT_ENTRIES zero_gdt_entry, gdt_pointer = \<lparr>ptr_limit = 0, ptr_base = 0\<rparr>,
      the_tss = zero_tss, gdtr = \<lparr>ptr_limit = 0, ptr_base = 0\<rparr>, tr_reg = 0, cs_reg = 0,
      data_segs = 0\<rparr>"

theorem gdt_set_entry_roundtrip_witness:
  "2 < length (gdt bss_gdt) \<and>
   (let s' = gdt_set_entry 2 0x12345678 0xABCDE 0x92 0xC0 bss_gdt; e = gdt s' ! 2 in
     seg_base e = 0x12345678 \<and> seg_limit e = 0xABCDE AND 0xFFFFF \<and> access e = 0x92
     \<and> granularity e AND 0xF0 = ucast (0xC0 :: u32) AND 0xF0 \<and> gdt s' = (gdt bss_gdt)[2 := e])"
proof -
  have h: "2 < length (gdt bss_gdt)" by (simp add: bss_gdt_def machine.defs GDT_ENTRIES_def)
  from h gdt_set_entry_roundtrip[OF h] show ?thesis by (rule conjI)
qed

text \<open>
  The two descriptor slots that \<open>gdt_set_tss\<close> fills give back the full 64-bit address
  of the task state segment, with the type of an available 64-bit TSS at ring 0.
\<close>

theorem gdt_set_tss_roundtrip:
  assumes "index + 1 < length (gdt s)"
  shows "sys_base (gdt (gdt_set_tss index base limit s) ! index)
           (gdt (gdt_set_tss index base limit s) ! (index + 1)) = base
       \<and> seg_limit (gdt (gdt_set_tss index base limit s) ! index) = limit AND 0xFFFF
       \<and> access (gdt (gdt_set_tss index base limit s) ! index) = 0x89"
proof -
  have m: "(0xFFFF :: u32) = mask 16" by (simp add: mask_eq_exp_minus_1)
  have "ucast (ucast limit :: u16) = limit AND 0xFFFF"
    unfolding m by (rule bit_word_eqI) (auto simp: bit_simps)
  then show ?thesis using assms
    by (simp add: gdt_set_tss_def sys_base_def seg_base_def seg_limit_def layout_simps
        narrow_fields[of base] sys_base_fields)
qed

theorem gdt_set_tss_roundtrip_witness:
  "5 + 1 < length (gdt bss_gdt) \<and>
   sys_base (gdt (gdt_set_tss 5 0xFFFFFFFF80012340 103 bss_gdt) ! 5)
     (gdt (gdt_set_tss 5 0xFFFFFFFF80012340 103 bss_gdt) ! (5 + 1)) = 0xFFFFFFFF80012340"
proof -
  have h: "5 + 1 < length (gdt bss_gdt)" by (simp add: bss_gdt_def machine.defs GDT_ENTRIES_def)
  from h gdt_set_tss_roundtrip[OF h, of "0xFFFFFFFF80012340" 103] show ?thesis by (elim conjE, intro conjI)
qed

section \<open>The table after initialisation\<close>

lemma gdt_debug_frame [frame_simps]:
  "gdt (gdt_debug_line i s) = gdt s" "the_tss (gdt_debug_line i s) = the_tss s"
  "gdtr (gdt_debug_line i s) = gdtr s" "tr_reg (gdt_debug_line i s) = tr_reg s"
  "cs_reg (gdt_debug_line i s) = cs_reg s" "data_segs (gdt_debug_line i s) = data_segs s"
  by (simp_all add: gdt_debug_line_def serial_print_hex_text serial_print_dec_text)

lemma gdt_debug_fold [frame_simps]:
  "gdt (fold gdt_debug_line is s) = gdt s" "the_tss (fold gdt_debug_line is s) = the_tss s"
  "gdtr (fold gdt_debug_line is s) = gdtr s" "tr_reg (fold gdt_debug_line is s) = tr_reg s"
  "cs_reg (fold gdt_debug_line is s) = cs_reg s" "data_segs (fold gdt_debug_line is s) = data_segs s"
  by (induction "is" arbitrary: s) (simp_all add: frame_simps)

definition selector_entry :: "'z gdt_state_scheme \<Rightarrow> u16 \<Rightarrow> gdt_entry" where
  "selector_entry s sel = gdt s ! unat (drop_bit 3 sel)"

lemma replicate7: "replicate 7 x = [x, x, x, x, x, x, x]"
  by (simp add: eval_nat_numeral)

lemma gdt_init_table:
  "gdt (gdt_init img s) =
    [zero_gdt_entry,
     \<lparr>limit_low = 0xFFFF, base_low = 0, base_mid = 0, access = 0x9A, granularity = 0xAF, base_high = 0\<rparr>,
     \<lparr>limit_low = 0xFFFF, base_low = 0, base_mid = 0, access = 0x92, granularity = 0x8F, base_high = 0\<rparr>,
     \<lparr>limit_low = 0xFFFF, base_low = 0, base_mid = 0, access = 0xFA, granularity = 0xAF, base_high = 0\<rparr>,
     \<lparr>limit_low = 0xFFFF, base_low = 0, base_mid = 0, access = 0xF2, granularity = 0x8F, base_high = 0\<rparr>,
     \<lparr>limit_low = 103, base_low = ucast (tss_addr img), base_mid = ucast (drop_bit 16 (tss_addr img)),
       access = 0x89, granularity = 0, base_high = ucast (drop_bit 24 (tss_addr img))\<rparr>,
     \<lparr>limit_low = ucast (drop_bit 32 (tss_addr img)), base_low = ucast (drop_bit 48 (tss_addr img)),
       base_mid = 0, access = 0, granularity = 0, base_high = 0\<rparr>]"
  unfolding gdt_init_def Let_def
  by (simp add: frame_simps gdt_load_def tss_load_def gdt_set_entry_def gdt_set_tss_def
      gdt_index_defs gdt_flag_defs sizeof_tss_def zero_gdt_entry_def layout_simps
      replicate7)


end
