(* ===== verification/Pit.thy ===== *)
theory Pit
  imports Gdt
begin

text \<open>
  The programmable interval timer and the interrupt controllers, \<^verbatim>\<open>kernel/pit.c\<close>
  and \<^verbatim>\<open>kernel/include/pit.h\<close>. \<open>pit_init\<close> divides by its argument: a frequency of
  zero raises the divide error, whose handler never returns, which is the value \<open>None\<close>.
  \<open>pit_sleep\<close> waits for interrupts and is in theory \<open>Idt\<close>, after their handler.
\<close>

record pit_state = gdt_state +
  pit_ticks :: u64
  pit_frequency :: u32

definition PIT_CHANNEL0 :: u16 where "PIT_CHANNEL0 = 0x40"
definition PIT_COMMAND :: u16 where "PIT_COMMAND = 0x43"
definition PIT_CMD_BINARY :: u8 where "PIT_CMD_BINARY = 0x00"
definition PIT_CMD_MODE2 :: u8 where "PIT_CMD_MODE2 = 0x04"
definition PIT_CMD_LSB_MSB :: u8 where "PIT_CMD_LSB_MSB = 0x30"
definition PIT_CMD_CHANNEL0 :: u8 where "PIT_CMD_CHANNEL0 = 0x00"
definition PIC1_COMMAND :: u16 where "PIC1_COMMAND = 0x20"
definition PIC1_DATA :: u16 where "PIC1_DATA = 0x21"
definition PIC2_COMMAND :: u16 where "PIC2_COMMAND = 0xA0"
definition PIC2_DATA :: u16 where "PIC2_DATA = 0xA1"
definition PIC_INIT :: u8 where "PIC_INIT = 0x11"
definition PIT_BASE_FREQ :: u32 where "PIT_BASE_FREQ = 1193182"

definition pic_init :: "'z machine_scheme \<Rightarrow> 'z machine_scheme" where
  "pic_init s = fold (\<lambda>(p, v). outb p v)
     [(PIC1_COMMAND, PIC_INIT), (PIC2_COMMAND, PIC_INIT),
      (PIC1_DATA, 32), (PIC2_DATA, 40),
      (PIC1_DATA, 0x04), (PIC2_DATA, 0x02),
      (PIC1_DATA, 0x01), (PIC2_DATA, 0x01),
      (PIC1_DATA, 0xFC), (PIC2_DATA, 0xFF)] s"

definition pit_divisor :: "u32 \<Rightarrow> u32" where
  "pit_divisor frequency =
     (let divisor = PIT_BASE_FREQ div frequency
      in if divisor > 65535 then 65535 else if divisor < 1 then 1 else divisor)"

definition pit_init :: "u32 \<Rightarrow> 'z pit_state_scheme \<Rightarrow> 'z pit_state_scheme option" where
  "pit_init frequency s0 =
    (let s1 = pic_init s0 in
     if frequency = 0 then None
     else let divisor = pit_divisor frequency;
              s2 = s1\<lparr>pit_frequency := PIT_BASE_FREQ div divisor, pit_ticks := 0\<rparr>;
              s3 = outb PIT_COMMAND
                     (PIT_CMD_CHANNEL0 OR PIT_CMD_LSB_MSB OR PIT_CMD_MODE2 OR PIT_CMD_BINARY) s2;
              s4 = outb PIT_CHANNEL0 (ucast (divisor AND 0xFF)) s3;
              s5 = outb PIT_CHANNEL0 (ucast (drop_bit 8 divisor AND 0xFF)) s4
          in Some (s5\<lparr>if_flag := True\<rparr>))"

definition pit_tick :: "'z pit_state_scheme \<Rightarrow> 'z pit_state_scheme" where
  [simp]: "pit_tick s = s\<lparr>pit_ticks := pit_ticks s + 1\<rparr>"

definition pit_get_ticks :: "'z pit_state_scheme \<Rightarrow> u64" where
  "pit_get_ticks s = pit_ticks s"

section \<open>The divisor\<close>

lemma pit_divisor_bounds: "1 \<le> unat (pit_divisor f)" "unat (pit_divisor f) \<le> 65535"
  by (auto simp: pit_divisor_def Let_def word_less_nat_alt not_less)

lemma pit_divisor_cases:
  "unat (pit_divisor f) = max 1 (min 65535 (1193182 div unat f))"
  by (auto simp: pit_divisor_def Let_def PIT_BASE_FREQ_def word_less_nat_alt unat_div max_def min_def)

text \<open>
  \<open>pit_init\<close> at a frequency other than zero programs channel 0 with the quotient of
  the base frequency clamped to the 16-bit range of the chip: the two bytes it writes, low
  byte first, are that divisor, the stored frequency is the one the divisor gives and is
  never zero, the tick count restarts and interrupts are on.
\<close>

theorem pit_init_programs_divisor:
  assumes "frequency \<noteq> 0"
  shows "\<exists>s' lo hi h. pit_init frequency s = Some s'
     \<and> io_log s' = Outb PIT_CHANNEL0 hi # Outb PIT_CHANNEL0 lo # Outb PIT_COMMAND 0x34 # h
     \<and> 256 * unat hi + unat lo = max 1 (min 65535 (1193182 div unat frequency))
     \<and> unat (pit_frequency s') = 1193182 div (256 * unat hi + unat lo) \<and> pit_frequency s' \<noteq> 0
     \<and> pit_ticks s' = 0 \<and> if_flag s'"
proof -
  let ?d = "pit_divisor frequency"
  let ?lo = "ucast ?d :: u8" and ?hi = "ucast (drop_bit 8 ?d) :: u8"
  have d: "1 \<le> unat ?d" "unat ?d \<le> 65535" by (rule pit_divisor_bounds)+
  have "unat (drop_bit 8 ?d) = unat ?d div 256"
    unfolding unat_drop_bit_eq using drop_bit_eq_div[of 8 "unat ?d"] by simp
  then have hi: "unat ?hi = unat ?d div 256"
    using d by (simp add: unsigned_ucast_eq take_bit_eq_mod)
  have lo: "unat ?lo = unat ?d mod 256"
    by (simp add: unsigned_ucast_eq take_bit_eq_mod)
  have num: "256 * unat ?hi + unat ?lo = unat ?d" unfolding hi lo by simp
  have freq: "unat (PIT_BASE_FREQ div ?d) = 1193182 div unat ?d"
    by (simp add: PIT_BASE_FREQ_def unat_div)
  moreover have "1193182 div unat ?d > 0" using d by (simp add: div_greater_zero_iff)
  ultimately have nz: "PIT_BASE_FREQ div ?d \<noteq> 0" by (metis less_numeral_extra(3) unat_0)
  obtain s' where s': "pit_init frequency s = Some s'" using assms by (simp add: pit_init_def Let_def)
  then have "io_log s' = Outb PIT_CHANNEL0 ?hi # Outb PIT_CHANNEL0 ?lo # Outb PIT_COMMAND 0x34
      # io_log (pic_init s)"
    and "pit_frequency s' = PIT_BASE_FREQ div ?d" "pit_ticks s' = 0" "if_flag s'"
    using assms by (auto simp: pit_init_def Let_def layout_simps PIT_CMD_CHANNEL0_def
        PIT_CMD_LSB_MSB_def PIT_CMD_MODE2_def PIT_CMD_BINARY_def)
  with s' num freq nz pit_divisor_cases[of frequency] show ?thesis
    by (intro exI[of _ s'] exI[of _ ?lo] exI[of _ ?hi] exI[of _ "io_log (pic_init s)"]) simp
qed

definition bss_pit :: pit_state where
  "bss_pit = gdt_state.extend bss_gdt \<lparr>pit_ticks = 0, pit_frequency = 0\<rparr>"

theorem pit_init_programs_divisor_witness:
  "(100 :: u32) \<noteq> 0 \<and> (\<exists>s' lo hi h. pit_init 100 bss_pit = Some s'
     \<and> io_log s' = Outb PIT_CHANNEL0 hi # Outb PIT_CHANNEL0 lo # Outb PIT_COMMAND 0x34 # h
     \<and> 256 * unat hi + unat lo = 11931 \<and> unat (pit_frequency s') = 100)"
proof -
  have h: "(100 :: u32) \<noteq> 0" by simp
  from pit_init_programs_divisor[OF h, of bss_pit] obtain s' lo hi h where
    "pit_init 100 bss_pit = Some s'"
    "io_log s' = Outb PIT_CHANNEL0 hi # Outb PIT_CHANNEL0 lo # Outb PIT_COMMAND 0x34 # h"
    "256 * unat hi + unat lo = 11931" "unat (pit_frequency s') = 1193182 div (256 * unat hi + unat lo)"
    by auto
  then have "unat (pit_frequency s') = 100" by simp
  with h \<open>pit_init 100 bss_pit = Some s'\<close>
    \<open>io_log s' = Outb PIT_CHANNEL0 hi # Outb PIT_CHANNEL0 lo # Outb PIT_COMMAND 0x34 # h\<close>
    \<open>256 * unat hi + unat lo = 11931\<close> show ?thesis by blast
qed

end
