(* ===== verification/Idt.thy ===== *)
theory Idt
  imports Pit
begin

text \<open>
  The interrupt descriptor table and the handlers behind it: \<^verbatim>\<open>kernel/idt.c\<close>,
  \<^verbatim>\<open>kernel/include/idt.h\<close>, the dispatch of \<^verbatim>\<open>isr_common\<close> in
  \<^verbatim>\<open>kernel/idt_asm.asm\<close>, and \<^verbatim>\<open>pit_sleep\<close> of \<^verbatim>\<open>kernel/pit.c\<close>, which waits
  for the interrupts. An exception prints a report and halts the processor:
  \<open>Halted\<close> holds the state it halts in.
\<close>

datatype 's outcome = Returned 's | Halted 's

record idt_entry =
  offset_low :: u16
  selector :: u16
  ist :: u8
  type_attr :: u8
  offset_mid :: u16
  offset_high :: u32
  idt_reserved :: u32

record idt_state = pit_state +
  idt :: "idt_entry list"
  idt_pointer :: table_ptr
  idtr :: table_ptr

record interrupt_frame =
  frame_rip :: u64
  frame_cs :: u64
  frame_rflags :: u64
  frame_rsp :: u64
  frame_ss :: u64

record registers =
  reg_r15 :: u64
  reg_r14 :: u64
  reg_r13 :: u64
  reg_r12 :: u64
  reg_r11 :: u64
  reg_r10 :: u64
  reg_r9 :: u64
  reg_r8 :: u64
  reg_rdi :: u64
  reg_rsi :: u64
  reg_rbp :: u64
  reg_rsp :: u64
  reg_rbx :: u64
  reg_rdx :: u64
  reg_rcx :: u64
  reg_rax :: u64
  int_no :: u64
  error_code :: u64
  frame :: interrupt_frame

definition IDT_ENTRIES :: nat where "IDT_ENTRIES = 256"
definition IDT_TYPE_INTERRUPT_GATE :: u8 where "IDT_TYPE_INTERRUPT_GATE = 0x8E"
definition IDT_TYPE_TRAP_GATE :: u8 where "IDT_TYPE_TRAP_GATE = 0x8F"
definition IDT_TYPE_USER_INTERRUPT :: u8 where "IDT_TYPE_USER_INTERRUPT = 0xEE"
definition EXCEPTION_PAGE_FAULT :: u64 where "EXCEPTION_PAGE_FAULT = 14"
definition IRQ_TIMER :: u64 where "IRQ_TIMER = 32"
definition IRQ_KEYBOARD :: u64 where "IRQ_KEYBOARD = 33"

definition idt_set_gate ::
    "u8 \<Rightarrow> u64 \<Rightarrow> u16 \<Rightarrow> u8 \<Rightarrow> 'z idt_state_scheme \<Rightarrow> 'z idt_state_scheme" where
  "idt_set_gate num handler sel attr s = s\<lparr>idt := (idt s)[unat num :=
     \<lparr>offset_low = ucast (handler AND 0xFFFF),
      selector = sel,
      ist = 0,
      type_attr = attr,
      offset_mid = ucast (drop_bit 16 handler AND 0xFFFF),
      offset_high = ucast (drop_bit 32 handler AND 0xFFFFFFFF),
      idt_reserved = 0\<rparr>]\<rparr>"

definition zero_idt_entry :: idt_entry where
  "zero_idt_entry = \<lparr>offset_low = 0, selector = 0, ist = 0, type_attr = 0, offset_mid = 0,
     offset_high = 0, idt_reserved = 0\<rparr>"

definition idt_init :: "image \<Rightarrow> 'z idt_state_scheme \<Rightarrow> 'z idt_state_scheme" where
  "idt_init img s0 =
    (let s1 = s0\<lparr>idt := replicate IDT_ENTRIES zero_idt_entry\<rparr>;
         s2 = fold (\<lambda>i. idt_set_gate (of_nat i) (isr_stub img i) 0x08 IDT_TYPE_INTERRUPT_GATE)
                [0..<48] s1;
         p = \<lparr>ptr_limit = of_nat (16 * IDT_ENTRIES) - 1, ptr_base = idt_addr img\<rparr>
     in s2\<lparr>idt_pointer := p, idtr := p\<rparr>)"

definition exception_messages :: "string list" where
  "exception_messages = [''Division By Zero'', ''Debug'', ''Non Maskable Interrupt'', ''Breakpoint'',
     ''Overflow'', ''Bound Range Exceeded'', ''Invalid Opcode'', ''Device Not Available'',
     ''Double Fault'', ''Coprocessor Segment Overrun'', ''Invalid TSS'', ''Segment Not Present'',
     ''Stack-Segment Fault'', ''General Protection Fault'', ''Page Fault'', ''Reserved'',
     ''x87 FPU Error'', ''Alignment Check'', ''Machine Check'', ''SIMD Floating-Point Exception'',
     ''Virtualization Exception'', ''Control Protection Exception'', ''Reserved'', ''Reserved'',
     ''Reserved'', ''Reserved'', ''Reserved'', ''Reserved'', ''Hypervisor Injection Exception'',
     ''VMM Communication Exception'', ''Security Exception'', ''Reserved'']"

text \<open>One labelled register of the report.\<close>

definition print_reg :: "string \<times> u64 \<Rightarrow> 'z machine_scheme \<Rightarrow> 'z machine_scheme" where
  "print_reg = (\<lambda>(label, v) s. serial_print_hex v (serial_print label s))"

text \<open>The argument \<open>cr2\<close> is the value of the control register that the handler reads.\<close>

definition exception_handler ::
    "u64 \<Rightarrow> registers \<Rightarrow> 'z machine_scheme \<Rightarrow> 'z machine_scheme outcome" where
  "exception_handler cr2 regs s0 =
    (let s1 = serial_print ''Exception: '' (serial_print ''\<newline>=== CPU EXCEPTION ===\<newline>'' s0);
         s2 = (if int_no regs < 32 then serial_print (exception_messages ! unat (int_no regs)) s1
               else serial_print ''Unknown Exception'' s1);
         s3 = serial_print_dec (int_no regs) (serial_print ''\<newline>Interrupt Number: '' s2);
         s4 = serial_print_hex (error_code regs) (serial_print ''\<newline>Error Code: '' s3);
         s5 = serial_print ''\<newline>\<newline>Registers:\<newline>'' s4;
         s6 = fold print_reg
                [(''RAX='', reg_rax regs), ('' RBX='', reg_rbx regs), ('' RCX='', reg_rcx regs),
                 (''\<newline>RDX='', reg_rdx regs), ('' RSI='', reg_rsi regs), ('' RDI='', reg_rdi regs),
                 (''\<newline>RBP='', reg_rbp regs), ('' RSP='', reg_rsp regs),
                 (''\<newline>RIP='', frame_rip (frame regs)), ('' RFLAGS='', frame_rflags (frame regs)),
                 (''\<newline>CS='', frame_cs (frame regs)), ('' SS='', frame_ss (frame regs))] s5;
         s7 = (if int_no regs = EXCEPTION_PAGE_FAULT
               then print_reg (''\<newline>Faulting Address (CR2): '', cr2) s6 else s6)
     in Halted ((serial_print ''\<newline>\<newline>System Halted.\<newline>'' s7)\<lparr>if_flag := False\<rparr>))"

definition irq_handler :: "registers \<Rightarrow> 'z pit_state_scheme \<Rightarrow> 'z pit_state_scheme" where
  "irq_handler regs s0 =
    (let s1 = (if int_no regs \<ge> 40 then outb 0xA0 0x20 s0 else s0);
         s2 = outb 0x20 0x20 s1
     in if int_no regs = IRQ_TIMER then pit_tick s2 else s2)"

text \<open>\<open>isr_common\<close>: the signed comparison of the vector with 32 selects the handler.\<close>

definition isr_common :: "u64 \<Rightarrow> registers \<Rightarrow> 'z pit_state_scheme \<Rightarrow> 'z pit_state_scheme outcome" where
  "isr_common cr2 regs s =
     (if sint (int_no regs) < 32 then exception_handler cr2 regs s else Returned (irq_handler regs s))"

text \<open>
  \<open>pit_sleep\<close>: each \<^verbatim>\<open>hlt\<close> waits for the next interrupt, which its handler serves.
  The list holds the interrupts that arrive; \<open>None\<close> means that the processor is still
  halted when all of them have been served. The product is computed in 32 bits.
\<close>

fun pit_sleep_loop ::
    "u64 \<Rightarrow> registers list \<Rightarrow> 'z pit_state_scheme \<Rightarrow> ('z pit_state_scheme \<times> registers list) option" where
  "pit_sleep_loop target irqs s =
     (if pit_ticks s < target
      then (case irqs of [] \<Rightarrow> None | r # rs \<Rightarrow> pit_sleep_loop target rs (irq_handler r s))
      else Some (s, irqs))"

definition pit_sleep ::
    "u32 \<Rightarrow> registers list \<Rightarrow> 'z pit_state_scheme \<Rightarrow> ('z pit_state_scheme \<times> registers list) option" where
  "pit_sleep milliseconds irqs s =
     pit_sleep_loop (pit_ticks s + ucast (milliseconds * pit_frequency s div 1000)) irqs s"

declare pit_sleep_loop.simps [simp del]

section \<open>Gates\<close>

text \<open>The address the processor jumps to through a gate, and who may use it.\<close>

definition gate_offset :: "idt_entry \<Rightarrow> u64" where
  "gate_offset e = ucast (offset_low e) OR push_bit 16 (ucast (offset_mid e))
     OR push_bit 32 (ucast (offset_high e))"

definition gate_present :: "idt_entry \<Rightarrow> bool" where "gate_present e = bit (type_attr e) 7"
definition gate_dpl :: "idt_entry \<Rightarrow> nat" where "gate_dpl e = unat (drop_bit 5 (type_attr e) AND 3)"

lemma gate_fields:
  fixes h :: u64
  shows "ucast (ucast h :: u16) OR push_bit 16 (ucast (ucast (drop_bit 16 h) :: u16))
     OR push_bit 32 (ucast (ucast (drop_bit 32 h) :: u32)) = h" (is "?lhs = h")
proof (rule bit_word_eqI)
  fix n assume "n < LENGTH(64)"
  then show "bit ?lhs n = bit h n" by (cases "n < 32") (auto simp: bit_simps)
qed

lemma gate_offset_packed:
  "gate_offset \<lparr>offset_low = ucast (h AND 0xFFFF), selector = sel, ist = i, type_attr = a,
     offset_mid = ucast (drop_bit 16 h AND 0xFFFF),
     offset_high = ucast (drop_bit 32 h AND 0xFFFFFFFF), idt_reserved = r\<rparr> = h"
  by (simp add: gate_offset_def layout_simps gate_fields)

lemma length_idt_set_gate [simp]: "length (idt (idt_set_gate n h sel a s)) = length (idt s)"
  by (simp add: idt_set_gate_def)

lemma idt_set_gate_nth:
  "length (idt s) = 256 \<Longrightarrow> j < 256 \<Longrightarrow> idt (idt_set_gate n h sel a s) ! j =
     (if j = unat n then \<lparr>offset_low = ucast (h AND 0xFFFF), selector = sel, ist = 0, type_attr = a,
        offset_mid = ucast (drop_bit 16 h AND 0xFFFF),
        offset_high = ucast (drop_bit 32 h AND 0xFFFFFFFF), idt_reserved = 0\<rparr> else idt s ! j)"
  by (simp add: idt_set_gate_def nth_list_update)

lemma idt_fold_gates:
  assumes "length (idt s) = 256" "n \<le> 256" "j < 256"
  shows "length (idt (fold (\<lambda>i. idt_set_gate (of_nat i) (f i) sel a) [0..<n] s)) = 256"
    and "idt (fold (\<lambda>i. idt_set_gate (of_nat i) (f i) sel a) [0..<n] s) ! j =
     (if j < n then \<lparr>offset_low = ucast (f j AND 0xFFFF), selector = sel, ist = 0, type_attr = a,
        offset_mid = ucast (drop_bit 16 (f j) AND 0xFFFF),
        offset_high = ucast (drop_bit 32 (f j) AND 0xFFFFFFFF), idt_reserved = 0\<rparr> else idt s ! j)"
proof -
  have *: "length (idt (fold (\<lambda>i. idt_set_gate (of_nat i) (f i) sel a) [0..<n] s)) = 256" for n
    using assms(1) by (induction n) simp_all
  then show "length (idt (fold (\<lambda>i. idt_set_gate (of_nat i) (f i) sel a) [0..<n] s)) = 256" .
  show "idt (fold (\<lambda>i. idt_set_gate (of_nat i) (f i) sel a) [0..<n] s) ! j =
     (if j < n then \<lparr>offset_low = ucast (f j AND 0xFFFF), selector = sel, ist = 0, type_attr = a,
        offset_mid = ucast (drop_bit 16 (f j) AND 0xFFFF),
        offset_high = ucast (drop_bit 32 (f j) AND 0xFFFFFFFF), idt_reserved = 0\<rparr> else idt s ! j)"
    using assms(2)
  proof (induction n)
    case (Suc n)
    then have "unat (of_nat n :: u8) = n" by (simp add: unat_of_nat take_bit_nat_eq_self)
    with Suc * assms(3) show ?case by (auto simp: idt_set_gate_nth less_Suc_eq)
  qed simp
qed

lemma idt_init_nth:
  assumes "j < 256"
  shows "idt (idt_init img s) ! j =
     (if j < 48 then \<lparr>offset_low = ucast (isr_stub img j AND 0xFFFF), selector = 0x08, ist = 0,
        type_attr = IDT_TYPE_INTERRUPT_GATE, offset_mid = ucast (drop_bit 16 (isr_stub img j) AND 0xFFFF),
        offset_high = ucast (drop_bit 32 (isr_stub img j) AND 0xFFFFFFFF), idt_reserved = 0\<rparr>
      else zero_idt_entry)"
    and "length (idt (idt_init img s)) = 256"
    and "ptr_limit (idtr (idt_init img s)) = 4095"
proof -
  have len: "length (idt (s\<lparr>idt := replicate IDT_ENTRIES zero_idt_entry\<rparr>)) = 256"
    by (simp add: IDT_ENTRIES_def)
  note g = idt_fold_gates[OF len _ assms, of 48 "isr_stub img" "0x08" IDT_TYPE_INTERRUPT_GATE, simplified]
  show "idt (idt_init img s) ! j = (if j < 48 then
       \<lparr>offset_low = ucast (isr_stub img j AND 0xFFFF), selector = 0x08, ist = 0,
        type_attr = IDT_TYPE_INTERRUPT_GATE, offset_mid = ucast (drop_bit 16 (isr_stub img j) AND 0xFFFF),
        offset_high = ucast (drop_bit 32 (isr_stub img j) AND 0xFFFFFFFF), idt_reserved = 0\<rparr>
      else zero_idt_entry)"
    using assms by (simp add: idt_init_def Let_def g) (simp add: IDT_ENTRIES_def)
  show "length (idt (idt_init img s)) = 256" by (simp add: idt_init_def Let_def g)
  show "ptr_limit (idtr (idt_init img s)) = 4095" by (simp add: idt_init_def Let_def IDT_ENTRIES_def)
qed

text \<open>
  C35. After \<open>idt_init\<close> exactly the vectors 0 to 47 are present; each of them enters the
  assembly stub of its own number through the kernel code segment and only at ring 0, and
  the limit loaded into IDTR covers all 256 gates.
\<close>

theorem idt_init_gates:
  assumes "j < 256"
  shows "gate_present (idt (idt_init img s) ! j) = (j < 48)
     \<and> (j < 48 \<longrightarrow> gate_offset (idt (idt_init img s) ! j) = isr_stub img j
           \<and> selector (idt (idt_init img s) ! j) = KERNEL_CS
           \<and> gate_dpl (idt (idt_init img s) ! j) = 0)
     \<and> unat (ptr_limit (idtr (idt_init img s))) + 1 = 16 * length (idt (idt_init img s))"
  using assms
  by (simp add: idt_init_nth gate_offset_packed KERNEL_CS_def gdt_index_defs gate_present_def
      gate_dpl_def IDT_TYPE_INTERRUPT_GATE_def zero_idt_entry_def bit_simps)

definition bss_idt :: idt_state where
  "bss_idt = pit_state.extend bss_pit
     \<lparr>idt = replicate IDT_ENTRIES zero_idt_entry, idt_pointer = \<lparr>ptr_limit = 0, ptr_base = 0\<rparr>,
      idtr = \<lparr>ptr_limit = 0, ptr_base = 0\<rparr>\<rparr>"

definition example_image :: image where
  "example_image = \<lparr>tss_addr = 0xFFFFFFFF80020000, gdt_addr = 0xFFFFFFFF80021000,
     idt_addr = 0xFFFFFFFF80022000, stacks_addr = 0xFFFFFFFF80030000,
     isr_stub = (\<lambda>n. 0xFFFFFFFF80001000 + 16 * of_nat n),
     syscall_entry_asm = 0xFFFFFFFF80002000, usermode_trampoline = 0xFFFFFFFF80003000\<rparr>"

theorem idt_init_gates_witness:
  "(32 :: nat) < 256 \<and> gate_present (idt (idt_init example_image bss_idt) ! 32)
     \<and> gate_offset (idt (idt_init example_image bss_idt) ! 32) = 0xFFFFFFFF80001200"
proof -
  have h: "(32 :: nat) < 256" by simp
  from idt_init_gates[OF h, of example_image bss_idt] show ?thesis by (simp add: example_image_def)
qed

section \<open>Sleeping\<close>

lemma irq_handler_ticks:
  "pit_ticks (irq_handler r s) = pit_ticks s + (if int_no r = IRQ_TIMER then 1 else 0)"
  "pit_frequency (irq_handler r s) = pit_frequency s"
  by (simp_all add: irq_handler_def Let_def)

definition timer_irqs :: "registers list \<Rightarrow> nat" where
  "timer_irqs irqs = length (filter (\<lambda>r. int_no r = IRQ_TIMER) irqs)"

lemma pit_sleep_loop_spec:
  assumes "unat (pit_ticks s) + n < 2 ^ 64" "target = pit_ticks s + of_nat n"
  shows "if timer_irqs irqs < n then pit_sleep_loop target irqs s = None
     else \<exists>s' pre rest. pit_sleep_loop target irqs s = Some (s', rest) \<and> irqs = pre @ rest
            \<and> timer_irqs pre = n \<and> pit_ticks s' = target"
  using assms
proof (induction irqs arbitrary: s n)
  case Nil
  have "pit_ticks s < target \<longleftrightarrow> 0 < n"
    using Nil by (simp add: word_less_nat_alt unat_add_of_nat64)
  with Nil show ?case by (auto simp: pit_sleep_loop.simps timer_irqs_def)
next
  case (Cons r irqs)
  let ?s = "irq_handler r s" and ?m = "if int_no r = IRQ_TIMER then n - 1 else n"
  have lt: "pit_ticks s < target \<longleftrightarrow> 0 < n"
    using Cons.prems by (simp add: word_less_nat_alt unat_add_of_nat64)
  show ?case
  proof (cases "n = 0")
    case True
    with lt Cons.prems show ?thesis
      by (auto simp: pit_sleep_loop.simps timer_irqs_def intro!: exI[of _ "[]"])
  next
    case False
    then have step: "pit_sleep_loop target (r # irqs) s = pit_sleep_loop target irqs ?s"
      using lt by (simp add: pit_sleep_loop.simps)
    have "unat (pit_ticks s + 1) = Suc (unat (pit_ticks s))"
      using Cons.prems(1) False by (intro unat_Suc_word) simp
    then have "unat (pit_ticks ?s) + ?m < 2 ^ 64 \<and> target = pit_ticks ?s + of_nat ?m"
      using Cons.prems False by (auto simp: irq_handler_ticks of_nat_diff)
    with Cons.IH[of ?s ?m] have ih: "if timer_irqs irqs < ?m then pit_sleep_loop target irqs ?s = None
       else \<exists>s' pre rest. pit_sleep_loop target irqs ?s = Some (s', rest) \<and> irqs = pre @ rest
            \<and> timer_irqs pre = ?m \<and> pit_ticks s' = target" by blast
    have tm: "timer_irqs (r # irqs) < n \<longleftrightarrow> timer_irqs irqs < ?m"
      "timer_irqs (r # pre) = n \<longleftrightarrow> timer_irqs pre = ?m" for pre
      using False by (auto simp: timer_irqs_def)
    show ?thesis
    proof (cases "timer_irqs irqs < ?m")
      case True
      with ih step tm show ?thesis by simp
    next
      case le: False
      with ih obtain s' pre rest where "pit_sleep_loop target irqs ?s = Some (s', rest)"
        "irqs = pre @ rest" "timer_irqs pre = ?m" "pit_ticks s' = target" by auto
      with step tm le show ?thesis
        by (auto intro!: exI[of _ s'] exI[of _ "r # pre"] exI[of _ rest])
    qed
  qed
qed


definition example_regs :: "u64 \<Rightarrow> registers" where
  "example_regs n = \<lparr>reg_r15 = 0, reg_r14 = 0, reg_r13 = 0, reg_r12 = 0, reg_r11 = 0, reg_r10 = 0,
     reg_r9 = 0, reg_r8 = 0, reg_rdi = 0, reg_rsi = 0, reg_rbp = 0, reg_rsp = 0, reg_rbx = 0,
     reg_rdx = 0, reg_rcx = 0, reg_rax = 0, int_no = n, error_code = 0,
     frame = \<lparr>frame_rip = 0, frame_cs = 8, frame_rflags = 0x202, frame_rsp = 0, frame_ss = 0x10\<rparr>\<rparr>"


end
