(* ===== verification/Pmm.thy ===== *)
theory Pmm
  imports Idt
begin

text \<open>
  The physical memory manager, \<^verbatim>\<open>kernel/pmm.c\<close>: a stack of free page addresses in a
  static array, filled from the memory map of the boot loader.

  The memory map comes from Limine, whose header is not part of the repository, so the
  constant \<^verbatim>\<open>LIMINE_MEMMAP_USABLE\<close> is the argument \<open>usable\<close>. The loop over the pages
  of a region compares 64-bit addresses and would not end if the address wrapped around;
  it is a partial function, and \<open>pmm_init_result\<close> shows that it always returns.

  \<open>free_list\<close> is the abstract view, the list of free pages from the bottom of the stack
  to its top; \<open>pmm_inv\<close> is the invariant. The locale \<open>page_allocator\<close> is the interface
  that clients of the allocator rely on.
\<close>

record memmap_entry =
  me_base :: u64
  me_length :: u64
  me_type :: u64

record pmm_state = idt_state +
  page_stack :: "nat \<Rightarrow> u64"
  page_stack_top :: u64
  total_pages :: u64
  free_pages :: u64

definition PAGE_SIZE :: u64 where "PAGE_SIZE = 4096"
definition MAX_PAGES :: u64 where "MAX_PAGES = 1048576"

definition align_up :: "u64 \<Rightarrow> u64 \<Rightarrow> u64" where
  "align_up addr align = (addr + align - 1) AND NOT (align - 1)"

definition align_down :: "u64 \<Rightarrow> u64 \<Rightarrow> u64" where
  "align_down addr align = addr AND NOT (align - 1)"

definition page_push :: "u64 \<Rightarrow> 'z pmm_state_scheme \<Rightarrow> 'z pmm_state_scheme" where
  "page_push page s = s\<lparr>page_stack := (page_stack s)(unat (page_stack_top s) := page),
     page_stack_top := page_stack_top s + 1\<rparr>"

partial_function (option) pmm_region_loop ::
    "u64 \<Rightarrow> u64 \<Rightarrow> 'z pmm_state_scheme \<Rightarrow> 'z pmm_state_scheme option" where
  "pmm_region_loop addr rtop s =
     (if addr < rtop then
        if addr < 0x10000 then pmm_region_loop (addr + PAGE_SIZE) rtop s
        else if page_stack_top s \<ge> MAX_PAGES
        then Some (serial_print ''PMM: Warning: Page stack full!\<newline>'' s)
        else let s1 = page_push addr s in
          pmm_region_loop (addr + PAGE_SIZE) rtop
            (s1\<lparr>total_pages := total_pages s1 + 1, free_pages := free_pages s1 + 1\<rparr>)
      else Some s)"

primrec pmm_add_regions ::
    "u64 \<Rightarrow> memmap_entry list \<Rightarrow> 'z pmm_state_scheme \<Rightarrow> 'z pmm_state_scheme option" where
  "pmm_add_regions usable [] s = Some s"
| "pmm_add_regions usable (e # es) s =
     (if me_type e \<noteq> usable then pmm_add_regions usable es s
      else let base = align_up (me_base e) PAGE_SIZE;
               rtop = align_down (me_base e + me_length e) PAGE_SIZE
           in if base \<ge> rtop then pmm_add_regions usable es s
              else Option.bind (pmm_region_loop base rtop s) (pmm_add_regions usable es))"

definition pmm_total_usable :: "u64 \<Rightarrow> memmap_entry list \<Rightarrow> u64" where
  "pmm_total_usable usable es =
     foldl (\<lambda>acc e. if me_type e = usable then acc + me_length e else acc) 0 es"

definition pmm_init ::
    "u64 \<Rightarrow> memmap_entry list option \<Rightarrow> 'z pmm_state_scheme \<Rightarrow> 'z pmm_state_scheme option" where
  "pmm_init usable memmap s0 =
    (let s1 = serial_print ''PMM: Initializing physical memory manager...\<newline>'' s0 in
     case memmap of
       None \<Rightarrow> Some (serial_print ''PMM: Error: No memory map from bootloader!\<newline>'' s1)
     | Some es \<Rightarrow>
        (let s2 = serial_print '' memory regions\<newline>''
                    (serial_print_dec (of_nat (length es)) (serial_print ''PMM: Found '' s1));
             s3 = s2\<lparr>page_stack_top := 0, total_pages := 0, free_pages := 0\<rparr>;
             s4 = serial_print '' MB\<newline>'' (serial_print_dec (pmm_total_usable usable es div 1024 div 1024)
                    (serial_print ''PMM: Total usable memory: '' s3))
         in map_option (\<lambda>s5.
              (let s6 = serial_print '' pages (\<newline>'' (serial_print_dec (total_pages s5)
                          (serial_print ''PMM: Initialized with '' s5))
               in serial_print '' MB)\<newline>''
                    (serial_print_dec (total_pages s6 * PAGE_SIZE div 1024 div 1024) s6)))
              (pmm_add_regions usable es s4)))"

definition pmm_alloc_page :: "'z pmm_state_scheme \<Rightarrow> u64 \<times> 'z pmm_state_scheme" where
  "pmm_alloc_page s0 =
     (if page_stack_top s0 = 0 then (0, serial_print ''PMM: Error: Out of memory!\<newline>'' s0)
      else let s1 = s0\<lparr>free_pages := free_pages s0 - 1, page_stack_top := page_stack_top s0 - 1\<rparr>;
               page = page_stack s1 (unat (page_stack_top s1));
               ptr = page + hhdm_offset s1
           in (page, s1\<lparr>phys_mem := kcopy (hhdm_offset s1) (phys_mem s1) ptr (replicate 4096 0)\<rparr>))"

definition pmm_free_page :: "u64 \<Rightarrow> 'z pmm_state_scheme \<Rightarrow> 'z pmm_state_scheme" where
  "pmm_free_page page s =
     (if page = 0 then s
      else if page_stack_top s \<ge> MAX_PAGES
      then serial_print ''PMM: Error: Page stack overflow on free!\<newline>'' s
      else let s1 = page_push page s in s1\<lparr>free_pages := free_pages s1 + 1\<rparr>)"

definition pmm_get_total_memory :: "'z pmm_state_scheme \<Rightarrow> u64" where
  "pmm_get_total_memory s = total_pages s * PAGE_SIZE"

definition pmm_get_free_memory :: "'z pmm_state_scheme \<Rightarrow> u64" where
  "pmm_get_free_memory s = free_pages s * PAGE_SIZE"

definition pmm_get_used_memory :: "'z pmm_state_scheme \<Rightarrow> u64" where
  "pmm_get_used_memory s = (total_pages s - free_pages s) * PAGE_SIZE"

section \<open>The abstract view\<close>

definition free_list :: "'z pmm_state_scheme \<Rightarrow> u64 list" where
  "free_list s = map (page_stack s) [0..<unat (page_stack_top s)]"

definition page_ok :: "u64 \<Rightarrow> bool" where
  "page_ok p \<longleftrightarrow> 4096 dvd unat p \<and> 0x10000 \<le> unat p"

definition pmm_inv :: "'z pmm_state_scheme \<Rightarrow> bool" where
  "pmm_inv s \<longleftrightarrow> unat (page_stack_top s) \<le> unat MAX_PAGES \<and> free_pages s = page_stack_top s
     \<and> distinct (free_list s) \<and> (\<forall>p\<in>set (free_list s). page_ok p)"

lemma page_ok_not_null: "page_ok p \<Longrightarrow> p \<noteq> 0"
  by (auto simp: page_ok_def)

lemma length_free_list: "length (free_list s) = unat (page_stack_top s)"
  by (simp add: free_list_def)

lemma free_list_cong:
  "page_stack s = page_stack t \<Longrightarrow> page_stack_top s = page_stack_top t \<Longrightarrow> free_list s = free_list t"
  by (simp add: free_list_def)

lemma free_list_push:
  assumes "unat (page_stack_top s) < unat MAX_PAGES"
  shows "free_list (page_push p s) = free_list s @ [p]"
    and "unat (page_stack_top (page_push p s)) = Suc (unat (page_stack_top s))"
proof -
  show *: "unat (page_stack_top (page_push p s)) = Suc (unat (page_stack_top s))"
    using assms by (simp add: page_push_def MAX_PAGES_def unat_Suc_word)
  then have "unat (page_stack_top s + 1) = Suc (unat (page_stack_top s))"
    by (simp add: page_push_def)
  then show "free_list (page_push p s) = free_list s @ [p]"
    by (simp add: free_list_def page_push_def)
qed

section \<open>Allocation and release\<close>

lemma pmm_alloc_empty:
  "free_list s = [] \<Longrightarrow> pmm_alloc_page s = (0, serial_print ''PMM: Error: Out of memory!\<newline>'' s)"
  using length_free_list[of s] by (simp add: pmm_alloc_page_def unat_0_iff)

lemma alloc_nonempty:
  assumes "free_list s \<noteq> []"
  shows "pmm_alloc_page s = (last (free_list s),
     s\<lparr>free_pages := free_pages s - 1, page_stack_top := page_stack_top s - 1,
       phys_mem := kcopy (hhdm_offset s) (phys_mem s) (phys_to_virt (hhdm_offset s) (last (free_list s)))
         (replicate 4096 0)\<rparr>)"
    and "free_list (snd (pmm_alloc_page s)) = butlast (free_list s)"
    and "unat (page_stack_top s - 1) = unat (page_stack_top s) - 1"
proof -
  have nz: "page_stack_top s \<noteq> 0" using assms length_free_list[of s] by auto
  show pred: "unat (page_stack_top s - 1) = unat (page_stack_top s) - 1"
    using nz by (rule unat_minus_one)
  have last: "last (free_list s) = page_stack s (unat (page_stack_top s - 1))"
    using nz pred by (simp add: free_list_def last_map last_upt unat_gt_0)
  show alloc: "pmm_alloc_page s = (last (free_list s),
     s\<lparr>free_pages := free_pages s - 1, page_stack_top := page_stack_top s - 1,
       phys_mem := kcopy (hhdm_offset s) (phys_mem s) (phys_to_virt (hhdm_offset s) (last (free_list s)))
         (replicate 4096 0)\<rparr>)"
    using nz by (simp add: pmm_alloc_page_def Let_def last phys_to_virt_def)
  show "free_list (snd (pmm_alloc_page s)) = butlast (free_list s)"
    by (simp add: alloc free_list_def pred butlast_conv_take take_map)
qed

lemma pmm_alloc_invariant:
  assumes "pmm_inv s"
  shows "pmm_inv (snd (pmm_alloc_page s))"
proof (cases "free_list s = []")
  case True
  with assms show ?thesis by (simp add: pmm_alloc_empty pmm_inv_def free_list_def)
next
  case False
  note a = alloc_nonempty[OF False]
  have "set (butlast (free_list s)) \<subseteq> set (free_list s)" by (auto dest: in_set_butlastD)
  with assms show ?thesis
    unfolding pmm_inv_def a(2) by (auto simp: a(1,3) distinct_butlast)
qed

lemma free_list_free:
  assumes "page \<noteq> 0" "unat (page_stack_top s) < unat MAX_PAGES"
  shows "free_list (pmm_free_page page s) = free_list s @ [page]"
    and "page_stack_top (pmm_free_page page s) = page_stack_top s + 1"
    and "free_pages (pmm_free_page page s) = free_pages s + 1"
  using assms free_list_push[OF assms(2), of page]
  by (auto simp: pmm_free_page_def Let_def word_le_nat_alt page_push_def free_list_def)

lemma free_inv:
  assumes "pmm_inv s" "page_ok page" "page \<notin> set (free_list s)"
    "unat (page_stack_top s) < unat MAX_PAGES"
  shows "pmm_inv (pmm_free_page page s)"
proof -
  have nz: "page \<noteq> 0" using assms(2) by (rule page_ok_not_null)
  have "unat (page_stack_top s + 1) = Suc (unat (page_stack_top s))"
    using assms(4) by (simp add: MAX_PAGES_def unat_Suc_word)
  with assms free_list_free[OF nz assms(4)] show ?thesis
    by (auto simp: pmm_inv_def)
qed

section \<open>The interface of the allocator\<close>

text \<open>
  What a client relies on: a page that is handed out leaves the free list, a page that is
  given back joins it, and every operation keeps the invariant. \<open>avail\<close> is the list of
  free pages and \<open>cap\<close> the number of pages the allocator can hold.
\<close>

locale page_allocator =
  fixes alloc :: "'s \<Rightarrow> u64 \<times> 's"
    and free :: "u64 \<Rightarrow> 's \<Rightarrow> 's"
    and avail :: "'s \<Rightarrow> u64 list"
    and inv :: "'s \<Rightarrow> bool"
    and ok :: "u64 \<Rightarrow> bool"
    and cap :: nat
  assumes alloc_empty: "inv s \<Longrightarrow> avail s = [] \<Longrightarrow> fst (alloc s) = 0 \<and> avail (snd (alloc s)) = []"
    and alloc_page: "inv s \<Longrightarrow> avail s \<noteq> [] \<Longrightarrow>
      fst (alloc s) = last (avail s) \<and> avail (snd (alloc s)) = butlast (avail s)"
    and alloc_inv: "inv s \<Longrightarrow> inv (snd (alloc s))"
    and free_page: "inv s \<Longrightarrow> ok p \<Longrightarrow> p \<notin> set (avail s) \<Longrightarrow> length (avail s) < cap \<Longrightarrow>
      avail (free p s) = avail s @ [p] \<and> inv (free p s)"
    and avail_ok: "inv s \<Longrightarrow> p \<in> set (avail s) \<Longrightarrow> ok p"
    and avail_distinct: "inv s \<Longrightarrow> distinct (avail s)"
    and avail_cap: "inv s \<Longrightarrow> length (avail s) \<le> cap"
    and ok_not_null: "ok p \<Longrightarrow> p \<noteq> 0"

text \<open>
  A run of a client that frees only pages it holds: the client's set of pages together
  with the allocator's state.
\<close>

inductive client_run ::
    "('s \<Rightarrow> u64 \<times> 's) \<Rightarrow> (u64 \<Rightarrow> 's \<Rightarrow> 's) \<Rightarrow> 's \<Rightarrow> u64 set \<Rightarrow> 's \<Rightarrow> bool"
  for alloc free s0 where
  start: "client_run alloc free s0 {} s0"
| got_page: "client_run alloc free s0 held s \<Longrightarrow> alloc s = (p, s') \<Longrightarrow> p \<noteq> 0 \<Longrightarrow>
    client_run alloc free s0 (insert p held) s'"
| no_page: "client_run alloc free s0 held s \<Longrightarrow> alloc s = (0, s') \<Longrightarrow>
    client_run alloc free s0 held s'"
| give_back: "client_run alloc free s0 held s \<Longrightarrow> p \<in> held \<Longrightarrow>
    client_run alloc free s0 (held - {p}) (free p s)"

context page_allocator
begin

lemma alloc_from_avail:
  assumes "inv s" "fst (alloc s) \<noteq> 0"
  shows "avail s = avail (snd (alloc s)) @ [fst (alloc s)]"
proof -
  have "avail s \<noteq> []" using assms alloc_empty[of s] by auto
  with alloc_page[OF assms(1)] show ?thesis by auto
qed

lemma alloc_null_empty:
  assumes "inv s" "fst (alloc s) = 0"
  shows "avail s = []"
proof (rule ccontr)
  assume ne: "avail s \<noteq> []"
  with alloc_page[OF assms(1)] assms(2) have "0 \<in> set (avail s)" by (metis last_in_set)
  with avail_ok[OF assms(1)] ok_not_null show False by blast
qed

lemma alloc_free_id:
  assumes "inv s" "fst (alloc s) \<noteq> 0"
  shows "avail (free (fst (alloc s)) (snd (alloc s))) = avail s"
proof -
  note a = alloc_from_avail[OF assms]
  have "distinct (avail (snd (alloc s)) @ [fst (alloc s)])"
    using a avail_distinct[OF assms(1)] by simp
  then have "fst (alloc s) \<notin> set (avail (snd (alloc s)))" by simp
  moreover have "fst (alloc s) \<in> set (avail s)" by (subst a) simp
  then have "ok (fst (alloc s))" by (rule avail_ok[OF assms(1)])
  moreover have "length (avail s) = Suc (length (avail (snd (alloc s))))" by (subst a) simp
  then have "length (avail (snd (alloc s))) < cap" using avail_cap[OF assms(1)] by simp
  ultimately have "avail (free (fst (alloc s)) (snd (alloc s))) = avail (snd (alloc s)) @ [fst (alloc s)]"
    using free_page[OF alloc_inv[OF assms(1)]] by blast
  with a show ?thesis by simp
qed

lemma client_conservation:
  assumes "client_run alloc free s0 held s" "inv s0"
  shows "inv s \<and> held \<inter> set (avail s) = {} \<and> held \<union> set (avail s) = set (avail s0)
     \<and> (\<forall>p\<in>held. ok p) \<and> card held + length (avail s) = length (avail s0)"
  using assms
proof (induction rule: client_run.induct)
  case start
  then show ?case by simp
next
  case (got_page held s p s')
  then have IH: "inv s" "held \<inter> set (avail s) = {}" "held \<union> set (avail s) = set (avail s0)"
    "\<forall>p\<in>held. ok p" "card held + length (avail s) = length (avail s0)" by auto
  have a: "avail s = avail s' @ [p]" using alloc_from_avail[OF IH(1)] got_page.hyps by simp
  have "inv s'" using alloc_inv[OF IH(1)] got_page.hyps by simp
  moreover have "ok p" using a avail_ok[OF IH(1)] by simp
  moreover have "p \<notin> set (avail s')" using a avail_distinct[OF IH(1)] by simp
  moreover have "finite held" using IH(3) by (metis finite_Un finite_set)
  moreover have "p \<notin> held" using IH(2) a by auto
  ultimately show ?case using IH a by auto
next
  case (no_page held s s')
  then have "inv s" "avail s = []" using alloc_null_empty[of s] by auto
  with no_page alloc_empty[of s] alloc_inv[of s] show ?case by auto
next
  case (give_back held s p)
  then have IH: "inv s" "held \<inter> set (avail s) = {}" "held \<union> set (avail s) = set (avail s0)"
    "\<forall>p\<in>held. ok p" "card held + length (avail s) = length (avail s0)" by auto
  have fin: "finite held" using IH(3) by (metis finite_Un finite_set)
  with give_back.hyps have c: "card held = Suc (card (held - {p}))" by (metis card_Suc_Diff1)
  then have "length (avail s) < cap" using IH(5) avail_cap[OF give_back.prems] by linarith
  with free_page[OF IH(1)] IH give_back.hyps have "avail (free p s) = avail s @ [p]" "inv (free p s)"
    by blast+
  moreover have "card (held - {p}) + length (avail (free p s)) = length (avail s0)"
    using IH(5) c \<open>avail (free p s) = avail s @ [p]\<close> by simp
  ultimately show ?case using IH(2-4) give_back.hyps by auto
qed

end

interpretation pmm: page_allocator pmm_alloc_page pmm_free_page free_list pmm_inv page_ok "unat MAX_PAGES"
proof
  fix s :: "'a pmm_state_scheme" and p
  assume inv: "pmm_inv s"
  show "free_list s = [] \<Longrightarrow> fst (pmm_alloc_page s) = 0 \<and> free_list (snd (pmm_alloc_page s)) = []"
    by (simp add: pmm_alloc_empty free_list_def)
  show "free_list s \<noteq> [] \<Longrightarrow> fst (pmm_alloc_page s) = last (free_list s)
      \<and> free_list (snd (pmm_alloc_page s)) = butlast (free_list s)"
    using alloc_nonempty(1,2)[of s] by simp
  show "pmm_inv (snd (pmm_alloc_page s))" using inv by (rule pmm_alloc_invariant)
  show "page_ok p \<Longrightarrow> p \<notin> set (free_list s) \<Longrightarrow> length (free_list s) < unat MAX_PAGES \<Longrightarrow>
      free_list (pmm_free_page p s) = free_list s @ [p] \<and> pmm_inv (pmm_free_page p s)"
    using inv free_list_free(1)[of p s] free_inv[of s p] page_ok_not_null[of p]
    by (simp add: length_free_list)
  show "p \<in> set (free_list s) \<Longrightarrow> page_ok p" using inv by (simp add: pmm_inv_def)
  show "distinct (free_list s)" using inv by (simp add: pmm_inv_def)
  show "length (free_list s) \<le> unat MAX_PAGES" using inv by (simp add: pmm_inv_def length_free_list)
next
  show "page_ok p \<Longrightarrow> p \<noteq> 0" for p by (rule page_ok_not_null)
qed

section \<open>Initialisation\<close>

lemma and_not_4095: "(a :: u64) AND - 4096 = push_bit 12 (drop_bit 12 a)"
proof -
  have m: "(- 4096 :: u64) = NOT (mask 12)" by (simp add: mask_eq_exp_minus_1)
  show ?thesis unfolding m by (rule bit_word_eqI) (auto simp: bit_simps)
qed

lemma unat_align_down: "unat (align_down a PAGE_SIZE) = 4096 * (unat a div 4096)"
proof -
  have "unat (drop_bit 12 a) = unat a div 4096"
    unfolding unat_drop_bit_eq using drop_bit_eq_div[of 12 "unat a"] by simp
  moreover have "4096 * (unat a div 4096) < 2 ^ 64" using unat_less_2p64[of a] by simp
  ultimately have "unat (push_bit 12 (drop_bit 12 a)) = 4096 * (unat a div 4096)"
    by (simp add: push_bit_eq_mult unat_word_ariths mult.commute)
  then show ?thesis by (simp add: align_down_def PAGE_SIZE_def and_not_4095)
qed

lemma align_up_eq: "align_up a PAGE_SIZE = align_down (a + 4095) PAGE_SIZE"
  by (simp add: align_up_def align_down_def PAGE_SIZE_def add.commute)

text \<open>The pages between two page aligned addresses, and the pages a map entry contributes.\<close>

definition page_range :: "u64 \<Rightarrow> u64 \<Rightarrow> u64 list" where
  "page_range a b = map (\<lambda>i. a + of_nat (4096 * i)) [0..<(unat b - unat a) div 4096]"

definition region_pages :: "memmap_entry \<Rightarrow> u64 list" where
  "region_pages e = filter (\<lambda>p. 0x10000 \<le> p)
     (page_range (align_up (me_base e) PAGE_SIZE) (align_down (me_base e + me_length e) PAGE_SIZE))"

lemma page_range_step:
  assumes "4096 dvd unat a" "4096 dvd unat b" "a < b"
  shows "page_range a b = a # page_range (a + 4096) b" "unat (a + 4096) = unat a + 4096"
    "4096 dvd unat (a + 4096)"
proof -
  obtain k l where kl: "unat a = 4096 * k" "unat b = 4096 * l" using assms(1,2) by blast
  have "k < l" using assms(3) kl by (simp add: word_less_nat_alt)
  then have "unat a + 4096 \<le> unat b" using kl by simp
  then show *: "unat (a + 4096) = unat a + 4096"
    using unat_less_2p64[of b] by (simp add: unat_add64)
  show "4096 dvd unat (a + 4096)" unfolding * using assms(1) by simp
  have n: "(unat b - unat a) div 4096 = Suc ((unat b - unat (a + 4096)) div 4096)"
    unfolding * kl using \<open>k < l\<close> by (simp add: diff_mult_distrib2[symmetric])
  show "page_range a b = a # page_range (a + 4096) b"
    unfolding page_range_def n by (simp add: upt_conv_Cons map_Suc_upt[symmetric] algebra_simps del: upt_Suc)
qed

text \<open>The effect of pushing pages until the stack is full; only the console may change besides.\<close>

definition pmm_erase :: "'z pmm_state_scheme \<Rightarrow> 'z pmm_state_scheme" where
  "pmm_erase s = s\<lparr>console := [], page_stack := (\<lambda>_. 0), page_stack_top := 0, total_pages := 0,
     free_pages := 0\<rparr>"

definition pushed :: "'z pmm_state_scheme \<Rightarrow> u64 list \<Rightarrow> 'z pmm_state_scheme \<Rightarrow> bool" where
  "pushed s ps s' \<longleftrightarrow> free_list s' = take (unat MAX_PAGES) (free_list s @ ps)
     \<and> unat (page_stack_top s') \<le> unat MAX_PAGES
     \<and> total_pages s' - page_stack_top s' = total_pages s - page_stack_top s
     \<and> free_pages s' - page_stack_top s' = free_pages s - page_stack_top s
     \<and> pmm_erase s' = pmm_erase s"

lemma pmm_erase_phys_mem: "pmm_erase s' = pmm_erase s \<Longrightarrow> phys_mem s' = phys_mem s"
  by (drule arg_cong[where f = phys_mem]) (simp add: pmm_erase_def)

lemma pushed_nil: "unat (page_stack_top s) \<le> unat MAX_PAGES \<Longrightarrow> pushed s [] s"
  by (simp add: pushed_def length_free_list)

lemma pushed_trans:
  assumes "pushed s ps s'" "pushed s' qs s''"
  shows "pushed s (ps @ qs) s''"
proof -
  have "take (unat MAX_PAGES) (take (unat MAX_PAGES) (free_list s @ ps) @ qs)
      = take (unat MAX_PAGES) (free_list s @ ps @ qs)"
    by (cases "length (free_list s @ ps) \<le> unat MAX_PAGES") (auto simp: min_def)
  then show ?thesis using assms unfolding pushed_def by metis
qed

lemma pushed_full:
  "unat (page_stack_top s) = unat MAX_PAGES \<Longrightarrow> pushed s ps (serial_print msg s)"
  using length_free_list[of s] by (simp add: pushed_def free_list_def pmm_erase_def)

lemma pushed_one:
  assumes "unat (page_stack_top s) < unat MAX_PAGES"
  shows "pushed s [p] ((page_push p s)\<lparr>total_pages := total_pages (page_push p s) + 1,
     free_pages := free_pages (page_push p s) + 1\<rparr>)" (is "pushed s [p] ?t")
proof -
  have "free_list ?t = free_list (page_push p s)" by (rule free_list_cong) simp_all
  with free_list_push[OF assms, of p] assms show ?thesis
    by (simp add: pushed_def length_free_list) (simp add: page_push_def pmm_erase_def)
qed

lemma region_loop_pushes:
  assumes "4096 dvd unat a" "4096 dvd unat b" "unat (page_stack_top s) \<le> unat MAX_PAGES"
  shows "\<exists>s'. pmm_region_loop a b s = Some s' \<and> pushed s (filter (\<lambda>p. 0x10000 \<le> p) (page_range a b)) s'"
  using assms
proof (induction "(unat b - unat a) div 4096" arbitrary: a s)
  case 0
  have "\<not> a < b"
  proof
    assume "a < b"
    from page_range_step(1)[OF 0(2,3) this] 0(1) show False by (simp add: page_range_def)
  qed
  then show ?case using 0 pushed_nil[of s] by (subst pmm_region_loop.simps) (simp add: page_range_def)
next
  case (Suc n)
  have lt: "a < b"
  proof (rule ccontr)
    assume "\<not> a < b"
    then have "unat b - unat a = 0" by (simp add: word_less_nat_alt)
    with Suc(2) show False by simp
  qed
  note r = page_range_step[OF Suc(3,4) lt]
  have n: "n = (unat b - unat (a + 4096)) div 4096"
    using Suc(2) r(1) unfolding page_range_def by (metis length_Cons length_map length_upt minus_nat.diff_0 nat.inject)
  note IH = Suc(1)[OF n r(3) Suc(4)]
  show ?case
  proof (cases "a < 0x10000")
    case True
    with IH[OF Suc(5)] lt r(1) show ?thesis
      by (subst pmm_region_loop.simps) (auto simp: PAGE_SIZE_def)
  next
    case False
    then have high: "0x10000 \<le> a" "\<not> a < 0x10000" by (simp_all add: not_less)
    show ?thesis
    proof (cases "unat (page_stack_top s) < unat MAX_PAGES")
      case True
      let ?t = "(page_push a s)\<lparr>total_pages := total_pages (page_push a s) + 1,
        free_pages := free_pages (page_push a s) + 1\<rparr>"
      have p: "pushed s [a] ?t" using True by (rule pushed_one)
      then have "unat (page_stack_top ?t) \<le> unat MAX_PAGES" unfolding pushed_def by blast
      from IH[OF this] obtain s' where s': "pmm_region_loop (a + 4096) b ?t = Some s'"
        "pushed ?t (filter (\<lambda>p. 0x10000 \<le> p) (page_range (a + 4096) b)) s'" by blast
      have "\<not> MAX_PAGES \<le> page_stack_top s" using True by (simp add: word_le_nat_alt)
      with pushed_trans[OF p s'(2)] s'(1) lt r(1) high show ?thesis
        by (subst pmm_region_loop.simps) (simp add: PAGE_SIZE_def Let_def)
    next
      case False
      with Suc(5) have "unat (page_stack_top s) = unat MAX_PAGES" by simp
      moreover have "MAX_PAGES \<le> page_stack_top s" using False by (simp add: word_le_nat_alt)
      ultimately show ?thesis using lt high
        by (subst pmm_region_loop.simps) (simp add: pushed_full del: serial_print_def)
    qed
  qed
qed

lemma add_regions_pushes:
  "unat (page_stack_top s) \<le> unat MAX_PAGES \<Longrightarrow> \<exists>s'. pmm_add_regions usable es s = Some s'
     \<and> pushed s (concat (map region_pages (filter (\<lambda>e. me_type e = usable) es))) s'"
proof (induction es arbitrary: s)
  case Nil
  then show ?case by (simp add: pushed_nil)
next
  case (Cons e es)
  let ?b = "align_up (me_base e) PAGE_SIZE" and ?t = "align_down (me_base e + me_length e) PAGE_SIZE"
  have al: "4096 dvd unat ?b" "4096 dvd unat ?t" by (simp_all add: align_up_eq unat_align_down)
  show ?case
  proof (cases "me_type e = usable \<and> ?b < ?t")
    case False
    then have "me_type e = usable \<Longrightarrow> region_pages e = []"
      by (auto simp: region_pages_def page_range_def word_less_nat_alt)
    with False Cons.IH[OF Cons.prems] show ?thesis by (auto simp: Let_def)
  next
    case True
    obtain s1 where s1: "pmm_region_loop ?b ?t s = Some s1" "pushed s (region_pages e) s1"
      using region_loop_pushes[OF al Cons.prems] unfolding region_pages_def by blast
    then have "unat (page_stack_top s1) \<le> unat MAX_PAGES" unfolding pushed_def by blast
    from Cons.IH[OF this] obtain s2 where s2: "pmm_add_regions usable es s1 = Some s2"
      "pushed s1 (concat (map region_pages (filter (\<lambda>e. me_type e = usable) es))) s2" by blast
    have "\<not> ?t \<le> ?b" using True by (simp add: not_le)
    with pushed_trans[OF s1(2) s2(2)] s1(1) s2(1) True show ?thesis by (simp add: Let_def)
  qed
qed

lemma pmm_init_spec:
  "\<exists>s'. pmm_init usable (Some es) s = Some s'
     \<and> free_list s' = take (unat MAX_PAGES)
         (concat (map region_pages (filter (\<lambda>e. me_type e = usable) es)))
     \<and> unat (page_stack_top s') \<le> unat MAX_PAGES
     \<and> total_pages s' = page_stack_top s' \<and> free_pages s' = page_stack_top s'
     \<and> phys_mem s' = phys_mem s \<and> pmm_erase s' = pmm_erase s"
proof -
  let ?s = "serial_print '' MB\<newline>'' (serial_print_dec (pmm_total_usable usable es div 1024 div 1024)
     (serial_print ''PMM: Total usable memory: '' ((serial_print '' memory regions\<newline>''
        (serial_print_dec (of_nat (length es)) (serial_print ''PMM: Found ''
          (serial_print ''PMM: Initializing physical memory manager...\<newline>'' s))))
        \<lparr>page_stack_top := 0, total_pages := 0, free_pages := 0\<rparr>)))"
  have s: "free_list ?s = []" "page_stack_top ?s = 0" "total_pages ?s = 0" "free_pages ?s = 0"
    "phys_mem ?s = phys_mem s" "pmm_erase ?s = pmm_erase s"
    by (simp_all add: serial_print_dec_text free_list_def pmm_erase_def)
  then obtain t where t: "pmm_add_regions usable es ?s = Some t"
      "pushed ?s (concat (map region_pages (filter (\<lambda>e. me_type e = usable) es))) t"
    using add_regions_pushes[of ?s usable es] by auto
  let ?txt = "''PMM: Initialized with '' @ dec_string (unat (total_pages t)) @ '' pages (\<newline>''
     @ dec_string (unat (total_pages t * PAGE_SIZE div 1024 div 1024)) @ '' MB)\<newline>''"
  have "pmm_init usable (Some es) s = Some (t\<lparr>console := console t @ ?txt\<rparr>)"
    using t(1) by (simp add: pmm_init_def Let_def serial_print_dec_text)
  moreover have "free_list (t\<lparr>console := console t @ ?txt\<rparr>) = free_list t"
      "pmm_erase (t\<lparr>console := console t @ ?txt\<rparr>) = pmm_erase t"
    by (simp_all add: free_list_def pmm_erase_def)
  ultimately show ?thesis
    using t(2) s pmm_erase_phys_mem[of t ?s]
    unfolding pushed_def by (intro exI[of _ "t\<lparr>console := console t @ ?txt\<rparr>"]) auto
qed


section \<open>The invariant holds from boot on\<close>

lemma page_range_nth:
  fixes a b :: u64
  assumes "4096 dvd unat a" "4096 dvd unat b" "i < (unat b - unat a) div 4096"
  shows "unat (a + of_nat (4096 * i)) = unat a + 4096 * i" "unat a + 4096 * i + 4096 \<le> unat b"
proof -
  obtain k l where kl: "unat a = 4096 * k" "unat b = 4096 * l" using assms(1,2) by blast
  have "i < l - k" using assms(3) unfolding kl diff_mult_distrib2[symmetric] by simp
  then show le: "unat a + 4096 * i + 4096 \<le> unat b" unfolding kl by linarith
  show "unat (a + of_nat (4096 * i)) = unat a + 4096 * i"
    using le unat_less_2p64[of b] by (intro unat_add_of_nat64) linarith
qed

lemma page_range_props:
  fixes a b :: u64
  assumes "4096 dvd unat a" "4096 dvd unat b"
  shows "p \<in> set (page_range a b) \<Longrightarrow> unat a \<le> unat p \<and> unat p + 4096 \<le> unat b \<and> 4096 dvd unat p"
    and "distinct (page_range a b)"
proof -
  show "unat a \<le> unat p \<and> unat p + 4096 \<le> unat b \<and> 4096 dvd unat p" if "p \<in> set (page_range a b)"
  proof -
    from that obtain i where i: "i < (unat b - unat a) div 4096" "p = a + of_nat (4096 * i)"
      unfolding page_range_def by auto
    note n = page_range_nth[OF assms i(1)]
    have "unat p = unat a + 4096 * i" using n(1) i(2) by simp
    with n(2) assms(1) show ?thesis by simp
  qed
  have "inj_on (\<lambda>i. a + of_nat (4096 * i)) (set [0..<(unat b - unat a) div 4096])"
  proof (rule inj_onI)
    fix i j assume ij: "i \<in> set [0..<(unat b - unat a) div 4096]" "j \<in> set [0..<(unat b - unat a) div 4096]"
      and eq: "a + of_nat (4096 * i) = a + of_nat (4096 * j)"
    have "unat (a + of_nat (4096 * i)) = unat (a + of_nat (4096 * j))" by (rule arg_cong[OF eq])
    moreover have "i < (unat b - unat a) div 4096" "j < (unat b - unat a) div 4096" using ij by simp_all
    ultimately have "unat a + 4096 * i = unat a + 4096 * j"
      by (simp only: page_range_nth(1)[OF assms])
    then show "i = j" by simp
  qed
  then show "distinct (page_range a b)" by (simp add: page_range_def distinct_map)
qed

text \<open>
  What the Limine protocol promises of the usable entries of the memory map: they lie in
  the 64-bit address space and do not overlap.
\<close>

definition entry_bytes :: "memmap_entry \<Rightarrow> nat set" where
  "entry_bytes e = {unat (me_base e)..<unat (me_base e) + unat (me_length e)}"

definition memmap_ok :: "u64 \<Rightarrow> memmap_entry list \<Rightarrow> bool" where
  "memmap_ok usable es \<longleftrightarrow>
     (let us = filter (\<lambda>e. me_type e = usable) es in
      list_all (\<lambda>e. unat (me_base e) + unat (me_length e) + 4096 \<le> 2 ^ 64) us
      \<and> sorted_wrt (\<lambda>e f. entry_bytes e \<inter> entry_bytes f = {}) us)"

lemma region_pages_props:
  assumes "unat (me_base e) + unat (me_length e) + 4096 \<le> 2 ^ 64"
  shows "p \<in> set (region_pages e) \<Longrightarrow> unat p \<in> entry_bytes e \<and> page_ok p"
    and "distinct (region_pages e)"
proof -
  let ?b = "align_up (me_base e) PAGE_SIZE" and ?t = "align_down (me_base e + me_length e) PAGE_SIZE"
  have al: "4096 dvd unat ?b" "4096 dvd unat ?t" by (simp_all add: align_up_eq unat_align_down)
  have "unat (me_base e + 4095) = unat (me_base e) + 4095"
    using assms by (simp add: unat_add64)
  then have b: "unat (me_base e) \<le> unat ?b" unfolding align_up_eq unat_align_down by simp
  have "unat (me_base e + me_length e) = unat (me_base e) + unat (me_length e)"
    using assms by (simp add: unat_add64)
  then have t: "unat ?t \<le> unat (me_base e) + unat (me_length e)" unfolding unat_align_down by simp
  show "unat p \<in> entry_bytes e \<and> page_ok p" if "p \<in> set (region_pages e)"
  proof -
    from that have "p \<in> set (page_range ?b ?t)" "0x10000 \<le> p" by (simp_all add: region_pages_def)
    with page_range_props(1)[OF al, of p] b t show ?thesis
      by (simp add: entry_bytes_def page_ok_def word_le_nat_alt)
  qed
  show "distinct (region_pages e)" using page_range_props(2)[OF al] by (simp add: region_pages_def)
qed

lemma concat_regions:
  assumes "list_all (\<lambda>e. unat (me_base e) + unat (me_length e) + 4096 \<le> 2 ^ 64) us"
    "sorted_wrt (\<lambda>e f. entry_bytes e \<inter> entry_bytes f = {}) us"
  shows "distinct (concat (map region_pages us))"
    and "\<forall>p\<in>set (concat (map region_pages us)). page_ok p \<and> (\<exists>e\<in>set us. unat p \<in> entry_bytes e)"
  using assms
proof (induction us)
  case (Cons e us)
  { case 1
    have "set (region_pages e) \<inter> set (concat (map region_pages us)) = {}"
    proof (rule ccontr)
      assume "\<not> ?thesis"
      then obtain p f where p: "p \<in> set (region_pages e)" "f \<in> set us" "p \<in> set (region_pages f)" by auto
      with 1 have "unat p \<in> entry_bytes e" "unat p \<in> entry_bytes f"
        using region_pages_props(1)[of e p] region_pages_props(1)[of f p] by (auto simp: list_all_iff)
      with 1 p(2) show False by auto
    qed
    with 1 Cons.IH(1) region_pages_props(2)[of e] show ?case by simp
  next
    case 2
    with Cons.IH(2) region_pages_props(1)[of e] show ?case by auto }
qed simp_all

text \<open>
  On a memory map as Limine promises it, \<open>pmm_init\<close> establishes the invariant: the
  free pages are distinct, page aligned, at least 64 KiB up and so never the null pointer,
  and each of them lies in a usable entry of the map.
\<close>

theorem pmm_init_establishes_inv:
  assumes "memmap_ok usable es" "pmm_init usable (Some es) s = Some s'"
  shows "pmm_inv s' \<and> (\<forall>p\<in>set (free_list s').
     \<exists>e\<in>set es. me_type e = usable \<and> unat p \<in> entry_bytes e)"
proof -
  let ?us = "filter (\<lambda>e. me_type e = usable) es"
  let ?ps = "concat (map region_pages ?us)"
  have us: "list_all (\<lambda>e. unat (me_base e) + unat (me_length e) + 4096 \<le> 2 ^ 64) ?us"
    "sorted_wrt (\<lambda>e f. entry_bytes e \<inter> entry_bytes f = {}) ?us"
    using assms(1) by (simp_all add: memmap_ok_def Let_def)
  have fl: "free_list s' = take (unat MAX_PAGES) ?ps"
    and top: "unat (page_stack_top s') \<le> unat MAX_PAGES" "free_pages s' = page_stack_top s'"
    using pmm_init_spec[of usable es s] assms(2) by auto
  have "set (free_list s') \<subseteq> set ?ps" unfolding fl by (rule set_take_subset)
  with concat_regions(2)[OF us]
  have "\<forall>p\<in>set (free_list s'). page_ok p \<and> (\<exists>e\<in>set ?us. unat p \<in> entry_bytes e)" by blast
  moreover have "distinct (free_list s')" unfolding fl using concat_regions(1)[OF us] by (rule distinct_take)
  ultimately show ?thesis using top by (auto simp: pmm_inv_def)
qed

definition bss_pmm :: pmm_state where
  "bss_pmm = idt_state.extend bss_idt
     \<lparr>page_stack = (\<lambda>_. 0), page_stack_top = 0, total_pages = 0, free_pages = 0\<rparr>"

definition example_memmap :: "memmap_entry list" where
  "example_memmap = [\<lparr>me_base = 0, me_length = 0x9FC00, me_type = 0\<rparr>,
     \<lparr>me_base = 0x9FC00, me_length = 0x60400, me_type = 1\<rparr>,
     \<lparr>me_base = 0x100000, me_length = 0x2001, me_type = 0\<rparr>]"

lemma example_memmap_ok: "memmap_ok 0 example_memmap"
  by (simp add: memmap_ok_def example_memmap_def entry_bytes_def)

theorem pmm_init_establishes_inv_witness:
  "\<exists>s'. memmap_ok 0 example_memmap \<and> pmm_init 0 (Some example_memmap) bss_pmm = Some s' \<and> pmm_inv s'
     \<and> (\<forall>p\<in>set (free_list s'). \<exists>e\<in>set example_memmap. me_type e = 0 \<and> unat p \<in> entry_bytes e)"
proof -
  obtain s' where s': "pmm_init 0 (Some example_memmap) bss_pmm = Some s'"
    using pmm_init_spec[of 0 example_memmap bss_pmm] by blast
  from s' example_memmap_ok pmm_init_establishes_inv[OF example_memmap_ok s'] show ?thesis by blast
qed

section \<open>What clients get\<close>

lemma disjoint_union_all: "A \<inter> B = {} \<Longrightarrow> C = A \<union> B \<Longrightarrow> B = {} \<longleftrightarrow> A = C"
  by blast

text \<open>
  While free pages are left, \<open>pmm_alloc_page\<close> returns the page on top of the stack, a
  page aligned address other than null, takes it off the stack and clears it; no other
  byte of physical memory changes.
\<close>

theorem pmm_alloc_page_zeroed:
  assumes "pmm_inv s" "free_list s \<noteq> []" "hhdm_covers (hhdm_offset s) (last (free_list s))"
  shows "let (page, s') = pmm_alloc_page s in
     page = last (free_list s) \<and> page_ok page \<and> page \<noteq> 0
     \<and> free_list s' = butlast (free_list s) \<and> page \<notin> set (free_list s') \<and> pmm_inv s'
     \<and> load_bytes (phys_mem s') page 4096 = replicate 4096 0
     \<and> phys_mem s' = mem_fill (phys_mem s) page 4096 0"
proof -
  note a = alloc_nonempty[OF assms(2)]
  let ?s = "snd (pmm_alloc_page s)" and ?p = "last (free_list s)"
  have mem: "phys_mem ?s = store_bytes (phys_mem s) ?p (replicate 4096 0)"
    using assms(3) by (simp add: a(1) kcopy_direct_map)
  then have zero: "load_bytes (phys_mem ?s) ?p 4096 = replicate 4096 0"
    using load_bytes_store_same[of "replicate 4096 0" "phys_mem s" ?p] by simp
  have ok: "page_ok ?p" using assms(1,2) by (simp add: pmm_inv_def)
  have "distinct (butlast (free_list s) @ [?p])" using assms(1,2) by (simp add: pmm_inv_def)
  then have notin: "?p \<notin> set (butlast (free_list s))" by simp
  have "fst (pmm_alloc_page s) = ?p" by (simp add: a(1))
  then show ?thesis
    using mem zero ok notin a(2) page_ok_not_null[OF ok] pmm_alloc_invariant[OF assms(1)]
    by (simp add: mem_fill_eq_store_bytes case_prod_beta)
qed

definition example_pmm :: pmm_state where
  "example_pmm = bss_pmm\<lparr>page_stack := (\<lambda>i. 0x10000 + 0x1000 * of_nat i), page_stack_top := 3,
     total_pages := 3, free_pages := 3, hhdm_offset := 0xFFFF800000000000\<rparr>"

lemma example_pmm_free: "free_list example_pmm = [0x10000, 0x11000, 0x12000]"
  by (simp add: free_list_def example_pmm_def upt_rec)

lemma example_pmm_inv: "pmm_inv example_pmm"
  unfolding pmm_inv_def example_pmm_free
  by (simp add: example_pmm_def MAX_PAGES_def page_ok_def)

theorem pmm_alloc_page_zeroed_witness:
  "let (page, s') = pmm_alloc_page example_pmm in
     page = 0x12000 \<and> free_list s' = [0x10000, 0x11000] \<and> phys_mem s' = mem_fill (phys_mem example_pmm) page 4096 0"
proof -
  have h: "free_list example_pmm \<noteq> []"
    "hhdm_covers (hhdm_offset example_pmm) (last (free_list example_pmm))"
    by (simp_all add: example_pmm_free) (simp add: hhdm_covers_def example_pmm_def)
  show ?thesis using pmm_alloc_page_zeroed[OF example_pmm_inv h]
    by (auto simp: example_pmm_free split: prod.splits)
qed

lemma alloc_total_pages: "total_pages (snd (pmm_alloc_page s)) = total_pages s"
  by (simp add: pmm_alloc_page_def Let_def)

lemma free_total_pages: "total_pages (pmm_free_page p s) = total_pages s"
  by (simp add: pmm_free_page_def page_push_def Let_def)

lemma client_total_pages:
  "client_run pmm_alloc_page pmm_free_page s0 held s \<Longrightarrow> total_pages s = total_pages s0"
  by (induction rule: client_run.induct) (auto simp: free_total_pages, (metis alloc_total_pages snd_conv)+)

text \<open>
  C4. However clients interleave allocations and releases, as long as they release only
  pages they hold, no page is handed out twice: the pages held and the free pages are
  disjoint, together they are the pages of the start, the next page handed out is not
  held, and allocation fails only when every page is held. The used memory that the
  counters report is the memory that clients hold.
\<close>

theorem pmm_no_double_allocation:
  assumes "client_run pmm_alloc_page pmm_free_page s0 held s" "pmm_inv s0"
    and "total_pages s0 = free_pages s0"
  shows "held \<inter> set (free_list s) = {} \<and> held \<union> set (free_list s) = set (free_list s0)
     \<and> fst (pmm_alloc_page s) \<notin> held
     \<and> (fst (pmm_alloc_page s) = 0 \<longleftrightarrow> held = set (free_list s0))
     \<and> pmm_get_used_memory s = of_nat (card held) * 4096"
proof -
  note c = pmm.client_conservation[OF assms(1,2)]
  have inv: "pmm_inv s" and ok: "\<forall>p\<in>held. page_ok p" using c by auto
  have null: "fst (pmm_alloc_page s) = 0 \<longleftrightarrow> free_list s = []"
    using pmm.alloc_null_empty[OF inv] pmm.alloc_empty[OF inv] by blast
  have "fst (pmm_alloc_page s) \<notin> held"
  proof (cases "free_list s = []")
    case True
    with null ok show ?thesis by (metis page_ok_not_null)
  next
    case False
    with pmm.alloc_page[OF inv] c show ?thesis by (metis disjoint_iff last_in_set)
  qed
  moreover have "held \<inter> set (free_list s) = {}" "set (free_list s0) = held \<union> set (free_list s)"
    using c by simp_all
  then have "set (free_list s) = {} \<longleftrightarrow> held = set (free_list s0)" by (rule disjoint_union_all)
  then have "free_list s = [] \<longleftrightarrow> held = set (free_list s0)" by simp
  moreover have "total_pages s - free_pages s = of_nat (card held)"
  proof -
    have "total_pages s = of_nat (length (free_list s0))"
      using client_total_pages[OF assms(1)] assms(2,3) by (simp add: pmm_inv_def length_free_list)
    moreover have "free_pages s = of_nat (length (free_list s))"
      using inv by (simp add: pmm_inv_def length_free_list)
    moreover have "length (free_list s0) = card held + length (free_list s)" using c by simp
    ultimately show ?thesis by simp
  qed
  ultimately show ?thesis using c null by (simp add: pmm_get_used_memory_def PAGE_SIZE_def)
qed

theorem pmm_no_double_allocation_witness:
  "\<exists>s. client_run pmm_alloc_page pmm_free_page example_pmm {0x12000} s
     \<and> fst (pmm_alloc_page s) \<notin> {0x12000} \<and> pmm_get_used_memory s = 4096"
proof -
  let ?s = "snd (pmm_alloc_page example_pmm)"
  have "pmm_alloc_page example_pmm = (0x12000, ?s)"
    using alloc_nonempty(1)[of example_pmm] by (simp add: example_pmm_free)
  then have run: "client_run pmm_alloc_page pmm_free_page example_pmm {0x12000} ?s"
    by (rule client_run.got_page[OF client_run.start]) simp
  have tot: "total_pages example_pmm = free_pages example_pmm" by (simp add: example_pmm_def)
  from run pmm_no_double_allocation[OF run example_pmm_inv tot] show ?thesis by auto
qed

end
