(* ===== verification/Vmm.thy ===== *)
theory Vmm
  imports Pmm "HOL-Library.Sublist"
begin

text \<open>
  The virtual memory manager (\<^verbatim>\<open>vmm.c\<close>, \<^verbatim>\<open>vmm.h\<close>). Page tables live in physical memory
  as the processor sees them, 512 little-endian 64-bit entries per page, and the code
  reaches them through the direct map. The specification is the processor's own page
  walk: \<open>walk\<close> follows a virtual address from a root table through memory, and the
  theorems say what each operation does to the walk of every virtual address.

  \<^verbatim>\<open>kernel_address_space\<close> is a static variable and so a part of the state; every other
  \<^verbatim>\<open>address_space_t\<close> is an object in a page of its own, read and written in memory.
  \<open>tlb_log\<close> records what the code tells the translation cache, newest first.
\<close>

unbundle bit_operations_syntax

section \<open>State and definitions\<close>

definition PAGE_PRESENT :: u64 where "PAGE_PRESENT = push_bit 0 1"
definition PAGE_WRITE :: u64 where "PAGE_WRITE = push_bit 1 1"
definition PAGE_USER :: u64 where "PAGE_USER = push_bit 2 1"
definition PAGE_HUGE :: u64 where "PAGE_HUGE = push_bit 7 1"

datatype tlb_event = Invlpg u64 | LoadCr3 u64

datatype as_ref = NullAS | KernelAS | AsPtr u64

record vmm_state = pmm_state +
  kas_pml4 :: u64
  kas_cr3 :: u64
  tlb_log :: "tlb_event list"

definition kload64 :: "u64 \<Rightarrow> 'z machine_scheme \<Rightarrow> u64" where
  "kload64 p s = load64 (phys_mem s) (kptr (hhdm_offset s) p)"

definition kstore64 :: "u64 \<Rightarrow> u64 \<Rightarrow> 'z machine_scheme \<Rightarrow> 'z machine_scheme" where
  "kstore64 p v s = s\<lparr>phys_mem := store64 (phys_mem s) (kptr (hhdm_offset s) p) v\<rparr>"

definition as_pml4 :: "as_ref \<Rightarrow> 'z vmm_state_scheme \<Rightarrow> u64" where
  "as_pml4 as s = (case as of NullAS \<Rightarrow> 0 | KernelAS \<Rightarrow> kas_pml4 s | AsPtr p \<Rightarrow> kload64 p s)"

definition as_cr3_value :: "as_ref \<Rightarrow> 'z vmm_state_scheme \<Rightarrow> u64" where
  "as_cr3_value as s = (case as of NullAS \<Rightarrow> 0 | KernelAS \<Rightarrow> kas_cr3 s | AsPtr p \<Rightarrow> kload64 (p + 8) s)"

definition invlpg :: "u64 \<Rightarrow> 'z vmm_state_scheme \<Rightarrow> 'z vmm_state_scheme" where
  "invlpg virt s = s\<lparr>tlb_log := Invlpg virt # tlb_log s\<rparr>"

definition pml4_index :: "u64 \<Rightarrow> u64" where "pml4_index vaddr = drop_bit 39 vaddr AND 0x1FF"
definition pdpt_index :: "u64 \<Rightarrow> u64" where "pdpt_index vaddr = drop_bit 30 vaddr AND 0x1FF"
definition pd_index :: "u64 \<Rightarrow> u64" where "pd_index vaddr = drop_bit 21 vaddr AND 0x1FF"
definition pt_index :: "u64 \<Rightarrow> u64" where "pt_index vaddr = drop_bit 12 vaddr AND 0x1FF"

definition entry_to_phys :: "u64 \<Rightarrow> u64" where "entry_to_phys entry = entry AND 0x000FFFFFFFFFF000"

definition virt_to_phys :: "u64 \<Rightarrow> u64 \<Rightarrow> u64" where
  "virt_to_phys hhdm addr =
     (if addr \<ge> hhdm \<and> addr < hhdm + 0x100000000000 then addr - hhdm
      else if addr \<ge> 0xFFFFFFFF80000000 then addr - 0xFFFFFFFF80000000
      else addr)"

text \<open>The address of \<^verbatim>\<open>table->entries[i]\<close>.\<close>

definition entry_at :: "u64 \<Rightarrow> u64 \<Rightarrow> u64" where "entry_at table i = table + 8 * i"

definition clear_table :: "u64 \<Rightarrow> 'z machine_scheme \<Rightarrow> 'z machine_scheme" where
  "clear_table table s = fold (\<lambda>i. kstore64 (entry_at table (of_nat i)) 0) [0..<512] s"

definition get_or_create_table :: "u64 \<Rightarrow> u64 \<Rightarrow> 'z pmm_state_scheme \<Rightarrow> u64 \<times> 'z pmm_state_scheme" where
  "get_or_create_table entry flags s =
     (if kload64 entry s AND PAGE_PRESENT \<noteq> 0 then
        let s1 = kstore64 entry (kload64 entry s OR (flags AND PAGE_USER)) s;
            phys = entry_to_phys (kload64 entry s1)
        in (phys_to_virt (hhdm_offset s1) phys, s1)
      else let (table_phys, s1) = pmm_alloc_page s in
        if table_phys = 0 then (0, s1)
        else let table_virt = phys_to_virt (hhdm_offset s1) table_phys;
                 s2 = clear_table table_virt s1
             in (table_virt, kstore64 entry (table_phys OR flags) s2))"

text \<open>
  \<open>kaddr\<close> is the response to the executable address request, the kernel's physical and
  virtual base; Limine leaves it null when it does not support the request.
\<close>

definition vmm_init :: "(u64 \<times> u64) option \<Rightarrow> 'z vmm_state_scheme \<Rightarrow> 'z vmm_state_scheme" where
  "vmm_init kaddr s0 =
    (let s1 = serial_print ''VMM: Initializing virtual memory manager...\<newline>'' s0 in
     case kaddr of
       None \<Rightarrow> serial_print ''VMM: Error: No kernel address info from bootloader!\<newline>'' s1
     | Some (kernel_phys_base, kernel_virt_base) \<Rightarrow>
        (let s2 = serial_print ''\<newline>'' (serial_print_hex kernel_phys_base
                    (serial_print ''VMM: Kernel physical base: '' s1));
             s3 = serial_print ''\<newline>'' (serial_print_hex kernel_virt_base
                    (serial_print ''VMM: Kernel virtual base: '' s2));
             current_cr3 = cr3_reg s3 AND NOT 0xFFF;
             s4 = s3\<lparr>kas_cr3 := current_cr3, kas_pml4 := phys_to_virt (hhdm_offset s3) current_cr3\<rparr>
         in serial_print ''VMM: Page tables ready for use\<newline>''
              (serial_print ''VMM: Virtual memory manager initialized\<newline>'' s4)))"

definition vmm_map_page ::
    "as_ref \<Rightarrow> u64 \<Rightarrow> u64 \<Rightarrow> u64 \<Rightarrow> 'z vmm_state_scheme \<Rightarrow> int \<times> 'z vmm_state_scheme" where
  "vmm_map_page as virt phys flags s0 =
     (if as = NullAS \<or> as_pml4 as s0 = 0 then (-1, s0)
      else
        let pml4_i = pml4_index virt; pdpt_i = pdpt_index virt;
            pd_i = pd_index virt; pt_i = pt_index virt;
            tflags = PAGE_PRESENT OR PAGE_WRITE OR (flags AND PAGE_USER);
            (pdpt, s1) = get_or_create_table (entry_at (as_pml4 as s0) pml4_i) tflags s0
        in if pdpt = 0 then (-1, s1)
        else if flags AND PAGE_HUGE \<noteq> 0 \<and> pd_i = 0 \<and> pt_i = 0
        then (0, kstore64 (entry_at pdpt pdpt_i) (phys OR flags) s1)
        else let (pd, s2) = get_or_create_table (entry_at pdpt pdpt_i) tflags s1
        in if pd = 0 then (-1, s2)
        else if flags AND PAGE_HUGE \<noteq> 0
        then (0, kstore64 (entry_at pd pd_i) (phys OR flags) s2)
        else let (pt, s3) = get_or_create_table (entry_at pd pd_i) tflags s2
        in if pt = 0 then (-1, s3)
        else (0, invlpg virt (kstore64 (entry_at pt pt_i) (phys OR flags) s3)))"

definition vmm_unmap_page :: "as_ref \<Rightarrow> u64 \<Rightarrow> 'z vmm_state_scheme \<Rightarrow> 'z vmm_state_scheme" where
  "vmm_unmap_page as virt s =
     (if as = NullAS \<or> as_pml4 as s = 0 then s
      else
        let pml4_i = pml4_index virt; pdpt_i = pdpt_index virt;
            pd_i = pd_index virt; pt_i = pt_index virt;
            pml4e = kload64 (entry_at (as_pml4 as s) pml4_i) s
        in if pml4e AND PAGE_PRESENT = 0 then s
        else let pdpt = phys_to_virt (hhdm_offset s) (entry_to_phys pml4e);
                 pdpte = kload64 (entry_at pdpt pdpt_i) s
        in if pdpte AND PAGE_PRESENT = 0 then s
        else if pdpte AND PAGE_HUGE \<noteq> 0
        then invlpg virt (kstore64 (entry_at pdpt pdpt_i) 0 s)
        else let pd = phys_to_virt (hhdm_offset s) (entry_to_phys pdpte);
                 pde = kload64 (entry_at pd pd_i) s
        in if pde AND PAGE_PRESENT = 0 then s
        else if pde AND PAGE_HUGE \<noteq> 0
        then invlpg virt (kstore64 (entry_at pd pd_i) 0 s)
        else let pt = phys_to_virt (hhdm_offset s) (entry_to_phys pde)
        in invlpg virt (kstore64 (entry_at pt pt_i) 0 s))"

definition vmm_switch_address_space :: "as_ref \<Rightarrow> 'z vmm_state_scheme \<Rightarrow> 'z vmm_state_scheme" where
  "vmm_switch_address_space as s =
     (if as = NullAS then s
      else s\<lparr>cr3_reg := as_cr3_value as s, tlb_log := LoadCr3 (as_cr3_value as s) # tlb_log s\<rparr>)"

definition vmm_get_kernel_address_space :: as_ref where
  "vmm_get_kernel_address_space = KernelAS"

definition copy_kernel_half :: "as_ref \<Rightarrow> 'z vmm_state_scheme \<Rightarrow> 'z vmm_state_scheme" where
  "copy_kernel_half as s =
     fold (\<lambda>i t. kstore64 (entry_at (as_pml4 as t) (of_nat i)) (kload64 (entry_at (kas_pml4 t) (of_nat i)) t) t)
       [256..<512] s"

definition vmm_create_address_space :: "'z vmm_state_scheme \<Rightarrow> as_ref \<times> 'z vmm_state_scheme" where
  "vmm_create_address_space s0 =
    (let (as_phys, s1) = pmm_alloc_page s0 in
     if as_phys = 0 then (NullAS, s1)
     else let as = phys_to_virt (hhdm_offset s1) as_phys;
              (pml4_phys, s2) = pmm_alloc_page s1
     in if pml4_phys = 0 then (NullAS, pmm_free_page as_phys s2)
     else let pml4 = phys_to_virt (hhdm_offset s2) pml4_phys;
              s3 = kstore64 (as + 8) pml4_phys (kstore64 as pml4 s2)
          in (AsPtr as, copy_kernel_half (AsPtr as) s3))"

definition vmm_destroy_address_space :: "as_ref \<Rightarrow> 'z vmm_state_scheme \<Rightarrow> 'z vmm_state_scheme" where
  "vmm_destroy_address_space as s =
     (case as of
        NullAS \<Rightarrow> s
      | KernelAS \<Rightarrow> s
      | AsPtr p \<Rightarrow>
         (let s1 = (if as_pml4 as s \<noteq> 0 then pmm_free_page (virt_to_phys (hhdm_offset s) (as_pml4 as s)) s else s)
          in pmm_free_page (virt_to_phys (hhdm_offset s1) p) s1))"

section \<open>Page tables as the processor reads them\<close>

definition pte :: "memory \<Rightarrow> u64 \<Rightarrow> u64 \<Rightarrow> u64" where
  "pte m table i = load64 m (entry_at table i)"

abbreviation aligned :: "u64 \<Rightarrow> bool" where "aligned t \<equiv> 4096 dvd unat t"

lemma entry_at_unat:
  assumes "aligned t" "i < 512"
  shows "unat (entry_at t i) = unat t + 8 * unat i" "8 dvd unat (entry_at t i)"
proof -
  have i: "unat i < 512" using assms(2) by (simp add: word_less_nat_alt)
  then have 8: "unat (8 * i) = 8 * unat i" by (simp add: unat_word_ariths)
  from assms(1) obtain k where k: "unat t = 4096 * k" by blast
  have "unat t + 8 * unat i < 2 ^ 64" using k i unat_less_2p64[of t] by simp
  then show *: "unat (entry_at t i) = unat t + 8 * unat i"
    by (simp add: entry_at_def unat_add64 8)
  show "8 dvd unat (entry_at t i)" unfolding * k by simp
qed

lemma entry_at_inject:
  assumes "aligned t" "aligned u" "i < 512" "j < 512" "entry_at t i = entry_at u j"
  shows "t = u \<and> i = j"
proof -
  have ij: "unat i < 512" "unat j < 512" using assms(3,4) by (simp_all add: word_less_nat_alt)
  from assms(1,2) obtain k l where k: "unat t = 4096 * k" "unat u = 4096 * l" by blast
  have "unat t + 8 * unat i = unat u + 8 * unat j"
    using entry_at_unat(1)[OF assms(1,3)] entry_at_unat(1)[OF assms(2,4)] assms(5) by simp
  then have eq: "4096 * k + 8 * unat i = 4096 * l + 8 * unat j" using k by simp
  then have "k = l" using ij by auto
  moreover from this eq have "unat i = unat j" by simp
  ultimately show ?thesis using k by (simp add: word_unat_eq_iff)
qed

lemma pte_store:
  assumes "aligned t" "aligned u" "i < 512" "j < 512"
  shows "pte (store64 m (entry_at t i) v) u j = (if u = t \<and> j = i then v else pte m u j)"
proof (cases "u = t \<and> j = i")
  case True
  then show ?thesis by (simp add: pte_def mem_simps)
next
  case False
  then have "entry_at t i \<noteq> entry_at u j" using entry_at_inject[OF assms] by blast
  with False assms show ?thesis by (auto simp: pte_def load64_store64_other entry_at_unat(2))
qed

lemma word_of_zero_bytes: "word_of_bytes (replicate n 0) = 0"
  by (induction n) simp_all

lemma page_byte:
  assumes "aligned p" "aligned u" "n < 4096"
  shows "unat (u + of_nat n - p) < 4096 \<longleftrightarrow> u = p"
proof
  assume "unat (u + of_nat n - p) < 4096"
  then obtain j where j: "j < 4096" "u + of_nat n = p + of_nat j"
    using word_offset_less[of 4096 "u + of_nat n" p] by auto
  from assms(1,2) obtain k l where k: "unat p = 4096 * k" "unat u = 4096 * l" by blast
  have "unat (u + of_nat n) = unat u + n"
    using k assms(3) unat_less_2p64[of u] by (intro unat_add_of_nat64) simp
  moreover have "unat (p + of_nat j) = unat p + j"
    using k j(1) unat_less_2p64[of p] by (intro unat_add_of_nat64) simp
  ultimately have "4096 * l + n = 4096 * k + j" using k j(2) by simp
  then have "k = l" using assms(3) j(1) by auto
  with k show "u = p" by (simp add: word_unat_eq_iff)
qed (use assms(3) in \<open>simp add: unat_of_nat64\<close>)

lemma entry_byte: "entry_at u j + of_nat n = u + of_nat (8 * unat j + n)"
  by (simp add: entry_at_def)

lemma pte_fill:
  assumes "aligned p" "aligned u" "j < 512"
  shows "pte (store_bytes m p (replicate 4096 0)) u j = (if u = p then 0 else pte m u j)"
proof -
  have j: "unat j < 512" using assms(3) by (simp add: word_less_nat_alt)
  have b: "store_bytes m p (replicate 4096 0) (entry_at u j + of_nat n)
      = (if u = p then 0 else m (entry_at u j + of_nat n))" if "n < 8" for n
    using page_byte[OF assms(1,2), of "8 * unat j + n"] that j
    unfolding entry_byte store_bytes_def by auto
  show ?thesis
  proof (cases "u = p")
    case True
    then have "load_bytes (store_bytes m p (replicate 4096 0)) (entry_at u j) 8 = replicate 8 0"
      using b by (intro nth_equalityI) (simp_all add: nth_load_bytes)
    with True show ?thesis by (simp only: pte_def load64_def word_of_zero_bytes if_True simp_thms)
  next
    case False
    with b show ?thesis unfolding pte_def by (auto intro: load64_cong)
  qed
qed

section \<open>The tables through the direct map\<close>

lemma kptr_entry:
  assumes "hhdm_covers h t" "i < 512"
  shows "kptr h (entry_at (phys_to_virt h t) i) = entry_at t i"
proof -
  have i: "unat i < 512" using assms(2) by (simp add: word_less_nat_alt)
  have e: "entry_at x i = x + of_nat (8 * unat i)" for x
    by (simp add: entry_at_def)
  show ?thesis unfolding e using assms(1) i by (intro kptr_phys_to_virt) simp_all
qed

lemma kload_entry:
  assumes "hhdm_covers (hhdm_offset s) t" "i < 512"
  shows "kload64 (entry_at (phys_to_virt (hhdm_offset s) t) i) s = pte (phys_mem s) t i"
  using assms by (simp add: kload64_def kptr_entry pte_def)

lemma kstore_entry:
  assumes "hhdm_covers (hhdm_offset s) t" "i < 512"
  shows "kstore64 (entry_at (phys_to_virt (hhdm_offset s) t) i) v s
    = s\<lparr>phys_mem := store64 (phys_mem s) (entry_at t i) v\<rparr>"
  using assms by (simp add: kstore64_def kptr_entry)

text \<open>A frame that can hold a table: a page other than the null page that the direct map covers.\<close>

definition frame_ok :: "u64 \<Rightarrow> u64 \<Rightarrow> bool" where
  "frame_ok h t \<longleftrightarrow> aligned t \<and> t \<noteq> 0 \<and> unat t < 2 ^ 52 \<and> hhdm_covers h t"

lemma frame_okD:
  "frame_ok h t \<Longrightarrow> aligned t" "frame_ok h t \<Longrightarrow> hhdm_covers h t"
  "frame_ok h t \<Longrightarrow> unat t < 2 ^ 52"
  by (simp_all add: frame_ok_def)

lemma phys_to_virt_not_null:
  assumes "frame_ok h t"
  shows "phys_to_virt h t \<noteq> 0"
proof -
  have "unat (phys_to_virt h t) = unat t + unat h"
    using assms by (simp add: frame_ok_def hhdm_covers_def phys_to_virt_def unat_add64)
  moreover have "unat t > 0" using assms by (simp add: frame_ok_def unat_gt_0)
  ultimately show ?thesis by auto
qed

lemma clear_table_upto:
  assumes "frame_ok (hhdm_offset s) t" "n \<le> 512"
  shows "\<exists>m. fold (\<lambda>i. kstore64 (entry_at (phys_to_virt (hhdm_offset s) t) (of_nat i)) 0) [0..<n] s = s\<lparr>phys_mem := m\<rparr>
     \<and> (\<forall>u j. aligned u \<longrightarrow> j < 512 \<longrightarrow> pte m u j = (if u = t \<and> unat j < n then 0 else pte (phys_mem s) u j))"
  using assms(2)
proof (induction n)
  case 0
  show ?case by (rule exI[of _ "phys_mem s"]) simp
next
  case (Suc n)
  then obtain m where m: "fold (\<lambda>i. kstore64 (entry_at (phys_to_virt (hhdm_offset s) t) (of_nat i)) 0) [0..<n] s
      = s\<lparr>phys_mem := m\<rparr>"
    "\<forall>u j. aligned u \<longrightarrow> j < 512 \<longrightarrow> pte m u j = (if u = t \<and> unat j < n then 0 else pte (phys_mem s) u j)"
    by auto
  have n: "unat (of_nat n :: u64) = n" using Suc.prems by (simp add: unat_of_nat64)
  then have n512: "(of_nat n :: u64) < 512" using Suc.prems by (simp add: word_less_nat_alt)
  let ?m = "store64 m (entry_at t (of_nat n)) 0"
  have eq: "unat j < Suc n \<longleftrightarrow> unat j < n \<or> j = of_nat n" for j :: u64
    using n by (auto simp: less_Suc_eq)
  have "pte ?m u j = (if u = t \<and> unat j < Suc n then 0 else pte (phys_mem s) u j)"
    if "aligned u" "j < 512" for u j
    using m(2) that pte_store[OF frame_okD(1)[OF assms(1)] that(1) n512 that(2)] by (auto simp: eq)
  moreover have "kstore64 (entry_at (phys_to_virt (hhdm_offset s) t) (of_nat n)) 0 (s\<lparr>phys_mem := m\<rparr>)
      = s\<lparr>phys_mem := ?m\<rparr>"
    using kstore_entry[of "s\<lparr>phys_mem := m\<rparr>" t "of_nat n" 0] assms(1) n512 by (simp add: frame_ok_def)
  ultimately show ?case using m(1) by (intro exI[of _ ?m]) simp
qed

lemma clear_table_view:
  assumes "frame_ok (hhdm_offset s) t"
  obtains m where "clear_table (phys_to_virt (hhdm_offset s) t) s = s\<lparr>phys_mem := m\<rparr>"
    "\<And>u j. aligned u \<Longrightarrow> j < 512 \<Longrightarrow> pte m u j = (if u = t then 0 else pte (phys_mem s) u j)"
proof -
  obtain m where "clear_table (phys_to_virt (hhdm_offset s) t) s = s\<lparr>phys_mem := m\<rparr>"
    "\<forall>u j. aligned u \<longrightarrow> j < 512 \<longrightarrow> pte m u j = (if u = t \<and> unat j < 512 then 0 else pte (phys_mem s) u j)"
    using clear_table_upto[OF assms, of 512] by (auto simp: clear_table_def)
  then show thesis by (intro that[of m]) (auto simp: word_less_nat_alt)
qed

section \<open>The page walk\<close>

lemma page_flag_bits:
  "e AND PAGE_PRESENT = 0 \<longleftrightarrow> \<not> bit e 0" "e AND PAGE_HUGE = 0 \<longleftrightarrow> \<not> bit e 7"
  "e AND PAGE_USER = 0 \<longleftrightarrow> \<not> bit e 2" "e AND PAGE_WRITE = 0 \<longleftrightarrow> \<not> bit e 1"
  using and_exp_eq_0_iff_not_bit[of e 0] and_exp_eq_0_iff_not_bit[of e 7]
    and_exp_eq_0_iff_not_bit[of e 2] and_exp_eq_0_iff_not_bit[of e 1]
  by (simp_all add: PAGE_PRESENT_def PAGE_HUGE_def PAGE_USER_def PAGE_WRITE_def)

text \<open>
  The table below entry \<open>i\<close> of a table, the table at the end of a path of indices, and the
  entries on that path.
\<close>

definition subtable :: "memory \<Rightarrow> u64 \<Rightarrow> u64 \<Rightarrow> u64 option" where
  "subtable m t i = (let e = pte m t i in if bit e 0 \<and> \<not> bit e 7 then Some (entry_to_phys e) else None)"

primrec table_at :: "memory \<Rightarrow> u64 \<Rightarrow> u64 list \<Rightarrow> u64 option" where
  "table_at m t [] = Some t"
| "table_at m t (i # is) = Option.bind (subtable m t i) (\<lambda>u. table_at m u is)"

primrec path_entries :: "memory \<Rightarrow> u64 \<Rightarrow> u64 list \<Rightarrow> u64 list" where
  "path_entries m t [] = []"
| "path_entries m t (i # is) = pte m t i # path_entries m (entry_to_phys (pte m t i)) is"

text \<open>
  The walk itself, as the processor defines it: the entries it reads, ending in the one
  that maps the page, or nothing where it faults. A large page ends the walk early; the
  large page bit is reserved in the root table.
\<close>

primrec walk :: "memory \<Rightarrow> u64 \<Rightarrow> u64 list \<Rightarrow> u64 list option" where
  "walk m t [] = None"
| "walk m t (i # is) =
     (let e = pte m t i in
      if \<not> bit e 0 then None
      else if is = [] then Some [e]
      else if bit e 7 then (if length is = 3 then None else Some [e])
      else map_option (Cons e) (walk m (entry_to_phys e) is))"

definition indices :: "u64 \<Rightarrow> u64 list" where
  "indices v = [pml4_index v, pdpt_index v, pd_index v, pt_index v]"

definition page_walk :: "memory \<Rightarrow> u64 \<Rightarrow> u64 \<Rightarrow> u64 list option" where
  "page_walk m root v = walk m root (indices v)"

definition page_shift :: "u64 list \<Rightarrow> nat" where
  "page_shift es = 12 + 9 * (4 - length es)"

definition translate :: "memory \<Rightarrow> u64 \<Rightarrow> u64 \<Rightarrow> u64 option" where
  "translate m root v = map_option (\<lambda>es.
     push_bit (page_shift es) (drop_bit (page_shift es) (entry_to_phys (last es))) OR take_bit (page_shift es) v)
     (page_walk m root v)"

definition user_access :: "memory \<Rightarrow> u64 \<Rightarrow> u64 \<Rightarrow> bool" where
  "user_access m root v = (case page_walk m root v of None \<Rightarrow> False | Some es \<Rightarrow> list_all (\<lambda>e. bit e 2) es)"

definition write_access :: "memory \<Rightarrow> u64 \<Rightarrow> u64 \<Rightarrow> bool" where
  "write_access m root v = (case page_walk m root v of None \<Rightarrow> False | Some es \<Rightarrow> list_all (\<lambda>e. bit e 1) es)"

abbreviation leaf :: "memory \<Rightarrow> u64 \<Rightarrow> u64 list \<Rightarrow> (u64 \<times> nat) option" where
  "leaf m t is \<equiv> map_option (\<lambda>es. (last es, length es)) (walk m t is)"

lemma table_at_append: "table_at m t (p @ q) = Option.bind (table_at m t p) (\<lambda>u. table_at m u q)"
  by (induction p arbitrary: t) (simp_all add: Option.bind_assoc split: Option.bind_split)

lemma table_at_snoc: "table_at m t (p @ [i]) = Option.bind (table_at m t p) (\<lambda>u. subtable m u i)"
  by (simp add: table_at_append)

lemma walk_append:
  assumes "table_at m t p = Some u" "r \<noteq> []"
  shows "walk m t (p @ r) = map_option ((@) (path_entries m t p)) (walk m u r)"
  using assms(1)
proof (induction p arbitrary: t)
  case (Cons i p)
  then show ?case using assms(2)
    by (auto simp: Let_def subtable_def option.map_comp comp_def split: if_splits)
qed (simp add: option.map_ident append_Nil[abs_def])

section \<open>Well-formed trees of tables\<close>

text \<open>
  The tables below a root form a tree: each is a usable frame, none of them is a free
  page, and no table is reached on two paths. \<open>av\<close> is the set of free pages.
\<close>

abbreviation path :: "u64 list \<Rightarrow> bool" where
  "path p \<equiv> length p \<le> 3 \<and> (\<forall>i\<in>set p. i < 512)"

definition pt_wf :: "u64 \<Rightarrow> memory \<Rightarrow> u64 \<Rightarrow> u64 set \<Rightarrow> bool" where
  "pt_wf h m root av \<longleftrightarrow>
     (\<forall>p t. path p \<longrightarrow> table_at m root p = Some t \<longrightarrow> frame_ok h t \<and> t \<notin> av)
   \<and> (\<forall>p q t. path p \<longrightarrow> path q \<longrightarrow> table_at m root p = Some t \<longrightarrow> table_at m root q = Some t \<longrightarrow> p = q)
   \<and> (\<forall>i<512. bit (pte m root i) 0 \<longrightarrow> \<not> bit (pte m root i) 7)"

lemma pt_wfD:
  assumes "pt_wf h m root av" "path p" "table_at m root p = Some t"
  shows "frame_ok h t" "aligned t" "t \<notin> av"
    and "path q \<Longrightarrow> table_at m root q = Some t \<Longrightarrow> q = p"
  using assms by (auto simp: pt_wf_def frame_ok_def)

lemma pt_wf_root:
  assumes "pt_wf h m root av"
  shows "frame_ok h root" "aligned root" "root \<notin> av"
    and "i < 512 \<Longrightarrow> bit (pte m root i) 0 \<Longrightarrow> \<not> bit (pte m root i) 7"
  using pt_wfD[OF assms, of "[]" root] assms by (auto simp: pt_wf_def)

lemma pt_wf_mono: "pt_wf h m root av \<Longrightarrow> av' \<subseteq> av \<Longrightarrow> pt_wf h m root av'"
  unfolding pt_wf_def by blast

text \<open>Memory that differs in one entry of one table, as far as pages outside \<open>av\<close> go.\<close>

definition entry_update :: "u64 set \<Rightarrow> memory \<Rightarrow> memory \<Rightarrow> u64 \<Rightarrow> u64 \<Rightarrow> u64 \<Rightarrow> bool" where
  "entry_update av m m' t i v \<longleftrightarrow>
     (\<forall>u j. aligned u \<longrightarrow> u \<notin> av \<longrightarrow> j < 512 \<longrightarrow> pte m' u j = (if u = t \<and> j = i then v else pte m u j))"

lemma entry_update_pte:
  "entry_update av m m' t i v \<Longrightarrow> aligned u \<Longrightarrow> u \<notin> av \<Longrightarrow> j < 512 \<Longrightarrow>
     pte m' u j = (if u = t \<and> j = i then v else pte m u j)"
  by (simp add: entry_update_def)

lemma table_at_update_other:
  assumes wf: "pt_wf h m root av" and p0: "path p0" "table_at m root p0 = Some t"
    and upd: "entry_update av m m' t i v"
  shows "path p \<Longrightarrow> \<not> prefix (p0 @ [i]) p \<Longrightarrow> table_at m' root p = table_at m root p"
proof (induction p rule: rev_induct)
  case (snoc j p)
  have p: "path p" "j < 512" using snoc.prems(1) by auto
  have np: "\<not> prefix (p0 @ [i]) p" using snoc.prems(2) prefix_prefix by blast
  note IH = snoc.IH[OF p(1) np]
  show ?case
  proof (cases "table_at m root p")
    case None
    with IH show ?thesis by (simp add: table_at_snoc)
  next
    case (Some u)
    note u = pt_wfD[OF wf p(1) Some]
    have "\<not> (u = t \<and> j = i)" using u(4)[OF p0(1)] p0(2) snoc.prems(2) by auto
    then have "subtable m' u j = subtable m u j"
      using entry_update_pte[OF upd u(2,3) p(2)] by (auto simp: subtable_def)
    with IH Some show ?thesis by (simp add: table_at_snoc)
  qed
qed simp

lemma table_at_update_here:
  assumes "pt_wf h m root av" "path p0" "table_at m root p0 = Some t" "entry_update av m m' t i v" "i < 512"
  shows "table_at m' root p0 = Some t" "subtable m' t i = (if bit v 0 \<and> \<not> bit v 7 then Some (entry_to_phys v) else None)"
    "table_at m' root (p0 @ i # q) = Option.bind (subtable m' t i) (\<lambda>u. table_at m' u q)"
proof -
  have "\<not> prefix (p0 @ [i]) p0" by (auto dest: prefix_length_le)
  then show *: "table_at m' root p0 = Some t"
    using table_at_update_other[OF assms(1-4) assms(2)] assms(3) by simp
  show "table_at m' root (p0 @ i # q) = Option.bind (subtable m' t i) (\<lambda>u. table_at m' u q)"
    by (simp add: table_at_append *)
  show "subtable m' t i = (if bit v 0 \<and> \<not> bit v 7 then Some (entry_to_phys v) else None)"
    using entry_update_pte[OF assms(4) pt_wfD(2,3)[OF assms(1-3)] assms(5)] by (simp add: subtable_def Let_def)
qed

lemma path_entries_update_other:
  assumes wf: "pt_wf h m root av" and p0: "path p0" "table_at m root p0 = Some t"
    and upd: "entry_update av m m' t i v"
    and p: "path (q @ p)" "\<not> prefix (p0 @ [i]) (q @ p)"
    and q: "table_at m root q = Some u" "table_at m u p \<noteq> None"
  shows "path_entries m' u p = path_entries m u p"
  using p q
proof (induction p arbitrary: q u)
  case (Cons j p)
  have pq: "path q" "j < 512" using Cons.prems(1) by auto
  note u = pt_wfD[OF wf pq(1) Cons.prems(3)]
  have "\<not> (u = t \<and> j = i)" using u(4)[OF p0(1)] p0(2) Cons.prems(2) by auto
  then have e: "pte m' u j = pte m u j" using entry_update_pte[OF upd u(2,3) pq(2)] by auto
  from Cons.prems(4) obtain w where w: "subtable m u j = Some w" "table_at m w p \<noteq> None"
    by (auto split: Option.bind_splits)
  then have "w = entry_to_phys (pte m u j)" by (auto simp: subtable_def Let_def split: if_splits)
  moreover have "table_at m root (q @ [j]) = Some w" using Cons.prems(3) w(1) by (simp add: table_at_snoc)
  ultimately show ?case using Cons.IH[of "q @ [j]" w] Cons.prems(1,2) w(2) e by simp
qed simp

lemma walk_update_other:
  assumes wf: "pt_wf h m root av" and p0: "path p0" "table_at m root p0 = Some t"
    and upd: "entry_update av m m' t i v"
    and r: "length (p @ r) = 4" "\<forall>j\<in>set (p @ r). j < 512" "\<not> prefix (p0 @ [i]) (p @ r)"
    and p: "table_at m root p = Some u"
  shows "walk m' u r = walk m u r"
  using r p
proof (induction r arbitrary: p u)
  case (Cons j r)
  have pp: "path p" "j < 512" using Cons.prems(1,2) by auto
  note u = pt_wfD[OF wf pp(1) Cons.prems(4)]
  have "\<not> (u = t \<and> j = i)" using u(4)[OF p0(1)] p0(2) Cons.prems(3) by auto
  then have e: "pte m' u j = pte m u j" using entry_update_pte[OF upd u(2,3) pp(2)] by auto
  show ?case
  proof (cases "subtable m u j")
    case None
    with e show ?thesis by (auto simp: subtable_def Let_def split: if_splits)
  next
    case (Some w)
    then have w: "w = entry_to_phys (pte m u j)" by (auto simp: subtable_def Let_def split: if_splits)
    have "table_at m root (p @ [j]) = Some w" using Cons.prems(4) Some by (simp add: table_at_snoc)
    with Cons.IH[of "p @ [j]" w] Cons.prems(1-3) have "walk m' w r = walk m w r" by simp
    with e w show ?thesis by (simp add: Let_def)
  qed
qed simp

section \<open>The three kinds of table updates\<close>

lemma bit_entry_to_phys: "bit (entry_to_phys e) n \<longleftrightarrow> 12 \<le> n \<and> n < 52 \<and> bit e n"
proof -
  have *: "(0x000FFFFFFFFFF000 :: u64) = push_bit 12 (mask 40)" by (simp add: mask_eq_exp_minus_1 push_bit_eq_mult)
  show ?thesis unfolding entry_to_phys_def * by (auto simp: bit_simps)
qed

lemma bit_page_flags:
  "bit PAGE_PRESENT n \<longleftrightarrow> n = 0" "bit PAGE_WRITE n \<longleftrightarrow> n = 1"
  "bit PAGE_USER n \<longleftrightarrow> n = 2" "bit PAGE_HUGE n \<longleftrightarrow> n = 7"
  unfolding PAGE_PRESENT_def PAGE_WRITE_def PAGE_USER_def PAGE_HUGE_def bit_push_bit_iff bit_1_iff
  by auto

lemma entry_to_phys_or:
  assumes "\<And>n. 12 \<le> n \<Longrightarrow> n < 52 \<Longrightarrow> \<not> bit f n"
  shows "entry_to_phys (e OR f) = entry_to_phys e"
  using assms by (intro bit_word_eqI) (auto simp: bit_entry_to_phys bit_simps)

lemma walk_not_Nil: "walk m t is \<noteq> Some []"
  by (cases "is") (auto simp: Let_def)

lemma leaf_Cons:
  assumes "subtable m t i = Some u" "is \<noteq> []"
  shows "leaf m t (i # is) = map_option (\<lambda>(e, n). (e, Suc n)) (leaf m u is)"
proof -
  have "bit (pte m t i) 0" "\<not> bit (pte m t i) 7" "u = entry_to_phys (pte m t i)"
    using assms(1) by (auto simp: subtable_def Let_def split: if_splits)
  then show ?thesis using assms(2) walk_not_Nil[of m u "is"]
    by (cases "walk m u is") (auto simp: Let_def)
qed

lemma leaf_through:
  assumes "table_at m t p = Some u" "r \<noteq> []"
  shows "leaf m t (p @ r) = map_option (\<lambda>(e, n). (e, length p + n)) (leaf m u r)"
  using assms(1)
proof (induction p arbitrary: t)
  case (Cons i p)
  then obtain w where "subtable m t i = Some w" "table_at m w p = Some u"
    by (auto split: Option.bind_splits)
  with Cons.IH[of w] assms(2) leaf_Cons[of m t i w "p @ r"] show ?case
    by (cases "leaf m u r") auto
qed (auto simp: option.map_comp comp_def)

text \<open>An update that leaves every pointer to a table alone leaves the tree alone.\<close>

lemma same_tables:
  assumes wf: "pt_wf h m root av"
    and same: "\<And>u j. aligned u \<Longrightarrow> u \<notin> av \<Longrightarrow> j < 512 \<Longrightarrow> subtable m' u j = subtable m u j"
  shows "path p \<Longrightarrow> table_at m' root p = table_at m root p"
proof (induction p rule: rev_induct)
  case (snoc j p)
  then have p: "path p" "j < 512" by auto
  with snoc.IH same pt_wfD(2,3)[OF wf p(1)] show ?case
    by (cases "table_at m root p") (simp_all add: table_at_snoc)
qed simp

lemma pt_wf_cong:
  assumes wf: "pt_wf h m root av"
    and same: "\<And>p. path p \<Longrightarrow> table_at m' root p = table_at m root p"
    and top: "\<And>i. i < 512 \<Longrightarrow> bit (pte m' root i) 0 \<Longrightarrow> bit (pte m' root i) 7 \<Longrightarrow> bit (pte m root i) 0 \<and> bit (pte m root i) 7"
  shows "pt_wf h m' root av"
  unfolding pt_wf_def
proof (intro conjI)
  show "\<forall>p t. path p \<longrightarrow> table_at m' root p = Some t \<longrightarrow> frame_ok h t \<and> t \<notin> av"
    using pt_wfD(1,3)[OF wf] same by auto
  show "\<forall>p q t. path p \<longrightarrow> path q \<longrightarrow> table_at m' root p = Some t \<longrightarrow> table_at m' root q = Some t \<longrightarrow> p = q"
    using pt_wfD(4)[OF wf] same by simp
  show "\<forall>i<512. bit (pte m' root i) 0 \<longrightarrow> \<not> bit (pte m' root i) 7"
    using pt_wf_root(4)[OF wf] top by blast
qed

lemma user_bit_update:
  assumes wf: "pt_wf h m root av" and p0: "path p0" "length p0 < 3" "table_at m root p0 = Some t" "i < 512"
    and sub: "subtable m t i = Some c"
    and upd: "entry_update av m m' t i (pte m t i OR (f AND PAGE_USER))"
  shows "pt_wf h m' root av" "table_at m' root (p0 @ [i]) = Some c"
    and "length is = 4 \<Longrightarrow> \<forall>j\<in>set is. j < 512 \<Longrightarrow> leaf m' root is = leaf m root is"
    and "path p \<Longrightarrow> table_at m' root p = table_at m root p"
proof -
  let ?e = "pte m t i" and ?v = "pte m t i OR (f AND PAGE_USER)"
  have v: "bit ?v 0 = bit ?e 0" "bit ?v 7 = bit ?e 7" "entry_to_phys ?v = entry_to_phys ?e"
    by (simp_all add: bit_simps bit_page_flags entry_to_phys_or)
  have same: "subtable m' u j = subtable m u j" if "aligned u" "u \<notin> av" "j < 512" for u j
    using entry_update_pte[OF upd that] v by (auto simp: subtable_def)
  have tabs: "table_at m' root p = table_at m root p" if "path p" for p
    using wf same that by (rule same_tables)
  then show "path p \<Longrightarrow> table_at m' root p = table_at m root p" .
  show "pt_wf h m' root av"
  proof (rule pt_wf_cong[OF wf tabs])
    fix j :: u64
    assume "j < 512" "bit (pte m' root j) 0" "bit (pte m' root j) 7"
    with entry_update_pte[OF upd pt_wf_root(2,3)[OF wf] this(1)] v
    show "bit (pte m root j) 0 \<and> bit (pte m root j) 7" by (auto split: if_splits)
  qed auto
  have "path (p0 @ [i])" using p0 by auto
  from tabs[OF this] sub p0(3) show "table_at m' root (p0 @ [i]) = Some c" by (simp add: table_at_snoc)
  have "leaf m' u r = leaf m u r"
    if "length (p @ r) = 4" "\<forall>j\<in>set (p @ r). j < 512" "table_at m root p = Some u" for p r u
    using that
  proof (induction r arbitrary: p u)
    case (Cons j r)
    have pp: "path p" "j < 512" using Cons.prems(1,2) by auto
    note u = pt_wfD[OF wf pp(1) Cons.prems(3)]
    note pte = entry_update_pte[OF upd u(2,3) pp(2)]
    show ?case
    proof (cases "subtable m u j")
      case None
      with sub have "pte m' u j = pte m u j" using pte by auto
      with None show ?thesis by (auto simp: subtable_def Let_def split: if_splits)
    next
      case (Some w)
      have last: "r = [] \<Longrightarrow> \<not> (u = t \<and> j = i)" using u(4)[OF p0(1)] p0(2,3) Cons.prems(1) by auto
      have "table_at m root (p @ [j]) = Some w" using Cons.prems(3) Some by (simp add: table_at_snoc)
      then have IH: "leaf m' w r = leaf m w r" using Cons.IH[of "p @ [j]" w] Cons.prems(1,2) by simp
      moreover have "subtable m' u j = Some w" using same[OF u(2,3) pp(2)] Some by simp
      ultimately have "r \<noteq> [] \<Longrightarrow> ?thesis" 
        using Some leaf_Cons[of m' u j w r] leaf_Cons[of m u j w r] by (simp del: walk.simps(2))
      moreover have "r = [] \<Longrightarrow> pte m' u j = pte m u j" using last pte by auto
      ultimately show ?thesis by (cases "r = []") (simp_all add: Let_def)
    qed
  qed simp
  from this[of "[]" "is" root]
  show "length is = 4 \<Longrightarrow> \<forall>j\<in>set is. j < 512 \<Longrightarrow> leaf m' root is = leaf m root is" by simp
qed

lemma empty_table_walk:
  assumes "\<And>j. j < 512 \<Longrightarrow> pte m q j = 0" "\<forall>j\<in>set r. j < 512"
  shows "walk m q r = None" "r \<noteq> [] \<Longrightarrow> table_at m q r = None"
  using assms by (cases r; auto simp: subtable_def)+

lemma new_table_update:
  assumes wf: "pt_wf h m root av" and p0: "path p0" "length p0 < 3" "table_at m root p0 = Some t" "i < 512"
    and e: "\<not> bit (pte m t i) 0"
    and upd: "entry_update av m m' t i v"
    and v: "bit v 0" "\<not> bit v 7" "entry_to_phys v = q"
    and q: "q \<in> av" "frame_ok h q" "\<And>j. j < 512 \<Longrightarrow> pte m' q j = 0"
  shows "pt_wf h m' root (av - {q})" "table_at m' root (p0 @ [i]) = Some q"
    and "path p \<Longrightarrow> table_at m' root p = (if p = p0 @ [i] then Some q else table_at m root p)"
    and "length is = 4 \<Longrightarrow> \<forall>j\<in>set is. j < 512 \<Longrightarrow> leaf m' root is = leaf m root is"
proof -
  note here = table_at_update_here[OF wf p0(1,3) upd p0(4)]
  have sub: "subtable m' t i = Some q" "subtable m t i = None" using here(2) v e by (simp_all add: subtable_def)
  show "table_at m' root (p0 @ [i]) = Some q" using here(3)[of "[]"] sub by simp
  have tabs: "table_at m' root p = (if p = p0 @ [i] then Some q else table_at m root p)" if "path p" for p
  proof (cases "prefix (p0 @ [i]) p")
    case True
    then obtain r where r: "p = p0 @ i # r" by (auto simp: prefix_def)
    with that have "\<forall>j\<in>set r. j < 512" by auto
    with r here(3)[of r] sub empty_table_walk(2)[OF q(3)] p0(3) show ?thesis
      by (cases "r = []") (simp_all add: table_at_append)
  next
    case False
    then have "p \<noteq> p0 @ [i]" by auto
    with table_at_update_other[OF wf p0(1,3) upd that False] show ?thesis by simp
  qed
  show "path p \<Longrightarrow> table_at m' root p = (if p = p0 @ [i] then Some q else table_at m root p)"
    by (rule tabs)
  have notq: "table_at m root p \<noteq> Some q" if "path p" for p using pt_wfD(3)[OF wf that] q(1) by blast
  show "pt_wf h m' root (av - {q})"
    unfolding pt_wf_def
  proof (intro conjI)
    show "\<forall>p t. path p \<longrightarrow> table_at m' root p = Some t \<longrightarrow> frame_ok h t \<and> t \<notin> av - {q}"
      using tabs pt_wfD(1,3)[OF wf] q(2) by (auto split: if_splits)
    show "\<forall>p r t. path p \<longrightarrow> path r \<longrightarrow> table_at m' root p = Some t \<longrightarrow> table_at m' root r = Some t \<longrightarrow> p = r"
    proof (intro allI impI)
      fix p r t assume "path p" "path r" "table_at m' root p = Some t" "table_at m' root r = Some t"
      with tabs[of p] tabs[of r] notq[of p] notq[of r] pt_wfD(4)[OF wf, of r t p] show "p = r"
        by (simp split: if_splits)
    qed
    show "\<forall>j<512. bit (pte m' root j) 0 \<longrightarrow> \<not> bit (pte m' root j) 7"
      using entry_update_pte[OF upd pt_wf_root(2,3)[OF wf]] pt_wf_root(4)[OF wf] v by auto
  qed
  assume l: "length is = 4" "\<forall>j\<in>set is. j < 512"
  show "leaf m' root is = leaf m root is"
  proof (cases "prefix (p0 @ [i]) is")
    case True
    then obtain r where r: "is = (p0 @ [i]) @ r" "is = p0 @ i # r" by (auto simp: prefix_def)
    with l p0(2) have ne: "r \<noteq> []" "\<forall>j\<in>set r. j < 512" by auto
    have "table_at m' root (p0 @ [i]) = Some q" using here(3)[of "[]"] sub by simp
    then have "leaf m' root is = None"
      using leaf_through[of m' root "p0 @ [i]" q r] ne empty_table_walk(1)[OF q(3) ne(2)] r(1) by simp
    moreover have "leaf m root is = None" using leaf_through[OF p0(3), of "i # r"] r(2) e by simp
    ultimately show ?thesis by simp
  next
    case False
    with walk_update_other[OF wf p0(1,3) upd, of "[]" "is" root] l show ?thesis by simp
  qed
qed

text \<open>
  An entry that maps a page, or none: anything in the last table, an entry that is not
  present or large in the two tables above.
\<close>

lemma leaf_update:
  assumes wf: "pt_wf h m root av" and p0: "path p0" "p0 \<noteq> []" "table_at m root p0 = Some t" "i < 512"
    and v: "length p0 < 3 \<longrightarrow> \<not> bit v 0 \<or> bit v 7"
    and upd: "entry_update av m m' t i v"
  shows "pt_wf h m' root av"
    and "path p \<Longrightarrow> table_at m' root p = (if prefix (p0 @ [i]) p then None else table_at m root p)"
    and "length is = 4 \<Longrightarrow> \<forall>j\<in>set is. j < 512 \<Longrightarrow> \<not> prefix (p0 @ [i]) is \<Longrightarrow> walk m' root is = walk m root is"
    and "length is = 4 \<Longrightarrow> prefix (p0 @ [i]) is \<Longrightarrow>
       walk m' root is = (if bit v 0 then Some (path_entries m root p0 @ [v]) else None)"
proof -
  note here = table_at_update_here[OF wf p0(1,3) upd p0(4)]
  have tabs: "table_at m' root p = (if prefix (p0 @ [i]) p then None else table_at m root p)" if "path p" for p
  proof (cases "prefix (p0 @ [i]) p")
    case True
    then obtain r where r: "p = p0 @ i # r" by (auto simp: prefix_def)
    with that have "length p0 < 3" by simp
    with v here(2) have "subtable m' t i = None" by auto
    with True r here(3)[of r] show ?thesis by simp
  next
    case False
    with table_at_update_other[OF wf p0(1,3) upd that False] show ?thesis by simp
  qed
  show "path p \<Longrightarrow> table_at m' root p = (if prefix (p0 @ [i]) p then None else table_at m root p)"
    by (rule tabs)
  have root: "root \<noteq> t"
    using pt_wfD(4)[OF wf p0(1,3), of "[]"] p0(2) by auto
  show "pt_wf h m' root av"
    unfolding pt_wf_def
  proof (intro conjI)
    show "\<forall>p t. path p \<longrightarrow> table_at m' root p = Some t \<longrightarrow> frame_ok h t \<and> t \<notin> av"
      using tabs pt_wfD(1,3)[OF wf] by (auto split: if_splits)
    show "\<forall>p r t. path p \<longrightarrow> path r \<longrightarrow> table_at m' root p = Some t \<longrightarrow> table_at m' root r = Some t \<longrightarrow> p = r"
    proof (intro allI impI)
      fix p r t assume "path p" "path r" "table_at m' root p = Some t" "table_at m' root r = Some t"
      with tabs[of p] tabs[of r] pt_wfD(4)[OF wf, of r t p] show "p = r" by (simp split: if_splits)
    qed
    show "\<forall>j<512. bit (pte m' root j) 0 \<longrightarrow> \<not> bit (pte m' root j) 7"
      using entry_update_pte[OF upd pt_wf_root(2,3)[OF wf]] pt_wf_root(4)[OF wf] root by auto
  qed
  assume l: "length is = 4"
  { assume "\<forall>j\<in>set is. j < 512" "\<not> prefix (p0 @ [i]) is"
    with walk_update_other[OF wf p0(1,3) upd, of "[]" "is" root] l
    show "walk m' root is = walk m root is" by simp }
  assume "prefix (p0 @ [i]) is"
  then obtain r where r: "is = p0 @ i # r" by (auto simp: prefix_def)
  have "\<not> prefix (p0 @ [i]) p0" by (auto dest: prefix_length_le)
  then have "path_entries m' root p0 = path_entries m root p0"
    using path_entries_update_other[OF wf p0(1,3) upd, of "[]" p0 root] p0(1,3) by simp
  moreover have "pte m' t i = v" using entry_update_pte[OF upd pt_wfD(2,3)[OF wf p0(1,3)] p0(4)] by simp
  moreover have "length r \<noteq> 3" using r l p0(2) by (cases p0) auto
  moreover have "r \<noteq> [] \<Longrightarrow> length p0 < 3" using r l by (cases r) auto
  then have "r = [] \<or> \<not> bit v 0 \<or> bit v 7" using v by blast
  ultimately show "walk m' root is = (if bit v 0 then Some (path_entries m root p0 @ [v]) else None)"
    using walk_append[OF here(1), of "i # r"] r by (auto simp: Let_def)
qed

end
