(* ===== verification/Thread.thy ===== *)
theory Thread
  imports Vmm
begin

text \<open>
  Threads and the scheduler (\<^verbatim>\<open>thread.c\<close> up to \<^verbatim>\<open>thread_current\<close>, \<^verbatim>\<open>thread.h\<close>), the context
  switch (\<^verbatim>\<open>switch.asm\<close>) and the way into user mode (\<^verbatim>\<open>usermode.asm\<close>).

  Pointers into the static arrays \<^verbatim>\<open>threads\<close>, \<^verbatim>\<open>ports\<close> and \<^verbatim>\<open>message_pool\<close> are indices, and
  null is \<open>None\<close>. \<open>kstack\<close> is the memory of the kernel stacks, one 64-bit slot per address;
  the code only pushes and pops there. \<open>cpu\<close> holds the stack pointer and the registers that
  a context switch saves. A loop along \<^verbatim>\<open>next\<close> pointers has no result, \<open>None\<close>, when it does not
  end or reads through a null pointer; the theorems say that this does not happen.
\<close>

unbundle bit_operations_syntax

section \<open>State\<close>

datatype ThreadState = THREAD_RUNNING | THREAD_BLOCKED | THREAD_DEAD

record Message =
  msg_id :: u32
  msg_data :: "u32 list"
  msg_next :: "nat option"

record Port =
  queue_head :: "nat option"
  queue_tail :: "nat option"
  message_count :: int
  blocked_thread :: "nat option"

record Thread =
  thread_rsp :: u64
  thread_status :: ThreadState
  waiting_on_port :: "nat option"
  thread_next :: "nat option"
  kernel_rsp :: u64
  user_rsp :: u64
  is_user_mode :: bool

record cpu_regs =
  c_rsp :: u64
  c_rbp :: u64
  c_rbx :: u64
  c_r12 :: u64
  c_r13 :: u64
  c_r14 :: u64
  c_r15 :: u64

record thread_state = vmm_state +
  current :: "nat option"
  thread_list :: "nat option"
  threads :: "Thread list"
  thread_count :: nat
  ports :: "Port list"
  port_count :: nat
  message_pool :: "Message list"
  message_pool_next :: nat
  kstack :: "u64 \<Rightarrow> u64"
  cpu :: cpu_regs

definition MAX_THREADS :: nat where "MAX_THREADS = 8"
definition STACK_SIZE :: u64 where "STACK_SIZE = 4096"
definition MAX_PORTS :: nat where "MAX_PORTS = 16"
definition MAX_MESSAGES :: nat where "MAX_MESSAGES = 64"
definition MESSAGE_DATA_SIZE :: nat where "MESSAGE_DATA_SIZE = 4"

definition empty_port :: Port where
  "empty_port = \<lparr>queue_head = None, queue_tail = None, message_count = 0, blocked_thread = None\<rparr>"

definition thread_init :: "'z thread_state_scheme \<Rightarrow> 'z thread_state_scheme" where
  "thread_init s = s\<lparr>current := None, thread_list := None, thread_count := 0, port_count := 0,
     message_pool_next := 0,
     message_pool := map (\<lambda>m. m\<lparr>msg_next := None\<rparr>) (message_pool s),
     ports := map (\<lambda>p. p\<lparr>queue_head := None, queue_tail := None, message_count := 0, blocked_thread := None\<rparr>) (ports s)\<rparr>"

section \<open>Creating threads\<close>

definition set_thread :: "nat \<Rightarrow> Thread \<Rightarrow> 'z thread_state_scheme \<Rightarrow> 'z thread_state_scheme" where
  "set_thread i t s = s\<lparr>threads := (threads s)[i := t]\<rparr>"

text \<open>\<^verbatim>\<open>*(--sp) = w\<close>, for each word in turn.\<close>

fun push_words :: "u64 list \<Rightarrow> u64 \<times> (u64 \<Rightarrow> u64) \<Rightarrow> u64 \<times> (u64 \<Rightarrow> u64)" where
  "push_words [] st = st"
| "push_words (w # ws) (sp, m) = push_words ws (sp - 8, m(sp - 8 := w))"

text \<open>The loop that looks for the last thread of the ring.\<close>

partial_function (option) ring_tail :: "Thread list \<Rightarrow> nat \<Rightarrow> nat \<Rightarrow> nat option" where
  "ring_tail ts head it =
     (case thread_next (ts ! it) of
        None \<Rightarrow> None
      | Some n \<Rightarrow> if n = head then Some it else ring_tail ts head n)"

definition ring_insert :: "nat \<Rightarrow> 'z thread_state_scheme \<Rightarrow> 'z thread_state_scheme option" where
  "ring_insert i s =
     (case thread_list s of
        None \<Rightarrow> Some (set_thread i ((threads s ! i)\<lparr>thread_next := Some i\<rparr>) (s\<lparr>thread_list := Some i, current := Some i\<rparr>))
      | Some h \<Rightarrow> map_option (\<lambda>it.
          let s1 = set_thread it ((threads s ! it)\<lparr>thread_next := Some i\<rparr>) s
          in set_thread i ((threads s1 ! i)\<lparr>thread_next := Some h\<rparr>) s1) (ring_tail (threads s) h h))"

definition stack_top :: "image \<Rightarrow> nat \<Rightarrow> u64" where
  "stack_top img i = stacks_addr img + of_nat i * STACK_SIZE + STACK_SIZE"

definition thread_create :: "image \<Rightarrow> u64 \<Rightarrow> 'z thread_state_scheme \<Rightarrow> 'z thread_state_scheme option" where
  "thread_create img entry s =
     (if thread_count s \<ge> MAX_THREADS then Some s
      else let i = thread_count s;
               sp = stack_top img i AND NOT 0xF;
               (sp', m) = push_words [entry, 0, 0, 0, 0, 0, 0] (sp, kstack s);
               t = (threads s ! i)\<lparr>thread_rsp := sp', kernel_rsp := sp', user_rsp := 0, is_user_mode := False,
                     thread_status := THREAD_RUNNING, thread_next := None, waiting_on_port := None\<rparr>
           in map_option (\<lambda>s'. s'\<lparr>thread_count := thread_count s' + 1\<rparr>)
                (ring_insert i (set_thread i t (s\<lparr>kstack := m\<rparr>))))"

definition thread_create_user ::
    "image \<Rightarrow> u64 \<Rightarrow> u64 \<Rightarrow> 'z thread_state_scheme \<Rightarrow> 'z thread_state_scheme option" where
  "thread_create_user img entry user_stack s =
     (if thread_count s \<ge> MAX_THREADS then Some s
      else let i = thread_count s;
               sp = stack_top img i AND NOT 0xF;
               s1 = gdt_set_kernel_stack sp s;
               (sp', m) = push_words [usermode_trampoline img, 0, 0, entry, user_stack, 0, 0] (sp, kstack s1);
               t = (threads s1 ! i)\<lparr>thread_rsp := sp', kernel_rsp := stack_top img i, user_rsp := user_stack,
                     is_user_mode := True, thread_status := THREAD_RUNNING, thread_next := None,
                     waiting_on_port := None\<rparr>
           in map_option (\<lambda>s'. s'\<lparr>thread_count := thread_count s' + 1\<rparr>)
                (ring_insert i (set_thread i t (s1\<lparr>kstack := m\<rparr>))))"

section \<open>Switching\<close>

text \<open>
  \<open>ra\<close> is the return address that the call of \<^verbatim>\<open>context_switch\<close> pushes, \<open>old\<close> the thread whose
  \<^verbatim>\<open>rsp\<close> is saved, or none where the caller passes a local variable. The result is the
  address at which execution goes on.
\<close>

definition context_switch ::
    "u64 \<Rightarrow> nat option \<Rightarrow> u64 \<Rightarrow> 'z thread_state_scheme \<Rightarrow> u64 \<times> 'z thread_state_scheme" where
  "context_switch ra old new_rsp s =
     (let c = cpu s;
          (sp, m) = push_words [ra, c_rbp c, c_rbx c, c_r12 c, c_r13 c, c_r14 c, c_r15 c] (c_rsp c, kstack s);
          s1 = s\<lparr>kstack := m\<rparr>;
          s2 = (case old of None \<Rightarrow> s1 | Some i \<Rightarrow> set_thread i ((threads s1 ! i)\<lparr>thread_rsp := sp\<rparr>) s1)
      in (m (new_rsp + 48),
          s2\<lparr>cpu := \<lparr>c_rsp = new_rsp + 56, c_rbp = m (new_rsp + 40), c_rbx = m (new_rsp + 32), c_r12 = m (new_rsp + 24),
               c_r13 = m (new_rsp + 16), c_r14 = m (new_rsp + 8), c_r15 = m new_rsp\<rparr>\<rparr>))"

text \<open>
  The loop of \<open>find_next_runnable\<close>. The outer \<open>None\<close> stands for no result, the inner one
  for the null pointer.
\<close>

partial_function (option) next_runnable_loop :: "Thread list \<Rightarrow> nat \<Rightarrow> nat option \<Rightarrow> nat option option" where
  "next_runnable_loop ts start candidate =
     (if candidate = Some start
      then Some (if thread_status (ts ! start) = THREAD_RUNNING then Some start else None)
      else case candidate of
        None \<Rightarrow> None
      | Some i \<Rightarrow> if thread_status (ts ! i) = THREAD_RUNNING then Some (Some i)
                  else next_runnable_loop ts start (thread_next (ts ! i)))"

definition find_next_runnable :: "Thread list \<Rightarrow> nat \<Rightarrow> nat option option" where
  "find_next_runnable ts start = next_runnable_loop ts start (thread_next (ts ! start))"

text \<open>Where control is after a call that may switch: back in the caller, or at an address.\<close>

datatype control = Returns | Resumes u64

definition thread_yield :: "u64 \<Rightarrow> 'z thread_state_scheme \<Rightarrow> (control \<times> 'z thread_state_scheme) option" where
  "thread_yield ra s =
     (case current s of
        None \<Rightarrow> Some (Returns, s)
      | Some prev \<Rightarrow>
         (case find_next_runnable (threads s) prev of
            None \<Rightarrow> None
          | Some None \<Rightarrow> Some (Returns, s)
          | Some (Some next) \<Rightarrow>
             (let s1 = s\<lparr>current := Some next\<rparr>;
                  s2 = (if is_user_mode (threads s1 ! next)
                        then gdt_set_kernel_stack (kernel_rsp (threads s1 ! next)) s1 else s1)
              in if prev \<noteq> next
                 then (case context_switch ra (Some prev) (thread_rsp (threads s2 ! next)) s2 of
                         (rip, s3) \<Rightarrow> Some (Resumes rip, s3))
                 else Some (Returns, s2))))"

definition scheduler_start :: "u64 \<Rightarrow> 'z thread_state_scheme \<Rightarrow> (control \<times> 'z thread_state_scheme) option" where
  "scheduler_start ra s =
     (case thread_list s of
        None \<Rightarrow> Some (Returns, s)
      | Some h \<Rightarrow>
         (let s1 = s\<lparr>current := Some h\<rparr> in
          case find_next_runnable (threads s1) h of
            None \<Rightarrow> None
          | Some None \<Rightarrow> Some (Returns, s1)
          | Some (Some r) \<Rightarrow>
             (let s2 = s1\<lparr>current := Some r\<rparr>;
                  s3 = (if is_user_mode (threads s2 ! r)
                        then gdt_set_kernel_stack (kernel_rsp (threads s2 ! r)) s2 else s2)
              in case context_switch ra None (thread_rsp (threads s3 ! r)) s3 of
                   (rip, s4) \<Rightarrow> Some (Resumes rip, s4))))"

definition thread_current :: "'z thread_state_scheme \<Rightarrow> nat option" where
  "thread_current s = current s"

text \<open>
  \<^verbatim>\<open>jump_to_usermode\<close> builds the frame that \<^verbatim>\<open>iretq\<close> takes; \<open>rflags\<close> are the flags at that
  moment. \<^verbatim>\<open>usermode_trampoline\<close> passes it what the first switch loads into r12 and r13.
\<close>

definition jump_to_usermode :: "u64 \<Rightarrow> u64 \<Rightarrow> u64 \<Rightarrow> interrupt_frame" where
  "jump_to_usermode rflags entry user_stack =
     \<lparr>frame_rip = entry, frame_cs = 0x1B, frame_rflags = rflags OR 0x200, frame_rsp = user_stack, frame_ss = 0x23\<rparr>"

definition run_usermode_trampoline :: "u64 \<Rightarrow> cpu_regs \<Rightarrow> interrupt_frame" where
  "run_usermode_trampoline rflags c = jump_to_usermode rflags (c_r12 c) (c_r13 c)"

section \<open>The ring of threads\<close>

definition ring :: "Thread list \<Rightarrow> nat \<Rightarrow> bool" where
  "ring ts n \<longleftrightarrow> n \<le> length ts \<and> (\<forall>i<n. thread_next (ts ! i) = Some (Suc i mod n))"

definition thread_inv :: "'z thread_state_scheme \<Rightarrow> bool" where
  "thread_inv s \<longleftrightarrow> length (threads s) = MAX_THREADS \<and> ring (threads s) (thread_count s) \<and>
     thread_list s = (if thread_count s = 0 then None else Some 0) \<and>
     (case current s of None \<Rightarrow> thread_count s = 0 | Some c \<Rightarrow> c < thread_count s)"

definition runnable :: "Thread list \<Rightarrow> nat \<Rightarrow> bool" where
  "runnable ts i \<longleftrightarrow> thread_status (ts ! i) = THREAD_RUNNING"

lemma ringD: "ring ts n \<Longrightarrow> i < n \<Longrightarrow> thread_next (ts ! i) = Some (Suc i mod n)"
  by (simp add: ring_def)

lemma ring_tail_last:
  assumes "ring ts n" "it < n"
  shows "ring_tail ts 0 it = Some (n - 1)"
  using assms(2)
proof (induction "n - it" arbitrary: it)
  case (Suc k)
  show ?case
  proof (cases "Suc it = n")
    case True
    with ringD[OF assms(1) Suc.prems] show ?thesis by (subst ring_tail.simps) auto
  next
    case False
    with Suc have "ring_tail ts 0 (Suc it) = Some (n - 1)" by auto
    with ringD[OF assms(1) Suc.prems] False Suc.prems show ?thesis by (subst ring_tail.simps) simp
  qed
qed simp

text \<open>
  What \<^verbatim>\<open>find_next_runnable\<close> computes: the first runnable thread in cyclic order after
  \<open>start\<close>, with \<open>start\<close> itself last.
\<close>

definition next_in_order :: "Thread list \<Rightarrow> nat \<Rightarrow> nat \<Rightarrow> nat option" where
  "next_in_order ts n start = find (runnable ts) (map (\<lambda>k. (start + k) mod n) [1..<Suc n])"

lemma next_runnable_loop_eq:
  assumes "ring ts n" "start < n" "0 < k" "k \<le> n"
  shows "next_runnable_loop ts start (Some ((start + k) mod n)) =
    Some (find (runnable ts) (map (\<lambda>k. (start + k) mod n) [k..<Suc n]))"
  using assms(3,4)
proof (induction "n - k" arbitrary: k)
  case 0
  then show ?case using assms(2)
    by (subst next_runnable_loop.simps) (auto simp: runnable_def)
next
  case (Suc d)
  have k: "k < n" using Suc by simp
  have ne: "(start + k) mod n \<noteq> start"
    using assms(2) k Suc.prems by (auto simp: mod_if)
  have lt: "(start + k) mod n < n" using k by simp
  have nxt: "thread_next (ts ! ((start + k) mod n)) = Some ((start + Suc k) mod n)"
    using ringD[OF assms(1) lt] by (simp add: mod_Suc_eq)
  have up: "[k..<Suc n] = k # [Suc k..<Suc n]" using k by (simp add: upt_rec)
  have "next_runnable_loop ts start (Some ((start + Suc k) mod n)) =
      Some (find (runnable ts) (map (\<lambda>k. (start + k) mod n) [Suc k..<Suc n]))"
    using Suc k by (intro Suc.hyps(1)) auto
  then show ?case unfolding up
    by (subst next_runnable_loop.simps) (simp add: ne nxt runnable_def del: upt_Suc)
qed

lemma find_next_runnable_eq:
  assumes "ring ts n" "start < n"
  shows "find_next_runnable ts start = Some (next_in_order ts n start)"
  using next_runnable_loop_eq[OF assms, of 1] assms ringD[OF assms]
  by (simp add: find_next_runnable_def next_in_order_def del: upt_Suc)

lemma next_in_order_None:
  assumes "start < n"
  shows "next_in_order ts n start = None \<longleftrightarrow> (\<forall>i<n. \<not> runnable ts i)"
proof -
  have "(\<lambda>k. (start + k) mod n) ` {1..<Suc n} = {..<n}"
  proof
    show "{..<n} \<subseteq> (\<lambda>k. (start + k) mod n) ` {1..<Suc n}"
    proof
      fix i assume i: "i \<in> {..<n}"
      show "i \<in> (\<lambda>k. (start + k) mod n) ` {1..<Suc n}"
      proof (cases "start < i")
        case True
        with i show ?thesis by (intro image_eqI[of _ _ "i - start"]) auto
      next
        case False
        with i assms show ?thesis by (intro image_eqI[of _ _ "n + i - start"]) auto
      qed
    qed
  qed (use assms in auto)
  then show ?thesis
    by (simp add: next_in_order_def find_None_iff image_iff[symmetric] ball_simps(9)[symmetric] del: upt_Suc)
qed

text \<open>
  How far ahead thread \<open>j\<close> is of the current thread \<open>c\<close>, counted on a ring of
  \<^const>\<open>MAX_THREADS\<close> places, so that creating a thread does not change it.
\<close>

definition turns :: "nat \<Rightarrow> nat \<Rightarrow> nat" where
  "turns c j = (if c < j then j - c else j + MAX_THREADS - c)"

lemma next_in_order_cases:
  assumes "next_in_order ts n c = Some i" "c < n"
  obtains k where "0 < k" "k \<le> n" "i = (c + k) mod n" "runnable ts i"
    "\<And>l. 0 < l \<Longrightarrow> l < k \<Longrightarrow> \<not> runnable ts ((c + l) mod n)"
proof -
  have "\<exists>k<length [1..<Suc n]. runnable ts (map (\<lambda>k. (c + k) mod n) [1..<Suc n] ! k) \<and>
      i = map (\<lambda>k. (c + k) mod n) [1..<Suc n] ! k \<and>
      (\<forall>l<k. \<not> runnable ts (map (\<lambda>k. (c + k) mod n) [1..<Suc n] ! l))"
    using assms(1) by (simp add: next_in_order_def find_Some_iff del: upt_Suc)
  then obtain k where k: "k < n" "runnable ts i" "i = (c + Suc k) mod n"
      "\<And>l. l < k \<Longrightarrow> \<not> runnable ts ((c + Suc l) mod n)"
    by (auto simp del: upt_Suc)
  show thesis
  proof (rule that[of "Suc k"])
    fix l assume "0 < l" "l < Suc k"
    with k(4)[of "l - 1"] show "\<not> runnable ts ((c + l) mod n)" by simp
  qed (use k in auto)
qed

lemma turns_decrease:
  assumes i: "next_in_order ts n c = Some i" and "c < n" "n \<le> MAX_THREADS"
    and j: "j < n" "runnable ts j" "i \<noteq> j"
  shows "turns i j < turns c j"
proof (rule next_in_order_cases[OF i \<open>c < n\<close>])
  fix k assume k: "0 < k" "k \<le> n" "i = (c + k) mod n"
    and before: "\<And>l. 0 < l \<Longrightarrow> l < k \<Longrightarrow> \<not> runnable ts ((c + l) mod n)"
  define d where "d = (if c < j then j - c else j + n - c)"
  have d: "0 < d" "d \<le> n" "(c + d) mod n = j" using assms by (auto simp: d_def)
  with before[of d] j have "k < d" using k by (metis linorder_neqE_nat)
  show ?thesis
  proof (cases "c + k < n")
    case True
    with k \<open>k < d\<close> assms show ?thesis by (auto simp: turns_def d_def split: if_splits)
  next
    case False
    with k \<open>k < d\<close> assms have "i = c + k - n" by (simp add: d_def mod_if split: if_splits)
    with k \<open>k < d\<close> assms False show ?thesis by (auto simp: turns_def d_def split: if_splits)
  qed
qed

section \<open>Insertion into the ring\<close>

definition ring_link :: "nat \<Rightarrow> Thread list \<Rightarrow> Thread list" where
  "ring_link n ts = (if n = 0 then ts[0 := (ts ! 0)\<lparr>thread_next := Some 0\<rparr>]
     else ts[n - 1 := (ts ! (n - 1))\<lparr>thread_next := Some n\<rparr>, n := (ts ! n)\<lparr>thread_next := Some 0\<rparr>])"

lemma ring_link_ring:
  assumes "ring ts n" "n < length ts"
  shows "ring (ring_link n ts) (Suc n)"
  using assms by (auto simp: ring_def ring_link_def nth_list_update less_Suc_eq intro!: mod_less[symmetric])

lemma length_ring_link [simp]: "length (ring_link n ts) = length ts"
  by (simp add: ring_link_def)

lemma ring_update:
  assumes "ring ts n"
  shows "ring (ts[n := t]) n"
  using assms by (simp add: ring_def)

text \<open>Both ways of creating a thread fill in slot \<open>thread_count\<close> and link it.\<close>

lemma ring_insert_eq:
  assumes "thread_inv s" "thread_count s < MAX_THREADS"
  shows "ring_insert (thread_count s) (set_thread (thread_count s) t (s\<lparr>the_tss := ss, kstack := m\<rparr>)) =
    Some (s\<lparr>the_tss := ss, kstack := m, threads := ring_link (thread_count s) ((threads s)[thread_count s := t]),
        thread_list := Some 0, current := (if thread_count s = 0 then Some 0 else current s)\<rparr>)"
proof -
  let ?n = "thread_count s" and ?ts = "(threads s)[thread_count s := t]"
  have s: "length (threads s) = MAX_THREADS" "ring ?ts ?n"
      "thread_list s = (if ?n = 0 then None else Some 0)"
    using assms(1) by (auto simp: thread_inv_def intro: ring_update)
  show ?thesis
  proof (cases "?n = 0")
    case True
    with s assms(2) show ?thesis by (simp add: ring_insert_def set_thread_def ring_link_def)
  next
    case False
    then have "ring_tail ?ts 0 0 = Some (?n - 1)" using s by (intro ring_tail_last) auto
    with False s assms(2) show ?thesis
      by (simp add: ring_insert_def set_thread_def ring_link_def Let_def)
  qed
qed

text \<open>The seven words of a saved context, and what a switch to it loads.\<close>

definition frame_words :: "u64 \<times> cpu_regs \<Rightarrow> u64 list" where
  "frame_words = (\<lambda>(rip, c). [rip, c_rbp c, c_rbx c, c_r12 c, c_r13 c, c_r14 c, c_r15 c])"

definition frame_at :: "(u64 \<Rightarrow> u64) \<Rightarrow> u64 \<Rightarrow> u64 \<times> cpu_regs" where
  "frame_at m p = (m (p + 48), \<lparr>c_rsp = p + 56, c_rbp = m (p + 40), c_rbx = m (p + 32), c_r12 = m (p + 24),
     c_r13 = m (p + 16), c_r14 = m (p + 8), c_r15 = m p\<rparr>)"

definition saved_frame :: "'z thread_state_scheme \<Rightarrow> nat \<Rightarrow> u64 \<times> cpu_regs" where
  "saved_frame s i = frame_at (kstack s) (thread_rsp (threads s ! i))"

definition push_frame :: "u64 \<times> cpu_regs \<Rightarrow> (u64 \<Rightarrow> u64) \<Rightarrow> u64 \<Rightarrow> u64" where
  "push_frame f m = snd (push_words (frame_words f) (c_rsp (snd f), m))"

lemma push_words_frame:
  "push_words (frame_words f) (c_rsp (snd f), m) = (c_rsp (snd f) - 56, push_frame f m)"
  by (simp add: frame_words_def push_frame_def case_prod_unfold)

lemma frame_at_push [simp]: "frame_at (push_frame f m) (c_rsp (snd f) - 56) = f"
  by (cases f) (simp add: frame_at_def push_frame_def frame_words_def)

lemma push_frame_other:
  assumes "\<forall>k<7. a \<noteq> c_rsp (snd f) - 56 + of_nat (8 * k)"
  shows "push_frame f m a = m a"
  using assms[rule_format, of 0] assms[rule_format, of 1] assms[rule_format, of 2] assms[rule_format, of 3] assms[rule_format, of 4] assms[rule_format, of 5] assms[rule_format, of 6]
  by (simp add: push_frame_def frame_words_def case_prod_unfold)

section \<open>Stacks\<close>

text \<open>
  \<open>in_stack img i p\<close>: a saved context at \<open>p\<close> lies in the stack of thread \<open>i\<close>. The linker
  places the array of stacks inside the address space.
\<close>

definition stacks_placed :: "image \<Rightarrow> bool" where
  "stacks_placed img \<longleftrightarrow> unat (stacks_addr img) + MAX_THREADS * 4096 < 2 ^ 64"

definition in_stack :: "image \<Rightarrow> nat \<Rightarrow> u64 \<Rightarrow> bool" where
  "in_stack img i p \<longleftrightarrow> 8 dvd unat p \<and> unat (stacks_addr img) + i * 4096 \<le> unat p \<and>
     unat p + 56 \<le> unat (stacks_addr img) + Suc i * 4096"

lemma in_stack_slot:
  assumes "in_stack img i p" "stacks_placed img" "i < MAX_THREADS" "k < 7"
  shows "unat (p + of_nat (8 * k)) = unat p + 8 * k"
proof -
  have "Suc i * 4096 \<le> MAX_THREADS * 4096" using assms(3) by simp
  with assms show ?thesis by (intro unat_add_of_nat64) (auto simp: in_stack_def stacks_placed_def)
qed

lemma in_stack_disjoint:
  assumes p: "in_stack img i p" "i < MAX_THREADS" "k < 7"
    and q: "in_stack img j q" "j < MAX_THREADS" "l < 7"
    and "stacks_placed img" "i \<noteq> j"
  shows "p + of_nat (8 * k) \<noteq> q + of_nat (8 * l)"
proof
  assume "p + of_nat (8 * k) = q + of_nat (8 * l)"
  then have eq: "unat p + 8 * k = unat q + 8 * l"
    using in_stack_slot[OF p(1) \<open>stacks_placed img\<close> p(2,3)] in_stack_slot[OF q(1) \<open>stacks_placed img\<close> q(2,3)]
    by simp
  from \<open>i \<noteq> j\<close> consider "Suc i \<le> j" | "Suc j \<le> i" by linarith
  then show False
  proof cases
    case 1
    then have "Suc i * 4096 \<le> j * 4096" by simp
    with eq p q show False by (simp add: in_stack_def)
  next
    case 2
    then have "Suc j * 4096 \<le> i * 4096" by simp
    with eq p q show False by (simp add: in_stack_def)
  qed
qed

lemma frame_at_cong:
  assumes "\<forall>k<7. m (p + of_nat (8 * k)) = m' (p + of_nat (8 * k))"
  shows "frame_at m p = frame_at m' p"
  using assms[rule_format, of 0] assms[rule_format, of 1] assms[rule_format, of 2] assms[rule_format, of 3] assms[rule_format, of 4] assms[rule_format, of 5] assms[rule_format, of 6]
  by (simp add: frame_at_def)

lemma frame_at_push_other:
  assumes "in_stack img i (c_rsp (snd f) - 56)" "in_stack img j q" "i < MAX_THREADS" "j < MAX_THREADS"
    "stacks_placed img" "i \<noteq> j"
  shows "frame_at (push_frame f m) q = frame_at m q"
proof (rule frame_at_cong, intro allI impI push_frame_other)
  fix k l :: nat assume "k < 7" "l < 7"
  with in_stack_disjoint[OF assms(2,4) \<open>k < 7\<close> assms(1,3) \<open>l < 7\<close> assms(5)] assms(6)
  show "q + of_nat (8 * k) \<noteq> c_rsp (snd f) - 56 + of_nat (8 * l)" by simp
qed

section \<open>The scheduler invariant and thread creation\<close>

definition sched_inv :: "image \<Rightarrow> 'z thread_state_scheme \<Rightarrow> bool" where
  "sched_inv img s \<longleftrightarrow> thread_inv s \<and> (\<forall>i<thread_count s. in_stack img i (thread_rsp (threads s ! i)) \<and>
     (is_user_mode (threads s ! i) \<longrightarrow> kernel_rsp (threads s ! i) = stack_top img i))"

lemma thread_invD:
  assumes "thread_inv s"
  shows "length (threads s) = MAX_THREADS" "ring (threads s) (thread_count s)" "thread_count s \<le> MAX_THREADS"
    "current s = Some c \<Longrightarrow> c < thread_count s"
  using assms by (auto simp: thread_inv_def ring_def)

lemma sched_inv_cong:
  assumes "threads s' = threads s" "thread_count s' = thread_count s" "thread_list s' = thread_list s"
    "current s' = current s"
  shows "sched_inv img s' \<longleftrightarrow> sched_inv img s"
  using assms by (simp add: sched_inv_def thread_inv_def split: option.split)

lemma sched_invD:
  assumes "sched_inv img s"
  shows "thread_inv s" "i < thread_count s \<Longrightarrow> in_stack img i (thread_rsp (threads s ! i))"
    "i < thread_count s \<Longrightarrow> is_user_mode (threads s ! i) \<Longrightarrow> kernel_rsp (threads s ! i) = stack_top img i"
  using assms by (auto simp: sched_inv_def)

definition spawn :: "u64 \<times> cpu_regs \<Rightarrow> Thread \<Rightarrow> tss \<Rightarrow> 'z thread_state_scheme \<Rightarrow> 'z thread_state_scheme" where
  "spawn f t ss s = s\<lparr>kstack := push_frame f (kstack s), the_tss := ss,
     threads := ring_link (thread_count s) ((threads s)[thread_count s := t]), thread_list := Some 0,
     current := (if thread_count s = 0 then Some 0 else current s), thread_count := Suc (thread_count s)\<rparr>"

definition same_thread :: "Thread \<Rightarrow> Thread \<Rightarrow> bool" where
  "same_thread t u \<longleftrightarrow> thread_rsp t = thread_rsp u \<and> thread_status t = thread_status u \<and>
     waiting_on_port t = waiting_on_port u \<and> kernel_rsp t = kernel_rsp u \<and> user_rsp t = user_rsp u \<and>
     is_user_mode t = is_user_mode u"

lemma same_thread_ring_link:
  assumes "i < length ts" "n < length ts"
  shows "same_thread (ring_link n ts ! i) (ts ! i)"
  using assms by (auto simp: same_thread_def ring_link_def nth_list_update)

lemma spawn_thread_inv:
  assumes "thread_inv s" "thread_count s < MAX_THREADS"
  shows "thread_inv (spawn f t ss s)"
  using ring_link_ring[OF ring_update[OF thread_invD(2)[OF assms(1)]], of t] assms thread_invD[OF assms(1)]
  by (auto simp: thread_inv_def spawn_def split: option.splits)

lemma spawn_ok:
  assumes "sched_inv img s" "thread_count s < MAX_THREADS" "stacks_placed img"
    and t: "thread_rsp t = c_rsp (snd f) - 56" "in_stack img (thread_count s) (thread_rsp t)"
      "is_user_mode t \<longrightarrow> kernel_rsp t = stack_top img (thread_count s)"
  shows "sched_inv img (spawn f t ss s)" "saved_frame (spawn f t ss s) (thread_count s) = f"
    "same_thread (threads (spawn f t ss s) ! thread_count s) t"
    "i < thread_count s \<Longrightarrow> saved_frame (spawn f t ss s) i = saved_frame s i"
    "i < thread_count s \<Longrightarrow> same_thread (threads (spawn f t ss s) ! i) (threads s ! i)"
proof -
  let ?n = "thread_count s" and ?s = "spawn f t ss s"
  have len: "length (threads s) = MAX_THREADS" using assms by (simp add: sched_inv_def thread_inv_def)
  have count: "thread_count ?s = Suc ?n" by (simp add: spawn_def)
  have th: "same_thread (threads ?s ! i) (if i = ?n then t else threads s ! i)" if "i \<le> ?n" for i
    using same_thread_ring_link[of i "(threads s)[?n := t]" ?n] len that assms(2)
    by (auto simp: spawn_def nth_list_update)
  then have fields: "thread_rsp (threads ?s ! i) = thread_rsp (if i = ?n then t else threads s ! i)"
      "is_user_mode (threads ?s ! i) = is_user_mode (if i = ?n then t else threads s ! i)"
      "kernel_rsp (threads ?s ! i) = kernel_rsp (if i = ?n then t else threads s ! i)" if "i \<le> ?n" for i
    using that by (simp_all add: same_thread_def)
  show "sched_inv img ?s"
    using spawn_thread_inv[of s f t ss] assms(1,2) fields t
    by (auto simp: sched_inv_def less_Suc_eq count)
  show "saved_frame ?s ?n = f"
    using fields[of ?n] t by (simp add: saved_frame_def) (simp add: spawn_def)
  show "same_thread (threads ?s ! ?n) t" using th[of ?n] by simp
  assume i: "i < ?n"
  show "same_thread (threads ?s ! i) (threads s ! i)" using th[of i] i by simp
  have "frame_at (push_frame f (kstack s)) (thread_rsp (threads s ! i)) = saved_frame s i"
    unfolding saved_frame_def using sched_invD(2)[OF assms(1) i] assms i
    by (intro frame_at_push_other[of img ?n _ i]) auto
  with fields[of i] i show "saved_frame ?s i = saved_frame s i"
    by (simp add: saved_frame_def) (simp add: spawn_def)
qed

lemma and_not_15: "unat ((w :: u64) AND NOT 0xF) = 16 * (unat w div 16)"
proof -
  have "w AND NOT 0xF = push_bit 4 (drop_bit 4 w)"
  proof -
    have m: "(0xF :: u64) = mask 4" by (simp add: mask_eq_exp_minus_1)
    show ?thesis unfolding m by (rule bit_word_eqI) (auto simp: bit_simps)
  qed
  moreover have "unat (drop_bit 4 w) = unat w div 16"
    unfolding unat_drop_bit_eq using drop_bit_eq_div[of 4 "unat w"] by simp
  moreover have "16 * (unat w div 16) < 2 ^ 64" using unat_less_2p64[of w] by simp
  ultimately show ?thesis by (simp add: push_bit_eq_mult unat_word_ariths mult.commute)
qed

lemma unat_stack_top:
  assumes "stacks_placed img" "i < MAX_THREADS"
  shows "unat (stack_top img i) = unat (stacks_addr img) + Suc i * 4096"
proof -
  have "Suc i * 4096 \<le> MAX_THREADS * 4096" using assms(2) by simp
  then have "unat (stacks_addr img + of_nat (Suc i * 4096)) = unat (stacks_addr img) + Suc i * 4096"
    using assms(1) by (intro unat_add_of_nat64) (simp add: stacks_placed_def)
  then show ?thesis by (simp add: stack_top_def STACK_SIZE_def algebra_simps)
qed

lemma in_stack_initial:
  assumes "stacks_placed img" "i < MAX_THREADS"
  shows "in_stack img i ((stack_top img i AND NOT 0xF) - 56)"
proof -
  let ?b = "unat (stacks_addr img)"
  let ?p = "stack_top img i AND NOT 0xF"
  have u: "unat ?p = 16 * ((?b + Suc i * 4096) div 16)"
    using unat_stack_top[OF assms] by (simp only: and_not_15)
  define x where "x = ?b + Suc i * 4096"
  have "16 * (x div 16) = x - x mod 16" by (simp add: minus_mod_eq_mult_div)
  moreover have "x mod 16 < 16" by simp
  moreover have "x \<ge> 4096" by (simp add: x_def)
  moreover have "unat (?p - 56) = unat ?p - 56"
  proof -
    have "56 \<le> ?p" using u calculation by (simp add: word_le_nat_alt x_def[symmetric])
    then show ?thesis using unat_sub[of 56 ?p] by simp
  qed
  moreover have "8 dvd 16 * (x div 16) - 56" by (intro dvd_diff_nat) auto
  ultimately show ?thesis using u unfolding in_stack_def x_def by auto
qed

definition initial_regs :: "u64 \<Rightarrow> u64 \<Rightarrow> u64 \<Rightarrow> cpu_regs" where
  "initial_regs sp r12 r13 = \<lparr>c_rsp = sp, c_rbp = 0, c_rbx = 0, c_r12 = r12, c_r13 = r13, c_r14 = 0, c_r15 = 0\<rparr>"

lemma initial_words:
  "[rip, 0, 0, r12, r13, 0, 0] = frame_words (rip, initial_regs sp r12 r13)"
  "c_rsp (initial_regs sp r12 r13) = sp"
  by (simp_all add: frame_words_def initial_regs_def)

lemma push_initial:
  "push_words [rip, 0, 0, r12, r13, 0, 0] (sp, m) = (sp - 56, push_frame (rip, initial_regs sp r12 r13) m)"
  using push_words_frame[of "(rip, initial_regs sp r12 r13)" m]
  by (simp only: initial_words(1)[of rip r12 r13 sp] snd_conv initial_words(2))

abbreviation top16 :: "image \<Rightarrow> nat \<Rightarrow> u64" where
  "top16 img i \<equiv> stack_top img i AND NOT 0xF"

definition kernel_thread :: "image \<Rightarrow> nat \<Rightarrow> Thread \<Rightarrow> Thread" where
  "kernel_thread img i t = t\<lparr>thread_rsp := top16 img i - 56, kernel_rsp := top16 img i - 56, user_rsp := 0,
     is_user_mode := False, thread_status := THREAD_RUNNING, thread_next := None, waiting_on_port := None\<rparr>"

definition user_thread :: "image \<Rightarrow> nat \<Rightarrow> u64 \<Rightarrow> Thread \<Rightarrow> Thread" where
  "user_thread img i ustack t = t\<lparr>thread_rsp := top16 img i - 56, kernel_rsp := stack_top img i, user_rsp := ustack,
     is_user_mode := True, thread_status := THREAD_RUNNING, thread_next := None, waiting_on_port := None\<rparr>"

lemma thread_create_eq:
  assumes "thread_inv s" "thread_count s < MAX_THREADS"
  shows "thread_create img entry s =
    Some (spawn (entry, initial_regs (top16 img (thread_count s)) 0 0)
      (kernel_thread img (thread_count s) (threads s ! thread_count s)) (the_tss s) s)"
  using ring_insert_eq[OF assms, where ss = "the_tss s"] assms(2)
  by (simp add: thread_create_def push_initial Let_def spawn_def kernel_thread_def del: push_words.simps)

lemma thread_create_user_eq:
  assumes "thread_inv s" "thread_count s < MAX_THREADS"
  shows "thread_create_user img entry ustack s =
    Some (spawn (usermode_trampoline img, initial_regs (top16 img (thread_count s)) entry ustack)
      (user_thread img (thread_count s) ustack (threads s ! thread_count s))
      ((the_tss s)\<lparr>rsp0 := top16 img (thread_count s)\<rparr>) s)"
  using ring_insert_eq[OF assms, where ss = "(the_tss s)\<lparr>rsp0 := top16 img (thread_count s)\<rparr>"] assms(2)
  by (simp add: thread_create_user_def push_initial Let_def spawn_def user_thread_def del: push_words.simps)

lemma thread_init_inv:
  assumes "length (threads s) = MAX_THREADS"
  shows "sched_inv img (thread_init s)"
  using assms by (simp add: sched_inv_def thread_inv_def thread_init_def ring_def)

lemma spawn_initial:
  fixes img s t ss rip r12 r13
  assumes "sched_inv img s" "stacks_placed img" "thread_count s < MAX_THREADS"
    and t: "thread_rsp t = top16 img (thread_count s) - 56"
      "is_user_mode t \<longrightarrow> kernel_rsp t = stack_top img (thread_count s)"
  defines "f \<equiv> (rip, initial_regs (top16 img (thread_count s)) r12 r13)"
  shows "sched_inv img (spawn f t ss s) \<and> thread_count (spawn f t ss s) = Suc (thread_count s) \<and>
    same_thread (threads (spawn f t ss s) ! thread_count s) t \<and> saved_frame (spawn f t ss s) (thread_count s) = f \<and>
    (\<forall>i<thread_count s. saved_frame (spawn f t ss s) i = saved_frame s i \<and>
       same_thread (threads (spawn f t ss s) ! i) (threads s ! i))"
proof -
  have "thread_rsp t = c_rsp (snd f) - 56" "in_stack img (thread_count s) (thread_rsp t)"
    using t in_stack_initial[OF assms(2,3)] by (simp_all add: initial_words f_def)
  note ok = spawn_ok[OF assms(1,3,2) this t(2), where ss = ss]
  have "thread_count (spawn f t ss s) = Suc (thread_count s)" by (simp add: spawn_def)
  with ok show ?thesis by blast
qed

lemma created_threads:
  "thread_rsp (kernel_thread img i t) = top16 img i - 56" "\<not> is_user_mode (kernel_thread img i t)"
  "thread_status (kernel_thread img i t) = THREAD_RUNNING"
  "thread_rsp (user_thread img i ustack t) = top16 img i - 56" "is_user_mode (user_thread img i ustack t)"
  "kernel_rsp (user_thread img i ustack t) = stack_top img i"
  "thread_status (user_thread img i ustack t) = THREAD_RUNNING"
  by (simp_all add: kernel_thread_def user_thread_def)

text \<open>
  C17. Creating a kernel thread while there is room: the new thread joins the ring as a
  runnable thread, its first switch starts \<open>entry\<close> on its own stack with cleared
  registers, the saved contexts and the states of the other threads are untouched and
  the scheduler invariant is kept.
\<close>

theorem thread_create_starts:
  assumes "sched_inv img s" "stacks_placed img" "thread_count s < MAX_THREADS"
  shows "\<exists>s'. thread_create img entry s = Some s' \<and> sched_inv img s' \<and>
    thread_count s' = Suc (thread_count s) \<and> runnable (threads s') (thread_count s) \<and>
    saved_frame s' (thread_count s) = (entry, initial_regs (stack_top img (thread_count s) AND NOT 0xF) 0 0) \<and>
    (\<forall>i<thread_count s. saved_frame s' i = saved_frame s i \<and> same_thread (threads s' ! i) (threads s ! i))"
proof -
  let ?n = "thread_count s"
  let ?t = "kernel_thread img ?n (threads s ! ?n)"
  show ?thesis
    using spawn_initial[OF assms, of ?t entry 0 0 "the_tss s"]
    unfolding thread_create_eq[OF sched_invD(1)[OF assms(1)] assms(3)]
    by (simp add: created_threads runnable_def same_thread_def)
qed

text \<open>
  C18. Creating a user thread: its first switch enters the trampoline, which takes it to
  user mode. The frame that \<^verbatim>\<open>iretq\<close> pops has the user code and stack selectors of the
  descriptor table, privilege level 3, interrupts enabled, and the entry point and stack
  that the caller gave; interrupts from user mode will use the top of the thread's own
  kernel stack.
\<close>

theorem thread_create_user_enters_ring3:
  assumes "sched_inv img s" "stacks_placed img" "thread_count s < MAX_THREADS"
  shows "\<exists>s' f. thread_create_user img entry ustack s = Some s' \<and> sched_inv img s' \<and>
    thread_count s' = Suc (thread_count s) \<and> runnable (threads s') (thread_count s) \<and>
    is_user_mode (threads s' ! thread_count s) \<and> kernel_rsp (threads s' ! thread_count s) = stack_top img (thread_count s) \<and>
    fst (saved_frame s' (thread_count s)) = usermode_trampoline img \<and>
    run_usermode_trampoline rflags (snd (saved_frame s' (thread_count s))) = f \<and>
    frame_rip f = entry \<and> frame_rsp f = ustack \<and> frame_cs f = ucast USER_CS \<and> frame_ss f = ucast USER_DS \<and>
    frame_cs f AND 3 = 3 \<and> bit (frame_rflags f) 9 \<and>
    (\<forall>i<thread_count s. saved_frame s' i = saved_frame s i \<and> same_thread (threads s' ! i) (threads s ! i))"
proof -
  let ?n = "thread_count s"
  let ?t = "user_thread img ?n ustack (threads s ! ?n)" and ?ss = "(the_tss s)\<lparr>rsp0 := top16 img ?n\<rparr>"
  have regs: "run_usermode_trampoline rflags (initial_regs (top16 img ?n) entry ustack) =
      \<lparr>frame_rip = entry, frame_cs = ucast USER_CS, frame_rflags = rflags OR 0x200, frame_rsp = ustack,
       frame_ss = ucast USER_DS\<rparr>"
    by (simp add: run_usermode_trampoline_def jump_to_usermode_def initial_regs_def USER_CS_def USER_DS_def
        GDT_USER_CODE_def GDT_USER_DATA_def)
  have bits: "(ucast USER_CS AND 3 :: u64) = 3" "bit (rflags OR 0x200 :: u64) 9"
    by (simp_all add: USER_CS_def GDT_USER_CODE_def bit_simps)
  show ?thesis
    using spawn_initial[OF assms, of ?t "usermode_trampoline img" entry ustack ?ss]
    unfolding thread_create_user_eq[OF sched_invD(1)[OF assms(1)] assms(3)]
    using regs bits by (simp add: created_threads runnable_def same_thread_def)
qed

section \<open>Yielding\<close>

lemma context_switch_eq:
  assumes "f = (ra, cpu s)"
  shows "context_switch ra (Some c) p s =
    (fst (frame_at (push_frame f (kstack s)) p),
     s\<lparr>kstack := push_frame f (kstack s), threads := (threads s)[c := (threads s ! c)\<lparr>thread_rsp := c_rsp (cpu s) - 56\<rparr>],
       cpu := snd (frame_at (push_frame f (kstack s)) p)\<rparr>)"
    "context_switch ra None p s =
    (fst (frame_at (push_frame f (kstack s)) p),
     s\<lparr>kstack := push_frame f (kstack s), cpu := snd (frame_at (push_frame f (kstack s)) p)\<rparr>)"
  using push_words_frame[of f "kstack s"] assms
  by (simp_all add: context_switch_def frame_words_def set_thread_def frame_at_def Let_def del: push_words.simps)

definition tss_for :: "Thread \<Rightarrow> tss \<Rightarrow> tss" where
  "tss_for t ss = (if is_user_mode t then ss\<lparr>rsp0 := kernel_rsp t\<rparr> else ss)"

lemma ring_set_thread:
  assumes "ring ts n" "c < n" "thread_next t = thread_next (ts ! c)"
  shows "ring (ts[c := t]) n"
  using assms by (auto simp: ring_def nth_list_update)

text \<open>One switch of contexts, from thread \<open>c\<close> to thread \<open>i\<close>.\<close>

lemma switch_frames:
  fixes img s c i ra
  assumes inv: "sched_inv img s" "stacks_placed img" and c: "c < thread_count s" and i: "i < thread_count s" "i \<noteq> c"
    and room: "in_stack img c (c_rsp (cpu s) - 56)"
  defines "s1 \<equiv> s\<lparr>current := Some i, the_tss := tss_for (threads s ! i) (the_tss s)\<rparr>"
  obtains s' where "context_switch ra (Some c) (thread_rsp (threads s ! i)) s1 = (fst (saved_frame s i), s')"
    "sched_inv img s'" "thread_count s' = thread_count s" "current s' = Some i"
    "cpu s' = snd (saved_frame s i)" "saved_frame s' c = (ra, cpu s)"
    "the_tss s' = tss_for (threads s ! i) (the_tss s)"
    "threads s' = (threads s)[c := (threads s ! c)\<lparr>thread_rsp := c_rsp (cpu s) - 56\<rparr>]"
    "\<And>j. j < thread_count s \<Longrightarrow> j \<noteq> c \<Longrightarrow> saved_frame s' j = saved_frame s j"
proof -
  let ?f = "(ra, cpu s)"
  let ?ts = "(threads s)[c := (threads s ! c)\<lparr>thread_rsp := c_rsp (cpu s) - 56\<rparr>]"
  let ?s = "s1\<lparr>kstack := push_frame ?f (kstack s), threads := ?ts, cpu := snd (saved_frame s i)\<rparr>"
  note t = thread_invD[OF sched_invD(1)[OF inv(1)]]
  have other: "frame_at (push_frame ?f (kstack s)) (thread_rsp (threads s ! j)) = saved_frame s j"
    if "j < thread_count s" "j \<noteq> c" for j
    unfolding saved_frame_def using inv room sched_invD(2)[OF inv(1) that(1)] that c t(3)
    by (intro frame_at_push_other[of img c _ j]) auto
  have len: "c < length (threads s)" using c t by simp
  have nth: "?ts ! j = (if j = c then (threads s ! c)\<lparr>thread_rsp := c_rsp (cpu s) - 56\<rparr> else threads s ! j)" for j
    using len by (simp add: nth_list_update)
  show thesis
  proof (rule that[of ?s])
    show "context_switch ra (Some c) (thread_rsp (threads s ! i)) s1 = (fst (saved_frame s i), ?s)"
      using other[OF i] by (simp add: context_switch_eq[OF refl] s1_def)
    show "sched_inv img ?s"
      using inv(1) room c i ring_set_thread[OF t(2) c, of "(threads s ! c)\<lparr>thread_rsp := c_rsp (cpu s) - 56\<rparr>"]
      by (auto simp: sched_inv_def thread_inv_def s1_def nth)
    show "saved_frame ?s c = ?f"
      using len frame_at_push[of ?f "kstack s"] by (simp add: saved_frame_def)
    show "saved_frame ?s j = saved_frame s j" if "j < thread_count s" "j \<noteq> c" for j
      using other[OF that] that by (simp add: saved_frame_def)
  qed (simp_all add: s1_def)
qed

lemma thread_yield_eq:
  assumes "thread_inv s" "current s = Some c"
  shows "thread_yield ra s =
    (case next_in_order (threads s) (thread_count s) c of
       None \<Rightarrow> Some (Returns, s)
     | Some i \<Rightarrow>
        (let s1 = s\<lparr>current := Some i, the_tss := tss_for (threads s ! i) (the_tss s)\<rparr>
         in if i = c then Some (Returns, s1)
            else case context_switch ra (Some c) (thread_rsp (threads s ! i)) s1 of (rip, s') \<Rightarrow> Some (Resumes rip, s')))"
  using assms thread_invD[OF assms(1)]
  by (auto simp: thread_yield_def find_next_runnable_eq tss_for_def Let_def split: option.splits)

lemma next_in_order_less: "next_in_order ts n c = Some i \<Longrightarrow> c < n \<Longrightarrow> i < n"
  by (erule next_in_order_cases) auto

text \<open>What a yield can change at all, and that it always gives a result.\<close>

definition switched :: "'z thread_state_scheme \<Rightarrow> 'z thread_state_scheme \<Rightarrow> bool" where
  "switched s s' \<longleftrightarrow>
     s' = s\<lparr>current := current s', the_tss := the_tss s', kstack := kstack s', threads := threads s', cpu := cpu s'\<rparr> \<and>
     (\<forall>i. thread_status (threads s' ! i) = thread_status (threads s ! i) \<and>
        waiting_on_port (threads s' ! i) = waiting_on_port (threads s ! i))"

lemma switchedD:
  assumes "switched s s'"
  shows "ports s' = ports s" "message_pool s' = message_pool s" "message_pool_next s' = message_pool_next s"
    "port_count s' = port_count s" "thread_count s' = thread_count s" "thread_list s' = thread_list s"
    "console s' = console s" "phys_mem s' = phys_mem s"
    "thread_status (threads s' ! i) = thread_status (threads s ! i)"
    "waiting_on_port (threads s' ! i) = waiting_on_port (threads s ! i)"
proof -
  have eq: "s' = s\<lparr>current := current s', the_tss := the_tss s', kstack := kstack s', threads := threads s', cpu := cpu s'\<rparr>"
    using assms by (simp add: switched_def)
  show "ports s' = ports s" "message_pool s' = message_pool s" "message_pool_next s' = message_pool_next s"
    "port_count s' = port_count s" "thread_count s' = thread_count s" "thread_list s' = thread_list s"
    "console s' = console s" "phys_mem s' = phys_mem s"
    by (subst eq, simp)+
  show "thread_status (threads s' ! i) = thread_status (threads s ! i)"
    "waiting_on_port (threads s' ! i) = waiting_on_port (threads s ! i)"
    using assms by (simp_all add: switched_def)
qed

lemma thread_yield_total:
  assumes "thread_inv s"
  obtains ctl s' where "thread_yield ra s = Some (ctl, s')" "thread_inv s'" "switched s s'"
    "current s' = (case current s of None \<Rightarrow> None
       | Some c \<Rightarrow> case next_in_order (threads s) (thread_count s) c of None \<Rightarrow> Some c | Some i \<Rightarrow> Some i)"
    "\<And>c. current s = Some c \<Longrightarrow> ctl = Returns \<longleftrightarrow> next_in_order (threads s) (thread_count s) c \<in> {None, Some c}"
proof (cases "current s")
  case None
  with assms show ?thesis by (intro that[of Returns s]) (simp_all add: thread_yield_def switched_def)
next
  case (Some c)
  note t = thread_invD[OF assms]
  have c: "c < thread_count s" using t(4) Some by simp
  show ?thesis
  proof (cases "next_in_order (threads s) (thread_count s) c")
    case None
    with Some assms show ?thesis by (intro that[of Returns s]) (simp_all add: thread_yield_eq switched_def)
  next
    case i: (Some i)
    let ?s1 = "s\<lparr>current := Some i, the_tss := tss_for (threads s ! i) (the_tss s)\<rparr>"
    let ?ts = "(threads s)[c := (threads s ! c)\<lparr>thread_rsp := c_rsp (cpu s) - 56\<rparr>]"
    have lt: "i < thread_count s" by (rule next_in_order_less[OF i c])
    have inv1: "thread_inv ?s1" using assms lt by (simp add: thread_inv_def)
    have nth: "?ts ! j = (if j = c then (threads s ! c)\<lparr>thread_rsp := c_rsp (cpu s) - 56\<rparr> else threads s ! j)" for j
      using c t by (simp add: nth_list_update)
    show ?thesis
    proof (cases "i = c")
      case True
      with Some i inv1 assms show ?thesis
        by (intro that[of Returns ?s1]) (simp_all add: thread_yield_eq switched_def Let_def)
    next
      case False
      obtain rip s' where cs: "context_switch ra (Some c) (thread_rsp (threads s ! i)) ?s1 = (rip, s')"
        by (cases "context_switch ra (Some c) (thread_rsp (threads s ! i)) ?s1")
      then have s': "s' = ?s1\<lparr>kstack := kstack s', threads := ?ts, cpu := cpu s'\<rparr>"
        by (auto simp: context_switch_eq[OF refl])
      have th: "threads s' = ?ts" "current s' = Some i" "the_tss s' = the_tss ?s1" "thread_count s' = thread_count s"
          "thread_list s' = thread_list s" by (subst s', simp)+
      have "thread_inv s'"
        using inv1 th ring_set_thread[OF t(2) c, of "(threads s ! c)\<lparr>thread_rsp := c_rsp (cpu s) - 56\<rparr>"]
        by (simp add: thread_inv_def)
      moreover have "switched s s'"
        unfolding switched_def
      proof
        show "s' = s\<lparr>current := current s', the_tss := the_tss s', kstack := kstack s', threads := threads s', cpu := cpu s'\<rparr>"
          unfolding th by (subst s') simp
        show "\<forall>i. thread_status (threads s' ! i) = thread_status (threads s ! i) \<and>
          waiting_on_port (threads s' ! i) = waiting_on_port (threads s ! i)"
          unfolding th by (simp add: nth)
      qed
      ultimately show ?thesis
        using Some i False cs th assms by (intro that[of "Resumes rip" s']) (simp_all add: thread_yield_eq)
    qed
  qed
qed

text \<open>
  C16. \<^verbatim>\<open>find_next_runnable\<close> ends and is the first runnable thread in cyclic order after
  \<open>start\<close>, \<open>start\<close> itself last; it is null exactly when no thread is runnable.
\<close>

theorem find_next_runnable_cyclic:
  assumes "ring ts n" "start < n"
  shows "find_next_runnable ts start = Some (next_in_order ts n start) \<and>
    (next_in_order ts n start = None \<longleftrightarrow> (\<forall>i<n. \<not> runnable ts i))"
  using find_next_runnable_eq[OF assms] next_in_order_None[OF assms(2)] by blast


section \<open>Starting the scheduler\<close>

text \<open>The boot stack is none of the thread stacks.\<close>

definition off_stacks :: "image \<Rightarrow> u64 \<Rightarrow> bool" where
  "off_stacks img sp \<longleftrightarrow> 56 \<le> unat sp \<and>
     (unat sp \<le> unat (stacks_addr img) \<or> unat (stacks_addr img) + MAX_THREADS * 4096 + 56 \<le> unat sp)"

lemma frame_at_push_boot:
  assumes "off_stacks img (c_rsp (snd f))" "stacks_placed img" "in_stack img j q" "j < MAX_THREADS"
  shows "frame_at (push_frame f m) q = frame_at m q"
proof (rule frame_at_cong, intro allI impI push_frame_other notI)
  fix k l :: nat assume kl: "k < 7" "l < 7"
  let ?sp = "c_rsp (snd f)"
  assume eq: "q + of_nat (8 * k) = ?sp - 56 + of_nat (8 * l)"
  have le: "56 \<le> ?sp" using assms(1) by (simp add: off_stacks_def word_le_nat_alt)
  have "unat (?sp - 56 + of_nat (8 * l)) = unat ?sp - 56 + 8 * l"
    using unat_sub[OF le] le kl(2) unat_less_2p64[of ?sp]
    by (subst unat_add_of_nat64) (auto simp: word_le_nat_alt)
  with eq in_stack_slot[OF assms(3,2,4) kl(1)] have "unat q + 8 * k = unat ?sp - 56 + 8 * l" by simp
  moreover have "Suc j * 4096 \<le> MAX_THREADS * 4096" using assms(4) by simp
  ultimately show False using assms kl by (auto simp: off_stacks_def in_stack_def)
qed

text \<open>
  Starting the scheduler with at least one runnable thread leaves the boot stack for
  good: execution goes on in the saved context of the first runnable thread in cyclic
  order after the head of the list, with the interrupt stack of that thread if it is a
  user thread.
\<close>

theorem scheduler_start_runs:
  assumes "sched_inv img s" "stacks_placed img" "off_stacks img (c_rsp (cpu s))"
    and "j < thread_count s" "runnable (threads s) j"
  shows "\<exists>i s'. next_in_order (threads s) (thread_count s) 0 = Some i \<and> runnable (threads s) i \<and>
    scheduler_start ra s = Some (Resumes (fst (saved_frame s i)), s') \<and> cpu s' = snd (saved_frame s i) \<and>
    current s' = Some i \<and> sched_inv img s' \<and> (\<forall>j<thread_count s. saved_frame s' j = saved_frame s j) \<and>
    (is_user_mode (threads s ! i) \<longrightarrow> rsp0 (the_tss s') = stack_top img i)"
proof -
  note t = sched_invD(1)[OF assms(1)]
  have n: "0 < thread_count s" using assms(4) by simp
  then obtain i where i: "next_in_order (threads s) (thread_count s) 0 = Some i"
    using next_in_order_None[OF n] assms(4,5) by (cases "next_in_order (threads s) (thread_count s) 0") auto
  have r: "i < thread_count s" "runnable (threads s) i"
    using next_in_order_less[OF i n] next_in_order_cases[OF i n] by blast+
  let ?f = "(ra, cpu s)"
  have frames: "frame_at (push_frame ?f (kstack s)) (thread_rsp (threads s ! j)) = saved_frame s j"
    if "j < thread_count s" for j
    unfolding saved_frame_def using that assms(2,3) sched_invD(2)[OF assms(1) that] thread_invD(3)[OF t]
    by (intro frame_at_push_boot[where j = j]) auto
  let ?s = "s\<lparr>current := Some i, the_tss := tss_for (threads s ! i) (the_tss s), kstack := push_frame ?f (kstack s),
      cpu := snd (saved_frame s i)\<rparr>"
  have "scheduler_start ra s = Some (Resumes (fst (saved_frame s i)), ?s)"
    using t n i r frames[OF r(1)] find_next_runnable_eq[OF thread_invD(2)[OF t] n]
    by (simp add: scheduler_start_def thread_inv_def tss_for_def context_switch_eq(2)[OF refl] Let_def)
  moreover have "sched_inv img ?s" using assms(1) r(1) by (simp add: sched_inv_def thread_inv_def)
  moreover have "saved_frame ?s j = saved_frame s j" if "j < thread_count s" for j
    using frames[OF that] by (simp add: saved_frame_def)
  moreover have "is_user_mode (threads s ! i) \<longrightarrow> rsp0 (tss_for (threads s ! i) (the_tss s)) = stack_top img i"
    using sched_invD(3)[OF assms(1) r(1)] by (simp add: tss_for_def)
  ultimately show ?thesis using i r(2) by (intro exI[of _ i] exI[of _ ?s]) simp
qed

section \<open>Concrete inputs\<close>

text \<open>The static variables at power-on, and a state with a kernel thread and a user thread.\<close>

definition bss_vmm :: vmm_state where
  "bss_vmm = pmm_state.extend bss_pmm \<lparr>kas_pml4 = 0, kas_cr3 = 0, tlb_log = []\<rparr>"

definition bss_thread :: Thread where
  "bss_thread = \<lparr>thread_rsp = 0, thread_status = THREAD_RUNNING, waiting_on_port = None, thread_next = None,
     kernel_rsp = 0, user_rsp = 0, is_user_mode = False\<rparr>"

definition bss_threads :: thread_state where
  "bss_threads = vmm_state.extend bss_vmm
     \<lparr>current = None, thread_list = None, threads = replicate 8 bss_thread, thread_count = 0,
      ports = replicate 16 empty_port, port_count = 0,
      message_pool = replicate 64 \<lparr>msg_id = 0, msg_data = [0, 0, 0, 0], msg_next = None\<rparr>, message_pool_next = 0,
      kstack = (\<lambda>_. 0), cpu = initial_regs 0xFFFFFFFF80050000 0 0\<rparr>"

definition example_threads :: thread_state where
  "example_threads = bss_threads\<lparr>current := Some 0, thread_list := Some 0, thread_count := 2,
     threads := bss_thread\<lparr>thread_rsp := 0xFFFFFFFF80030F00, thread_next := Some 1\<rparr>
       # bss_thread\<lparr>thread_rsp := 0xFFFFFFFF80031F00, thread_next := Some 0, kernel_rsp := 0xFFFFFFFF80032000,
           is_user_mode := True\<rparr> # replicate 6 bss_thread\<rparr>"

lemma example_placed: "stacks_placed example_image"
  by (simp add: stacks_placed_def example_image_def MAX_THREADS_def)

lemma bss_fields [simp]:
  "length (threads bss_threads) = 8" "thread_count (thread_init s) = 0" "cpu bss_threads = initial_regs 0xFFFFFFFF80050000 0 0"
  by (simp_all add: bss_threads_def vmm_state.defs thread_init_def)

lemma All_less_2: "(\<forall>i<2::nat. P i) \<longleftrightarrow> P 0 \<and> P 1"
  by (auto simp: less_Suc_eq numeral_2_eq_2)

lemma example_threads_inv: "sched_inv example_image example_threads"
  by (simp add: sched_inv_def thread_inv_def ring_def example_threads_def in_stack_def example_image_def bss_thread_def
      stack_top_def STACK_SIZE_def MAX_THREADS_def All_less_2)

lemma example_next: "next_in_order (threads example_threads) 2 0 = Some 1"
  by (simp add: next_in_order_def example_threads_def runnable_def bss_thread_def upt_rec)

theorem thread_create_starts_witness:
  "\<exists>s'. thread_create example_image 0x1234 (thread_init bss_threads) = Some s' \<and> thread_count s' = 1 \<and>
     saved_frame s' 0 = (0x1234, initial_regs (stack_top example_image 0 AND NOT 0xF) 0 0)"
  using thread_create_starts[OF _ example_placed, where s = "thread_init bss_threads" and entry = "0x1234"]
  by (auto simp: MAX_THREADS_def thread_init_inv)

theorem thread_create_user_enters_ring3_witness:
  "\<exists>s' f. thread_create_user example_image 0x400000 0x800000 example_threads = Some s' \<and> thread_count s' = 3 \<and>
     run_usermode_trampoline 0x2 (snd (saved_frame s' 2)) = f \<and> frame_rip f = 0x400000 \<and> frame_cs f = ucast USER_CS"
proof -
  have "thread_count example_threads = 2" by (simp add: example_threads_def)
  then show ?thesis
    using thread_create_user_enters_ring3[OF example_threads_inv example_placed, where entry = "0x400000" and ustack = "0x800000" and rflags = "2"]
    by (auto simp: MAX_THREADS_def)
qed

theorem find_next_runnable_cyclic_witness:
  "find_next_runnable (threads example_threads) 0 = Some (Some 1)"
proof -
  have "ring (threads example_threads) 2"
    using thread_invD(2)[OF sched_invD(1)[OF example_threads_inv]] by (simp add: example_threads_def)
  from find_next_runnable_cyclic[OF this, of 0] show ?thesis by (simp add: example_next)
qed


theorem scheduler_start_runs_witness:
  "\<exists>s'. scheduler_start 0x5000 example_threads = Some (Resumes 0, s') \<and> current s' = Some 1"
proof -
  have "off_stacks example_image (c_rsp (cpu example_threads))"
    by (simp add: off_stacks_def example_image_def example_threads_def initial_regs_def MAX_THREADS_def)
  moreover have "thread_count example_threads = 2" "runnable (threads example_threads) 0" "fst (saved_frame example_threads 1) = 0"
    by (simp_all add: saved_frame_def frame_at_def example_threads_def bss_threads_def vmm_state.defs runnable_def bss_thread_def)
  ultimately show ?thesis
    using scheduler_start_runs[OF example_threads_inv example_placed, where j = 0 and ra = "0x5000"] by (auto simp: example_next)
qed

end
