(* ===== verification/Ata.thy ===== *)
theory Ata
  imports Serial
begin

text \<open>
  The driver of the primary ATA bus (\<^verbatim>\<open>ata.c\<close>), programmed I/O with polling. The drive is a
  parameter, a \<open>device\<close>. \<open>ata_device\<close> states what the driver relies on of a drive, in terms of
  what it sees on the bus: the busy bit clears and data requests come within the number of
  polls that the driver makes, and the words that follow a read command are those of the
  sectors asked for. A simulated drive shows that such devices exist.

  The buffers that the driver fills are memory behind a kernel pointer or arrays on the
  caller's stack; \<open>ata_read_data\<close> gives the bytes that arrive, in order, and
  \<open>ata_read_sectors\<close> puts them into memory.
\<close>

unbundle bit_operations_syntax

definition ATA_PRIMARY_IO :: u16 where "ATA_PRIMARY_IO = 0x1F0"
definition ATA_PRIMARY_CONTROL :: u16 where "ATA_PRIMARY_CONTROL = 0x3F6"
definition ATA_REG_DATA :: u16 where "ATA_REG_DATA = 0x00"
definition ATA_REG_SECTOR_COUNT :: u16 where "ATA_REG_SECTOR_COUNT = 0x02"
definition ATA_REG_LBA_LOW :: u16 where "ATA_REG_LBA_LOW = 0x03"
definition ATA_REG_LBA_MID :: u16 where "ATA_REG_LBA_MID = 0x04"
definition ATA_REG_LBA_HIGH :: u16 where "ATA_REG_LBA_HIGH = 0x05"
definition ATA_REG_DRIVE_SELECT :: u16 where "ATA_REG_DRIVE_SELECT = 0x06"
definition ATA_REG_COMMAND :: u16 where "ATA_REG_COMMAND = 0x07"
definition ATA_REG_STATUS :: u16 where "ATA_REG_STATUS = 0x07"
definition ATA_CMD_READ_SECTORS :: u8 where "ATA_CMD_READ_SECTORS = 0x20"
definition ATA_CMD_WRITE_SECTORS :: u8 where "ATA_CMD_WRITE_SECTORS = 0x30"
definition ATA_CMD_IDENTIFY :: u8 where "ATA_CMD_IDENTIFY = 0xEC"
definition ATA_STATUS_ERR :: u8 where "ATA_STATUS_ERR = push_bit 0 1"
definition ATA_STATUS_DRQ :: u8 where "ATA_STATUS_DRQ = push_bit 3 1"
definition ATA_STATUS_BSY :: u8 where "ATA_STATUS_BSY = push_bit 7 1"

lemmas ata_regs = ATA_PRIMARY_IO_def ATA_PRIMARY_CONTROL_def ATA_REG_DATA_def ATA_REG_SECTOR_COUNT_def ATA_REG_LBA_LOW_def
  ATA_REG_LBA_MID_def ATA_REG_LBA_HIGH_def ATA_REG_DRIVE_SELECT_def ATA_REG_COMMAND_def ATA_REG_STATUS_def

definition ata_base :: u16 where "ata_base = ATA_PRIMARY_IO"
definition ata_control :: u16 where "ata_control = ATA_PRIMARY_CONTROL"

section \<open>The driver\<close>

primrec inw_rep :: "device \<Rightarrow> u16 \<Rightarrow> nat \<Rightarrow> 'z machine_scheme \<Rightarrow> u16 list \<times> 'z machine_scheme" where
  "inw_rep dev port 0 s = ([], s)"
| "inw_rep dev port (Suc n) s =
     (let w = dev_insw dev (io_log s) port;
          (ws, s') = inw_rep dev port n (s\<lparr>io_log := Insw port w # io_log s\<rparr>)
      in (w # ws, s'))"

primrec outw_rep :: "u16 \<Rightarrow> u16 list \<Rightarrow> 'z machine_scheme \<Rightarrow> 'z machine_scheme" where
  "outw_rep port [] s = s"
| "outw_rep port (w # ws) s = outw_rep port ws (s\<lparr>io_log := Outsw port w # io_log s\<rparr>)"

definition POLLS :: nat where "POLLS = 1000000"

primrec wait_bsy_loop :: "device \<Rightarrow> nat \<Rightarrow> 'z machine_scheme \<Rightarrow> int \<times> 'z machine_scheme" where
  "wait_bsy_loop dev 0 s = (- 1, serial_print ''ATA: Timeout waiting for BSY to clear\<newline>'' s)"
| "wait_bsy_loop dev (Suc n) s =
     (let (status, s1) = inb dev (ata_base + ATA_REG_STATUS) s
      in if status AND ATA_STATUS_BSY = 0 then (0, s1) else wait_bsy_loop dev n s1)"

definition ata_wait_bsy :: "device \<Rightarrow> 'z machine_scheme \<Rightarrow> int \<times> 'z machine_scheme" where
  "ata_wait_bsy dev s = wait_bsy_loop dev POLLS s"

primrec wait_drq_loop :: "device \<Rightarrow> nat \<Rightarrow> 'z machine_scheme \<Rightarrow> int \<times> 'z machine_scheme" where
  "wait_drq_loop dev 0 s = (- 1, serial_print ''ATA: Timeout waiting for DRQ\<newline>'' s)"
| "wait_drq_loop dev (Suc n) s =
     (let (status, s1) = inb dev (ata_base + ATA_REG_STATUS) s
      in if status AND ATA_STATUS_DRQ \<noteq> 0 then (0, s1)
         else if status AND ATA_STATUS_ERR \<noteq> 0 then (- 1, serial_print ''ATA: Error bit set\<newline>'' s1)
         else wait_drq_loop dev n s1)"

definition ata_wait_drq :: "device \<Rightarrow> 'z machine_scheme \<Rightarrow> int \<times> 'z machine_scheme" where
  "ata_wait_drq dev s = wait_drq_loop dev POLLS s"

definition ata_init :: "device \<Rightarrow> 'z machine_scheme \<Rightarrow> 'z machine_scheme" where
  "ata_init dev s =
     (let s1 = serial_print ''ATA: Initializing primary bus...\<newline>'' s;
          s2 = outb (ata_base + ATA_REG_COMMAND) 0xA0 s1;
          s3 = fold (\<lambda>i s. snd (inb dev ata_control s)) [0..<4] s2;
          s4 = outb (ata_base + ATA_REG_COMMAND) ATA_CMD_IDENTIFY s3;
          (r, s5) = ata_wait_bsy dev s4
      in if r \<noteq> 0 then serial_print ''ATA: No drive detected or timeout\<newline>'' s5
         else let (status, s6) = inb dev (ata_base + ATA_REG_STATUS) s5
              in if status = 0 then serial_print ''ATA: No drive present\<newline>'' s6
                 else let (r, s7) = ata_wait_drq dev s6
                      in if r \<noteq> 0 then serial_print ''ATA: Drive not ready\<newline>'' s7
                         else let (identify_data, s8) = inw_rep dev (ata_base + ATA_REG_DATA) 256 s7
                              in serial_print ''ATA: Initialziation complete\<newline>''
                                   (serial_print ''ATA: Primary master drive detected\<newline>'' s8))"

text \<open>The registers that select the sectors, and the command.\<close>

definition ata_command :: "u8 \<Rightarrow> u32 \<Rightarrow> u8 \<Rightarrow> u8 \<Rightarrow> 'z machine_scheme \<Rightarrow> 'z machine_scheme" where
  "ata_command drive lba count cmd s =
     (let drive_select = (if drive = 0 then 0xE0 else 0xF0) OR ucast (drop_bit 24 lba AND 0x0F);
          s1 = outb (ata_base + ATA_REG_DRIVE_SELECT) drive_select s;
          s2 = outb (ata_base + ATA_REG_SECTOR_COUNT) count s1;
          s3 = outb (ata_base + ATA_REG_LBA_LOW) (ucast (lba AND 0xFF)) s2;
          s4 = outb (ata_base + ATA_REG_LBA_MID) (ucast (drop_bit 8 lba AND 0xFF)) s3;
          s5 = outb (ata_base + ATA_REG_LBA_HIGH) (ucast (drop_bit 16 lba AND 0xFF)) s4
      in outb (ata_base + ATA_REG_COMMAND) cmd s5)"

definition word_bytes :: "u16 list \<Rightarrow> u8 list" where
  "word_bytes ws = concat (map (bytes_le 2) ws)"

text \<open>The loop over the sectors: \<open>n\<close> are left, \<open>i\<close> are done.\<close>

primrec read_loop :: "device \<Rightarrow> nat \<Rightarrow> nat \<Rightarrow> 'z machine_scheme \<Rightarrow> int \<times> u8 list \<times> 'z machine_scheme" where
  "read_loop dev 0 i s = (0, [], s)"
| "read_loop dev (Suc n) i s =
     (let (r, s1) = ata_wait_drq dev s
      in if r \<noteq> 0
         then (- 1, [], serial_print ''\<newline>'' (serial_print_dec (of_nat i) (serial_print ''ATA: Failed to read sector '' s1)))
         else let (ws, s2) = inw_rep dev (ata_base + ATA_REG_DATA) 256 s1;
                  (r, bs, s3) = read_loop dev n (i + 1) s2
              in (r, word_bytes ws @ bs, s3))"

definition ata_read_data :: "device \<Rightarrow> u8 \<Rightarrow> u32 \<Rightarrow> u8 \<Rightarrow> 'z machine_scheme \<Rightarrow> int \<times> u8 list \<times> 'z machine_scheme" where
  "ata_read_data dev drive lba count s =
     (if drive > 1 then (- 1, [], serial_print ''ATA: Invalid drive number\<newline>'' s)
      else if count = 0 then (- 1, [], serial_print ''ATA: Invalid sector count (0)\<newline>'' s)
      else let (r, s1) = ata_wait_bsy dev s
           in if r \<noteq> 0 then (- 1, [], s1)
              else read_loop dev (unat count) 0 (ata_command drive lba count ATA_CMD_READ_SECTORS s1))"

definition ata_read_sectors :: "device \<Rightarrow> u8 \<Rightarrow> u32 \<Rightarrow> u8 \<Rightarrow> u64 \<Rightarrow> 'z machine_scheme \<Rightarrow> int \<times> 'z machine_scheme" where
  "ata_read_sectors dev drive lba count buffer s =
     (let (r, bs, s') = ata_read_data dev drive lba count s
      in (r, s'\<lparr>phys_mem := kcopy (hhdm_offset s') (phys_mem s') buffer bs\<rparr>))"

primrec write_loop :: "device \<Rightarrow> nat \<Rightarrow> u16 list \<Rightarrow> 'z machine_scheme \<Rightarrow> int \<times> 'z machine_scheme" where
  "write_loop dev 0 buf s = (0, s)"
| "write_loop dev (Suc n) buf s =
     (let (r, s1) = ata_wait_drq dev s
      in if r \<noteq> 0 then (- 1, s1)
         else write_loop dev n (drop 256 buf) (outw_rep (ata_base + ATA_REG_DATA) (take 256 buf) s1))"

definition buffer_words :: "u64 \<Rightarrow> nat \<Rightarrow> 'z machine_scheme \<Rightarrow> u16 list" where
  "buffer_words buffer n s =
     map (\<lambda>i. word_of_bytes (map (\<lambda>j. phys_mem s (kptr (hhdm_offset s) (buffer + of_nat (2 * i + j)))) [0..<2])) [0..<n]"

definition ata_write_sectors :: "device \<Rightarrow> u8 \<Rightarrow> u32 \<Rightarrow> u8 \<Rightarrow> u64 \<Rightarrow> 'z machine_scheme \<Rightarrow> int \<times> 'z machine_scheme" where
  "ata_write_sectors dev drive lba count buffer s =
     (if drive > 1 then (- 1, s)
      else if count = 0 then (- 1, s)
      else let (r, s1) = ata_wait_bsy dev s
           in if r \<noteq> 0 then (- 1, s1)
              else write_loop dev (unat count) (buffer_words buffer (256 * unat count) s)
                     (ata_command drive lba count ATA_CMD_WRITE_SECTORS s1))"

section \<open>What the driver relies on\<close>

text \<open>The bus after \<open>i\<close> reads of the status register, and what the next one returns.\<close>

abbreviation status_port :: u16 where "status_port \<equiv> 0x1F7"
abbreviation data_port :: u16 where "data_port \<equiv> 0x1F0"

primrec poll_log :: "device \<Rightarrow> io_event list \<Rightarrow> nat \<Rightarrow> io_event list" where
  "poll_log dev log 0 = log"
| "poll_log dev log (Suc i) = Inb status_port (dev_inb dev (poll_log dev log i) status_port) # poll_log dev log i"

definition status_at :: "device \<Rightarrow> io_event list \<Rightarrow> nat \<Rightarrow> u8" where
  "status_at dev log i = dev_inb dev (poll_log dev log i) status_port"

text \<open>Events of a data transfer after a command, and the number of words read so far.\<close>

definition transfer :: "io_event list \<Rightarrow> bool" where
  "transfer xs = list_all (\<lambda>e. case e of Inb p v \<Rightarrow> p = status_port | Insw p w \<Rightarrow> p = data_port | _ \<Rightarrow> False) xs"

definition words_read :: "io_event list \<Rightarrow> nat" where
  "words_read xs = length (filter (\<lambda>e. case e of Insw p w \<Rightarrow> True | _ \<Rightarrow> False) xs)"

text \<open>The command as it appears on the bus, newest event first.\<close>

definition command_events :: "u32 \<Rightarrow> u8 \<Rightarrow> u8 \<Rightarrow> io_event list" where
  "command_events lba count cmd =
     [Outb 0x1F7 cmd, Outb 0x1F5 (ucast (drop_bit 16 lba)), Outb 0x1F4 (ucast (drop_bit 8 lba)), Outb 0x1F3 (ucast lba),
      Outb 0x1F2 count, Outb 0x1F6 (0xE0 OR ucast (drop_bit 24 lba AND 0x0F))]"

definition sector_of :: "u32 \<Rightarrow> nat" where
  "sector_of lba = unat (lba AND 0x0FFFFFFF)"

definition disk_word :: "(nat \<Rightarrow> u8) \<Rightarrow> nat \<Rightarrow> nat \<Rightarrow> u16" where
  "disk_word disk sector n = word_of_bytes [disk (512 * sector + 2 * n), disk (512 * sector + 2 * n + 1)]"

definition ata_device :: "device \<Rightarrow> (nat \<Rightarrow> u8) \<Rightarrow> bool" where
  "ata_device dev disk \<longleftrightarrow>
     (\<forall>log. \<exists>k<POLLS. (\<forall>i<k. bit (status_at dev log i) 7) \<and> \<not> bit (status_at dev log k) 7) \<and>
     (\<forall>lba count log xs. transfer xs \<and> words_read xs < 256 * unat count \<longrightarrow>
        (let l = xs @ command_events lba count ATA_CMD_READ_SECTORS @ log in
         dev_insw dev l data_port = disk_word disk (sector_of lba) (words_read xs) \<and>
         (256 dvd words_read xs \<longrightarrow>
            (\<exists>k<POLLS. (\<forall>i<k. \<not> bit (status_at dev l i) 3 \<and> \<not> bit (status_at dev l i) 0) \<and> bit (status_at dev l k) 3))))"

section \<open>Polling\<close>

lemma bit_masks:
  "(w :: u8) AND ATA_STATUS_BSY = 0 \<longleftrightarrow> \<not> bit w 7" "(w :: u8) AND ATA_STATUS_DRQ = 0 \<longleftrightarrow> \<not> bit w 3"
  "(w :: u8) AND ATA_STATUS_ERR = 0 \<longleftrightarrow> \<not> bit w 0"
  using and_exp_eq_0_iff_not_bit[of w 7] and_exp_eq_0_iff_not_bit[of w 3] and_exp_eq_0_iff_not_bit[of w 0]
  by (simp_all add: ATA_STATUS_BSY_def ATA_STATUS_DRQ_def ATA_STATUS_ERR_def)

lemma status_reg [simp]: "ata_base + ATA_REG_STATUS = status_port" "ata_base + ATA_REG_DATA = data_port"
  by (simp_all add: ata_base_def ata_regs)

lemma poll_log_Suc: "poll_log dev (Inb status_port (dev_inb dev log status_port) # log) i = poll_log dev log (Suc i)"
  by (induction i) simp_all

lemma status_at_Suc: "status_at dev (Inb status_port (dev_inb dev log status_port) # log) i = status_at dev log (Suc i)"
  by (simp add: status_at_def poll_log_Suc)

lemma wait_bsy_ok:
  assumes "k < n" "\<forall>i<k. bit (status_at dev (io_log s) i) 7" "\<not> bit (status_at dev (io_log s) k) 7"
  shows "wait_bsy_loop dev n s = (0, s\<lparr>io_log := poll_log dev (io_log s) (Suc k)\<rparr>)"
  using assms
proof (induction n arbitrary: k s)
  case (Suc n)
  let ?v = "dev_inb dev (io_log s) status_port"
  let ?s = "s\<lparr>io_log := Inb status_port ?v # io_log s\<rparr>"
  show ?case
  proof (cases k)
    case 0
    with Suc.prems show ?thesis by (simp add: inb_def Let_def bit_masks status_at_def)
  next
    case (Suc j)
    have first: "bit ?v 7" using Suc.prems(2) Suc by (force simp: status_at_def)
    have rest: "\<forall>i<j. bit (status_at dev (io_log ?s) i) 7"
      using Suc.prems(2) Suc by (simp add: status_at_Suc)
    have "wait_bsy_loop dev n ?s = (0, ?s\<lparr>io_log := poll_log dev (io_log ?s) (Suc j)\<rparr>)"
      by (rule Suc.IH[OF _ rest]) (use Suc.prems Suc in \<open>simp_all add: status_at_Suc\<close>)
    moreover have "poll_log dev (io_log ?s) (Suc j) = poll_log dev (io_log s) (Suc k)"
      by (simp only: Suc poll_log_Suc machine.select_convs machine.update_convs) (simp add: poll_log_Suc)
    ultimately show ?thesis using first by (simp add: inb_def Let_def bit_masks)
  qed
qed simp

lemma wait_drq_ok:
  assumes "k < n" "\<forall>i<k. \<not> bit (status_at dev (io_log s) i) 3 \<and> \<not> bit (status_at dev (io_log s) i) 0"
    "bit (status_at dev (io_log s) k) 3"
  shows "wait_drq_loop dev n s = (0, s\<lparr>io_log := poll_log dev (io_log s) (Suc k)\<rparr>)"
  using assms
proof (induction n arbitrary: k s)
  case (Suc n)
  let ?v = "dev_inb dev (io_log s) status_port"
  let ?s = "s\<lparr>io_log := Inb status_port ?v # io_log s\<rparr>"
  show ?case
  proof (cases k)
    case 0
    with Suc.prems show ?thesis by (simp add: inb_def Let_def bit_masks status_at_def)
  next
    case (Suc j)
    have first: "\<not> bit ?v 3" "\<not> bit ?v 0" using Suc.prems(2) Suc by (force simp: status_at_def)+
    have rest: "\<forall>i<j. \<not> bit (status_at dev (io_log ?s) i) 3 \<and> \<not> bit (status_at dev (io_log ?s) i) 0"
      using Suc.prems(2) Suc by (simp add: status_at_Suc)
    have "wait_drq_loop dev n ?s = (0, ?s\<lparr>io_log := poll_log dev (io_log ?s) (Suc j)\<rparr>)"
      by (rule Suc.IH[OF _ rest]) (use Suc.prems Suc in \<open>simp_all add: status_at_Suc\<close>)
    moreover have "poll_log dev (io_log ?s) (Suc j) = poll_log dev (io_log s) (Suc k)"
      using poll_log_Suc[of dev "io_log s" "Suc j"] Suc by simp
    ultimately show ?thesis using first by (simp add: inb_def Let_def bit_masks)
  qed
qed simp

lemma poll_log_append: "\<exists>ps. poll_log dev log n = ps @ log \<and> transfer ps \<and> words_read ps = 0"
proof (induction n)
  case (Suc n)
  then obtain ps where "poll_log dev log n = ps @ log" "transfer ps" "words_read ps = 0" by blast
  then show ?case
    by (intro exI[of _ "Inb status_port (dev_inb dev (poll_log dev log n) status_port) # ps"])
       (simp add: transfer_def words_read_def)
qed (simp add: transfer_def words_read_def)

lemma transfer_append [simp]: "transfer (xs @ ys) \<longleftrightarrow> transfer xs \<and> transfer ys" "words_read (xs @ ys) = words_read xs + words_read ys"
  by (simp_all add: transfer_def words_read_def)

section \<open>Transfers\<close>

lemma ata_device_word:
  assumes "ata_device dev disk" "transfer xs" "words_read xs < 256 * unat count"
  shows "dev_insw dev (xs @ command_events lba count ATA_CMD_READ_SECTORS @ log) data_port =
    disk_word disk (sector_of lba) (words_read xs)"
  using assms unfolding ata_device_def Let_def by blast

lemma ata_device_drq:
  assumes "ata_device dev disk" "transfer xs" "words_read xs < 256 * unat count" "256 dvd words_read xs"
    "io_log s = xs @ command_events lba count ATA_CMD_READ_SECTORS @ log"
  obtains ps where "ata_wait_drq dev s = (0, s\<lparr>io_log := ps @ io_log s\<rparr>)" "transfer ps" "words_read ps = 0"
proof -
  obtain k where k: "k < POLLS" "\<forall>i<k. \<not> bit (status_at dev (io_log s) i) 3 \<and> \<not> bit (status_at dev (io_log s) i) 0"
      "bit (status_at dev (io_log s) k) 3"
    using assms unfolding ata_device_def Let_def by metis
  obtain ps where "poll_log dev (io_log s) (Suc k) = ps @ io_log s" "transfer ps" "words_read ps = 0"
    using poll_log_append by blast
  with wait_drq_ok[OF k] that show thesis unfolding ata_wait_drq_def by simp
qed

lemma ata_device_bsy:
  assumes "ata_device dev disk"
  obtains ps where "ata_wait_bsy dev s = (0, s\<lparr>io_log := ps @ io_log s\<rparr>)"
proof -
  obtain k where k: "k < POLLS" "\<forall>i<k. bit (status_at dev (io_log s) i) 7" "\<not> bit (status_at dev (io_log s) k) 7"
    using assms unfolding ata_device_def by blast
  obtain ps where "poll_log dev (io_log s) (Suc k) = ps @ io_log s" using poll_log_append by blast
  with wait_bsy_ok[OF k] that show thesis unfolding ata_wait_bsy_def by simp
qed

lemma inw_rep_device:
  assumes dev: "ata_device dev disk"
    and "transfer xs" "words_read xs + n \<le> 256 * unat count"
    and "io_log s = xs @ command_events lba count ATA_CMD_READ_SECTORS @ log"
  shows "\<exists>ps. inw_rep dev data_port n s =
      (map (disk_word disk (sector_of lba)) [words_read xs..<words_read xs + n], s\<lparr>io_log := ps @ io_log s\<rparr>) \<and>
    transfer ps \<and> words_read ps = n"
  using assms(2-)
proof (induction n arbitrary: xs s)
  case 0
  then show ?case by (intro exI[of _ "[]"]) (simp add: transfer_def words_read_def)
next
  case (Suc n)
  let ?w = "disk_word disk (sector_of lba) (words_read xs)"
  let ?e = "Insw data_port ?w"
  let ?s = "s\<lparr>io_log := ?e # io_log s\<rparr>"
  have w: "dev_insw dev (io_log s) data_port = ?w"
    using ata_device_word[OF dev Suc.prems(1), of count lba log] Suc.prems by simp
  have xs: "transfer (?e # xs)" "words_read (?e # xs) = Suc (words_read xs)"
    using Suc.prems(1) by (simp_all add: transfer_def words_read_def)
  obtain ps where ps: "inw_rep dev data_port n ?s =
      (map (disk_word disk (sector_of lba)) [words_read (?e # xs)..<words_read (?e # xs) + n], ?s\<lparr>io_log := ps @ io_log ?s\<rparr>)"
      "transfer ps" "words_read ps = n"
    using Suc.IH[of "?e # xs" ?s] xs Suc.prems by auto
  have one: "transfer [?e]" "words_read [?e] = 1" by (simp_all add: transfer_def words_read_def)
  have up: "[words_read xs..<words_read xs + Suc n] = words_read xs # [Suc (words_read xs)..<Suc (words_read xs) + n]"
    by (simp add: upt_conv_Cons del: upt_Suc)
  show ?case
    unfolding up by (intro exI[of _ "ps @ [?e]"]) (use w ps xs(2) one in \<open>simp add: Let_def del: upt_Suc\<close>)
qed

lemma ata_command_log:
  "ata_command 0 lba count cmd s = s\<lparr>io_log := command_events lba count cmd @ io_log s\<rparr>"
  by (simp add: ata_command_def command_events_def ata_base_def ata_regs Let_def layout_simps)

lemma bytes_le_disk_word: "bytes_le 2 (disk_word disk sector n) = [disk (512 * sector + 2 * n), disk (512 * sector + 2 * n + 1)]"
proof -
  have lo: "(ucast (ucast a OR push_bit 8 (ucast b) :: u16) :: u8) = a" for a b :: u8
    by (rule bit_word_eqI) (simp add: bit_simps)
  have hi: "(ucast (drop_bit 8 (ucast a OR push_bit 8 (ucast b) :: u16)) :: u8) = b" for a b :: u8
    by (rule bit_word_eqI) (auto simp: bit_simps dest: bit_imp_le_length)
  have "bytes_le 2 w = [ucast w, ucast (drop_bit 8 w)]" for w :: u16 by (simp add: numeral_2_eq_2)
  then show ?thesis using lo hi unfolding disk_word_def by simp
qed

definition disk_bytes :: "(nat \<Rightarrow> u8) \<Rightarrow> nat \<Rightarrow> nat \<Rightarrow> u8 list" where
  "disk_bytes disk a n = map disk [a..<a + n]"

lemma disk_bytes_append: "disk_bytes disk a (m + n) = disk_bytes disk a m @ disk_bytes disk (a + m) n"
  using upt_add_eq_append[of a "a + m" n] by (simp add: disk_bytes_def add.assoc)

lemma word_bytes_disk: "word_bytes (map (disk_word disk sector) [a..<a + n]) = disk_bytes disk (512 * sector + 2 * a) (2 * n)"
proof (induction n)
  case (Suc n)
  have "disk_bytes disk (512 * sector + 2 * a) (2 * Suc n) =
      disk_bytes disk (512 * sector + 2 * a) (2 * n) @ disk_bytes disk (512 * sector + 2 * (a + n)) 2"
    using disk_bytes_append[of disk "512 * sector + 2 * a" "2 * n" 2] by (simp add: algebra_simps)
  moreover have "disk_bytes disk b 2 = [disk b, disk (b + 1)]" for b
    by (simp add: disk_bytes_def upt_rec)
  ultimately show ?case using Suc by (simp add: word_bytes_def bytes_le_disk_word)
qed (simp add: word_bytes_def disk_bytes_def)

lemma read_loop_device:
  assumes dev: "ata_device dev disk"
    and "transfer xs" "words_read xs = 256 * i" "i + n \<le> unat count"
    and "io_log s = xs @ command_events lba count ATA_CMD_READ_SECTORS @ log"
  shows "\<exists>ps. read_loop dev n i s =
    (0, disk_bytes disk (512 * (sector_of lba + i)) (512 * n), s\<lparr>io_log := ps @ io_log s\<rparr>)"
  using assms(2-)
proof (induction n arbitrary: i xs s)
  case 0
  then show ?case by (intro exI[of _ "[]"]) (simp add: disk_bytes_def)
next
  case (Suc n)
  obtain ps where ps: "ata_wait_drq dev s = (0, s\<lparr>io_log := ps @ io_log s\<rparr>)" "transfer ps" "words_read ps = 0"
    by (rule ata_device_drq[OF dev Suc.prems(1) _ _ Suc.prems(4)]) (use Suc.prems in simp_all)
  let ?s1 = "s\<lparr>io_log := ps @ io_log s\<rparr>"
  have xs1: "transfer (ps @ xs)" "words_read (ps @ xs) = 256 * i" using ps Suc.prems by simp_all
  obtain qs where qs: "inw_rep dev data_port 256 ?s1 =
      (map (disk_word disk (sector_of lba)) [256 * i..<256 * i + 256], ?s1\<lparr>io_log := qs @ io_log ?s1\<rparr>)"
      "transfer qs" "words_read qs = 256"
    using inw_rep_device[OF dev xs1(1), of 256 count ?s1 lba log] xs1(2) Suc.prems by auto
  let ?s2 = "s\<lparr>io_log := qs @ ps @ io_log s\<rparr>"
  have "transfer (qs @ ps @ xs)" "words_read (qs @ ps @ xs) = 256 * (i + 1)" "i + 1 + n \<le> unat count"
      "io_log ?s2 = (qs @ ps @ xs) @ command_events lba count ATA_CMD_READ_SECTORS @ log"
    using ps qs Suc.prems by simp_all
  from Suc.IH[OF this] obtain rs where rs: "read_loop dev n (i + 1) ?s2 =
      (0, disk_bytes disk (512 * (sector_of lba + (i + 1))) (512 * n), ?s2\<lparr>io_log := rs @ io_log ?s2\<rparr>)" by blast
  have bytes: "word_bytes (map (disk_word disk (sector_of lba)) [256 * i..<256 * i + 256]) @
      disk_bytes disk (512 * (sector_of lba + (i + 1))) (512 * n) = disk_bytes disk (512 * (sector_of lba + i)) (512 * Suc n)"
    using disk_bytes_append[of disk "512 * (sector_of lba + i)" 512 "512 * n"] word_bytes_disk[of disk "sector_of lba" "256 * i" 256]
    by (simp add: algebra_simps)
  show ?case
    by (intro exI[of _ "rs @ qs @ ps"]) (use ps(1) qs(1) rs bytes in \<open>simp add: Let_def\<close>)
qed

lemma read_data_device:
  assumes "ata_device dev disk" "count \<noteq> 0"
  shows "\<exists>log. ata_read_data dev 0 lba count s =
    (0, disk_bytes disk (512 * sector_of lba) (512 * unat count), s\<lparr>io_log := log @ io_log s\<rparr>)"
proof -
  obtain ps where ps: "ata_wait_bsy dev s = (0, s\<lparr>io_log := ps @ io_log s\<rparr>)" by (rule ata_device_bsy[OF assms(1)])
  let ?s = "s\<lparr>io_log := command_events lba count ATA_CMD_READ_SECTORS @ ps @ io_log s\<rparr>"
  obtain qs where "read_loop dev (unat count) 0 ?s =
      (0, disk_bytes disk (512 * (sector_of lba + 0)) (512 * unat count), ?s\<lparr>io_log := qs @ io_log ?s\<rparr>)"
    using read_loop_device[OF assms(1), of "[]" 0 "unat count" count ?s lba "ps @ io_log s"]
    by (auto simp: transfer_def words_read_def)
  with ps assms(2) show ?thesis
    by (intro exI[of _ "qs @ command_events lba count ATA_CMD_READ_SECTORS @ ps"])
       (simp add: ata_read_data_def ata_command_log)
qed

text \<open>
  C25. With a drive that answers as the driver expects, reading \<open>count\<close> sectors returns success
  and delivers exactly the bytes of those sectors, in order; nothing but the bus is
  touched. The sector number is taken modulo \<open>2\<^sup>28\<close>, all that the command carries.
\<close>

theorem ata_read_data_correct:
  assumes "ata_device dev disk" "count \<noteq> 0"
  shows "\<exists>log. ata_read_data dev 0 lba count s =
    (0, disk_bytes disk (512 * sector_of lba) (512 * unat count), s\<lparr>io_log := log @ io_log s\<rparr>)"
  using assms by (rule read_data_device)

section \<open>Arbitrary drives\<close>

text \<open>States that differ in bus history and console only, with at most \<open>n\<close> new bus events.\<close>

definition bus_only :: "nat \<Rightarrow> 'z machine_scheme \<Rightarrow> 'z machine_scheme \<Rightarrow> bool" where
  "bus_only n s s' \<longleftrightarrow> s' = s\<lparr>io_log := io_log s', console := console s'\<rparr> \<and>
     (\<exists>es. io_log s' = es @ io_log s \<and> length es \<le> n)"

lemma bus_only_refl: "bus_only 0 s s"
  by (simp add: bus_only_def)

lemma bus_only_trans:
  assumes "bus_only m s s1" "bus_only n s1 s2"
  shows "bus_only (m + n) s s2"
proof -
  have "s2 = (s\<lparr>io_log := io_log s1, console := console s1\<rparr>)\<lparr>io_log := io_log s2, console := console s2\<rparr>"
    using assms unfolding bus_only_def by metis
  then have "s2 = s\<lparr>io_log := io_log s2, console := console s2\<rparr>" by simp
  moreover obtain es fs where "io_log s1 = es @ io_log s" "length es \<le> m" "io_log s2 = fs @ io_log s1" "length fs \<le> n"
    using assms unfolding bus_only_def by blast
  ultimately show ?thesis unfolding bus_only_def by (intro conjI exI[of _ "fs @ es"]) simp_all
qed

lemma bus_only_mono: "bus_only m s s' \<Longrightarrow> m \<le> n \<Longrightarrow> bus_only n s s'"
  by (auto simp: bus_only_def)

lemma bus_only_event: "bus_only 1 s (s\<lparr>io_log := e # io_log s\<rparr>)"
  by (simp add: bus_only_def)

lemma bus_only_print: "bus_only 0 s (s\<lparr>console := x\<rparr>)"
  by (simp add: bus_only_def)

lemma wait_bsy_any: "fst (wait_bsy_loop dev n s) \<in> {0, - 1} \<and> bus_only n s (snd (wait_bsy_loop dev n s))"
proof (induction n arbitrary: s)
  case (Suc n)
  let ?s = "s\<lparr>io_log := Inb status_port (dev_inb dev (io_log s) status_port) # io_log s\<rparr>"
  have "bus_only (1 + n) s (snd (wait_bsy_loop dev n ?s))"
    using bus_only_trans[OF bus_only_event] Suc by blast
  then show ?case
    using Suc[of ?s] bus_only_mono[OF bus_only_event, of "Suc n" s] by (simp add: inb_def Let_def)
qed (simp add: bus_only_print)

lemma wait_drq_any: "fst (wait_drq_loop dev n s) \<in> {0, - 1} \<and> bus_only n s (snd (wait_drq_loop dev n s))"
proof (induction n arbitrary: s)
  case (Suc n)
  let ?s = "s\<lparr>io_log := Inb status_port (dev_inb dev (io_log s) status_port) # io_log s\<rparr>"
  have "bus_only (1 + n) s (snd (wait_drq_loop dev n ?s))"
    using bus_only_trans[OF bus_only_event] Suc by blast
  moreover have "bus_only (1 + 0) s (?s\<lparr>console := x\<rparr>)" for x
    by (rule bus_only_trans[OF bus_only_event bus_only_print])
  ultimately show ?case
    using Suc[of ?s] bus_only_mono[of 1 s _ "Suc n"] bus_only_event[of s] by (simp add: inb_def Let_def)
qed (simp add: bus_only_print)

lemma inw_rep_any: "length (fst (inw_rep dev p n s)) = n \<and> bus_only n s (snd (inw_rep dev p n s))"
proof (induction n arbitrary: s)
  case (Suc n)
  show ?case using Suc bus_only_trans[OF bus_only_event] by (force simp: Let_def case_prod_unfold)
qed (simp add: bus_only_refl)

lemma ata_command_any: "bus_only 6 s (ata_command drive lba count cmd s)"
  by (simp add: ata_command_def Let_def bus_only_def)

lemma length_word_bytes: "length (word_bytes ws) = 2 * length ws"
  by (induction ws) (simp_all add: word_bytes_def)

lemma read_loop_any:
  "\<exists>k\<le>n. length (fst (snd (read_loop dev n i s))) = 512 * k \<and>
     fst (read_loop dev n i s) = (if k = n then 0 else - 1) \<and>
     bus_only (n * (POLLS + 256)) s (snd (snd (read_loop dev n i s)))"
proof (induction n arbitrary: i s)
  case (Suc n)
  obtain r s1 where w: "ata_wait_drq dev s = (r, s1)" by (cases "ata_wait_drq dev s")
  have r: "r \<in> {0, - 1}" and b1: "bus_only POLLS s s1" using wait_drq_any[of dev POLLS s] w by (auto simp: ata_wait_drq_def)
  show ?case
  proof (cases "r = 0")
    case False
    have "bus_only (POLLS + 0) s (s1\<lparr>console := x\<rparr>)" for x by (rule bus_only_trans[OF b1 bus_only_print])
    then have "bus_only (Suc n * (POLLS + 256)) s (s1\<lparr>console := x\<rparr>)" for x by (rule bus_only_mono) simp
    then show ?thesis using w False by (intro exI[of _ 0]) (simp add: serial_print_dec_def Let_def case_prod_unfold)
  next
    case True
    obtain ws s2 where i: "inw_rep dev data_port 256 s1 = (ws, s2)" by (cases "inw_rep dev data_port 256 s1")
    have l: "length ws = 256" and b2: "bus_only 256 s1 s2" using inw_rep_any[of dev data_port 256 s1] i by simp_all
    from Suc[of "i + 1" s2] obtain k where k: "k \<le> n" "length (fst (snd (read_loop dev n (i + 1) s2))) = 512 * k"
        "fst (read_loop dev n (i + 1) s2) = (if k = n then 0 else - 1)"
        "bus_only (n * (POLLS + 256)) s2 (snd (snd (read_loop dev n (i + 1) s2)))" by blast
    have "bus_only (POLLS + 256 + n * (POLLS + 256)) s (snd (snd (read_loop dev n (i + 1) s2)))"
      using bus_only_trans[OF bus_only_trans[OF b1 b2] k(4)] .
    then show ?thesis
      using w i True k l by (intro exI[of _ "Suc k"]) (simp add: case_prod_unfold Let_def length_word_bytes)
  qed
qed (simp add: bus_only_refl)

lemma read_data_any:
  "\<exists>k\<le>unat count. case ata_read_data dev drive lba count s of (r, bs, s') \<Rightarrow>
     length bs = 512 * k \<and> r = (if k = unat count \<and> count \<noteq> 0 \<and> drive \<le> 1 then 0 else - 1) \<and>
     bus_only (if drive > 1 \<or> count = 0 then 0 else POLLS + 6 + unat count * (POLLS + 256)) s s'"
proof (cases "drive > 1 \<or> count = 0")
  case True
  then show ?thesis by (intro exI[of _ 0]) (auto simp: ata_read_data_def bus_only_print)
next
  case False
  obtain r s1 where w: "ata_wait_bsy dev s = (r, s1)" by (cases "ata_wait_bsy dev s")
  have r: "r \<in> {0, - 1}" and b1: "bus_only POLLS s s1" using wait_bsy_any[of dev POLLS s] w by (auto simp: ata_wait_bsy_def)
  show ?thesis
  proof (cases "r = 0")
    case False
    with w r b1 \<open>\<not> (drive > 1 \<or> count = 0)\<close> show ?thesis
      by (intro exI[of _ 0]) (auto simp: ata_read_data_def unat_eq_zero intro: bus_only_mono)
  next
    case True
    let ?s2 = "ata_command drive lba count ATA_CMD_READ_SECTORS s1"
    obtain k where k: "k \<le> unat count" "length (fst (snd (read_loop dev (unat count) 0 ?s2))) = 512 * k"
        "fst (read_loop dev (unat count) 0 ?s2) = (if k = unat count then 0 else - 1)"
        "bus_only (unat count * (POLLS + 256)) ?s2 (snd (snd (read_loop dev (unat count) 0 ?s2)))"
      using read_loop_any by blast
    note bus_only_trans[OF bus_only_trans[OF b1 ata_command_any] k(4)]
    with w True k \<open>\<not> (drive > 1 \<or> count = 0)\<close> show ?thesis
      by (intro exI[of _ k]) (auto simp: ata_read_data_def case_prod_unfold)
  qed
qed


section \<open>Writing\<close>

definition words_written :: "io_event list \<Rightarrow> u16 list" where
  "words_written es = rev (List.map_filter (\<lambda>e. case e of Outsw p w \<Rightarrow> if p = data_port then Some w else None | _ \<Rightarrow> None) es)"

lemma words_written_append: "words_written (xs @ ys) = words_written ys @ words_written xs"
  by (simp add: words_written_def map_filter_def)

lemma outw_rep_eq: "outw_rep p ws s = s\<lparr>io_log := rev (map (Outsw p) ws) @ io_log s\<rparr>"
  by (induction ws arbitrary: s) simp_all

lemma words_written_outw: "words_written (rev (map (Outsw data_port) ws)) = ws"
  by (induction ws) (simp_all add: words_written_def map_filter_def)

lemma words_written_transfer: "transfer es \<Longrightarrow> words_written es = []"
  by (induction es) (auto simp: words_written_def transfer_def map_filter_def split: io_event.splits)

lemma wait_drq_transfer:
  assumes "wait_drq_loop dev n s = (0, s1)"
  shows "\<exists>ps. s1 = s\<lparr>io_log := ps @ io_log s\<rparr> \<and> transfer ps"
  using assms
proof (induction n arbitrary: s)
  case (Suc n)
  let ?e = "Inb status_port (dev_inb dev (io_log s) status_port)"
  let ?s = "s\<lparr>io_log := ?e # io_log s\<rparr>"
  have e: "transfer [?e]" by (simp add: transfer_def)
  show ?case
  proof (cases "dev_inb dev (io_log s) status_port AND ATA_STATUS_DRQ = 0")
    case False
    with Suc.prems have "s1 = ?s" by (simp add: inb_def Let_def)
    with e show ?thesis by (intro exI[of _ "[?e]"]) simp
  next
    case True
    with Suc.prems have "wait_drq_loop dev n ?s = (0, s1)"
      by (cases "dev_inb dev (io_log s) status_port AND ATA_STATUS_ERR = 0") (simp_all add: inb_def Let_def)
    from Suc.IH[OF this] obtain ps where "s1 = ?s\<lparr>io_log := ps @ io_log ?s\<rparr>" "transfer ps" by blast
    with e show ?thesis by (intro exI[of _ "ps @ [?e]"]) simp
  qed
qed simp

lemma write_loop_words:
  assumes "write_loop dev n buf s = (0, s')" "length buf = 256 * n"
  shows "\<exists>es. s' = s\<lparr>io_log := es @ io_log s\<rparr> \<and> words_written es = buf"
  using assms
proof (induction n arbitrary: buf s)
  case 0
  then show ?case by (intro exI[of _ "[]"]) (simp add: words_written_def map_filter_def)
next
  case (Suc n)
  obtain r s1 where w: "ata_wait_drq dev s = (r, s1)" by (cases "ata_wait_drq dev s")
  with Suc.prems have r: "r = 0" by (auto split: if_splits)
  then obtain ps where ps: "s1 = s\<lparr>io_log := ps @ io_log s\<rparr>" "transfer ps"
    using wait_drq_transfer[of dev POLLS s s1] w by (auto simp: ata_wait_drq_def)
  let ?o = "rev (map (Outsw data_port) (take 256 buf))"
  have "write_loop dev n (drop 256 buf) (s\<lparr>io_log := ?o @ ps @ io_log s\<rparr>) = (0, s')"
    using Suc.prems(1) w r ps by (simp add: outw_rep_eq)
  from Suc.IH[OF this] Suc.prems(2) obtain es where
    "s' = s\<lparr>io_log := es @ ?o @ ps @ io_log s\<rparr>" "words_written es = drop 256 buf" by auto
  then show ?case
    using words_written_transfer[OF ps(2)] words_written_outw[of "take 256 buf"]
    by (intro exI[of _ "es @ ?o @ ps"]) (simp add: words_written_append)
qed

lemma wait_bsy_transfer:
  assumes "wait_bsy_loop dev n s = (0, s1)"
  shows "\<exists>ps. s1 = s\<lparr>io_log := ps @ io_log s\<rparr>"
  using assms
proof (induction n arbitrary: s)
  case (Suc n)
  let ?e = "Inb status_port (dev_inb dev (io_log s) status_port)"
  let ?s = "s\<lparr>io_log := ?e # io_log s\<rparr>"
  show ?case
  proof (cases "dev_inb dev (io_log s) status_port AND ATA_STATUS_BSY = 0")
    case True
    with Suc.prems have "s1 = ?s" by (simp add: inb_def Let_def)
    then show ?thesis by (intro exI[of _ "[?e]"]) simp
  next
    case False
    with Suc.prems have "wait_bsy_loop dev n ?s = (0, s1)" by (simp add: inb_def Let_def)
    from Suc.IH[OF this] obtain ps where "s1 = ?s\<lparr>io_log := ps @ io_log ?s\<rparr>" by blast
    then show ?thesis by (intro exI[of _ "ps @ [?e]"]) simp
  qed
qed simp

text \<open>
  When writing reports success, the drive received the command for the sectors asked for
  and after it every word of the buffer, in order, and memory is unchanged.
\<close>

theorem ata_write_sectors_sends_buffer:
  assumes "ata_write_sectors dev 0 lba count buffer s = (0, s')"
  shows "\<exists>es pre. s' = s\<lparr>io_log := es @ command_events lba count ATA_CMD_WRITE_SECTORS @ pre @ io_log s\<rparr> \<and>
    words_written es = buffer_words buffer (256 * unat count) s"
proof -
  have c: "count \<noteq> 0" using assms by (auto simp: ata_write_sectors_def)
  obtain r s1 where w: "ata_wait_bsy dev s = (r, s1)" by (cases "ata_wait_bsy dev s")
  have r: "r = 0" using assms c w by (auto simp: ata_write_sectors_def split: if_splits)
  then obtain ps where ps: "s1 = s\<lparr>io_log := ps @ io_log s\<rparr>"
    using wait_bsy_transfer[of dev POLLS s s1] w by (auto simp: ata_wait_bsy_def)
  let ?s = "s\<lparr>io_log := command_events lba count ATA_CMD_WRITE_SECTORS @ ps @ io_log s\<rparr>"
  have "write_loop dev (unat count) (buffer_words buffer (256 * unat count) s) ?s = (0, s')"
    using assms c w r ps by (simp add: ata_write_sectors_def ata_command_log)
  from write_loop_words[OF this] show ?thesis by (auto simp: buffer_words_def)
qed

section \<open>A simulated drive\<close>

text \<open>Always ready; it finds the last command on the bus and answers from the sectors it names.\<close>

definition out_value :: "io_event list \<Rightarrow> nat \<Rightarrow> u8" where
  "out_value es i = (case es ! i of Outb p v \<Rightarrow> v | _ \<Rightarrow> 0)"

primrec sim_word :: "(nat \<Rightarrow> u8) \<Rightarrow> nat \<Rightarrow> io_event list \<Rightarrow> u16" where
  "sim_word disk n [] = 0"
| "sim_word disk n (e # es) =
     (case e of
        Inb p v \<Rightarrow> sim_word disk n es
      | Insw p w \<Rightarrow> sim_word disk (Suc n) es
      | _ \<Rightarrow> disk_word disk (unat ((ucast (out_value es 2) OR push_bit 8 (ucast (out_value es 1)) OR
                push_bit 16 (ucast (out_value es 0)) OR push_bit 24 (ucast (out_value es 4 AND 0x0F))) :: u32)) n)"

definition sim_drive :: "(nat \<Rightarrow> u8) \<Rightarrow> device" where
  "sim_drive disk = \<lparr>dev_inb = (\<lambda>log p. 0x58), dev_insw = (\<lambda>log p. sim_word disk 0 log)\<rparr>"

lemma sim_word_transfer:
  assumes "transfer xs"
  shows "sim_word disk n (xs @ es) = sim_word disk (n + words_read xs) es"
  using assms by (induction xs arbitrary: n) (auto simp: transfer_def words_read_def split: io_event.splits)

lemma lba_bytes:
  "ucast (ucast lba :: u8) OR push_bit 8 (ucast (ucast (drop_bit 8 lba) :: u8)) OR push_bit 16 (ucast (ucast (drop_bit 16 lba) :: u8)) OR
     push_bit 24 (ucast ((0xE0 OR ucast (drop_bit 24 lba AND 0x0F) :: u8) AND 0x0F)) = (lba :: u32) AND 0x0FFFFFFF"
  (is "?l = _")
proof -
  have m: "(0x0FFFFFFF :: u32) = mask 28" "(0x0F :: u8) = mask 4" "(0x0F :: u32) = mask 4"
    by (simp_all add: mask_eq_exp_minus_1)
  have e: "(0xE0 :: u8) AND mask 4 = 0" by (simp add: mask_eq_exp_minus_1)
  have "(0xE0 OR x :: u8) AND mask 4 = x AND mask 4" for x using e by (simp add: bit.conj_disj_distrib2)
  then have top: "(0xE0 OR ucast (drop_bit 24 lba AND mask 4) :: u8) AND mask 4 = ucast (drop_bit 24 lba) AND mask 4"
    by (auto intro!: bit_word_eqI simp: bit_simps)
  show ?thesis unfolding m top
  proof (rule bit_word_eqI)
    fix n assume "n < LENGTH(32)"
    consider "n < 8" | "8 \<le> n" "n < 16" | "16 \<le> n" "n < 24" | "24 \<le> n" by linarith
    then show "bit (ucast (ucast lba :: u8) OR push_bit 8 (ucast (ucast (drop_bit 8 lba) :: u8)) OR
        push_bit 16 (ucast (ucast (drop_bit 16 lba) :: u8)) OR push_bit 24 (ucast (ucast (drop_bit 24 lba) AND mask 4 :: u8)) :: u32) n =
        bit (lba AND mask 28) n"
      by cases (use \<open>n < LENGTH(32)\<close> in \<open>auto simp: bit_simps\<close>)
  qed
qed

lemma sim_drive_device: "ata_device (sim_drive disk) disk"
proof -
  have st: "status_at (sim_drive disk) log i = 0x58" for log i by (simp add: status_at_def sim_drive_def)
  have bits: "\<not> bit (0x58 :: u8) 7" "bit (0x58 :: u8) 3" by (simp_all add: bit_iff_odd drop_bit_eq_div)
  have "dev_insw (sim_drive disk) (xs @ command_events lba count ATA_CMD_READ_SECTORS @ log) data_port =
      disk_word disk (sector_of lba) (words_read xs)" if "transfer xs" for xs lba count log
    using sim_word_transfer[OF that] lba_bytes[of lba]
    by (simp add: sim_drive_def command_events_def sector_of_def out_value_def)
  then show ?thesis
    unfolding ata_device_def st Let_def using bits by (auto simp: POLLS_def intro!: exI[of _ 0])
qed

theorem ata_read_data_correct_witness:
  "\<exists>log. ata_read_data (sim_drive (\<lambda>a. of_nat (a div 512))) 0 7 1 bss_machine =
     (0, disk_bytes (\<lambda>a. of_nat (a div 512)) 3584 512, bss_machine\<lparr>io_log := log @ io_log bss_machine\<rparr>)"
  using ata_read_data_correct[OF sim_drive_device, of 1 "\<lambda>a. of_nat (a div 512)" 7 bss_machine]
  by (simp add: sector_of_def)

lemma sim_drive_waits:
  "\<exists>log. ata_wait_bsy (sim_drive disk) s = (0, s\<lparr>io_log := log\<rparr>)" "\<exists>log. ata_wait_drq (sim_drive disk) s = (0, s\<lparr>io_log := log\<rparr>)"
proof -
  have st: "status_at (sim_drive disk) log i = 0x58" for log i by (simp add: status_at_def sim_drive_def)
  have bits: "\<not> bit (0x58 :: u8) 7" "bit (0x58 :: u8) 3" by (simp_all add: bit_iff_odd drop_bit_eq_div)
  show "\<exists>log. ata_wait_bsy (sim_drive disk) s = (0, s\<lparr>io_log := log\<rparr>)"
    unfolding ata_wait_bsy_def using wait_bsy_ok[of 0 POLLS "sim_drive disk" s] bits by (auto simp: st POLLS_def)
  show "\<exists>log. ata_wait_drq (sim_drive disk) s = (0, s\<lparr>io_log := log\<rparr>)"
    unfolding ata_wait_drq_def using wait_drq_ok[of 0 POLLS "sim_drive disk" s] bits by (auto simp: st POLLS_def)
qed

theorem ata_write_sectors_sends_buffer_witness:
  "\<exists>s' es pre. ata_write_sectors (sim_drive (\<lambda>_. 0)) 0 5 1 0x1000 bss_machine = (0, s') \<and>
     s' = bss_machine\<lparr>io_log := es @ command_events 5 1 ATA_CMD_WRITE_SECTORS @ pre @ io_log bss_machine\<rparr> \<and>
     words_written es = buffer_words 0x1000 256 bss_machine"
proof -
  obtain l1 where 1: "ata_wait_bsy (sim_drive (\<lambda>_. 0)) bss_machine = (0, bss_machine\<lparr>io_log := l1\<rparr>)"
    using sim_drive_waits(1) by blast
  let ?s = "ata_command 0 5 1 ATA_CMD_WRITE_SECTORS (bss_machine\<lparr>io_log := l1\<rparr>)"
  obtain l2 where 2: "ata_wait_drq (sim_drive (\<lambda>_. 0)) ?s = (0, ?s\<lparr>io_log := l2\<rparr>)"
    using sim_drive_waits(2) by blast
  have "fst (ata_write_sectors (sim_drive (\<lambda>_. 0)) 0 5 1 0x1000 bss_machine) = 0"
    using 1 2 by (simp add: ata_write_sectors_def Let_def)
  then obtain s' where w: "ata_write_sectors (sim_drive (\<lambda>_. 0)) 0 5 1 0x1000 bss_machine = (0, s')"
    by (metis prod.collapse)
  from ata_write_sectors_sends_buffer[OF w] w show ?thesis by auto
qed

end
