(* ===== verification/Ext2.thy ===== *)
theory Ext2
  imports Thread Ata
begin

text \<open>
  The read-only ext2 file system, \<^verbatim>\<open>kernel/ext2.c\<close>, on top of the ATA driver and the page
  allocator. On-disk structures are lists of bytes, with one function per field that the
  code reads, at the offset the packed structs of \<^verbatim>\<open>ext2.h\<close> give it. Block buffers are
  pages that the code uses through the very address the allocator returns.

  An operation has no result, \<open>None\<close>, when it does not return: a division by zero stops
  the machine, and a directory record of length zero is looked at forever. Shift counts are
  taken modulo 32, as the processor does; C leaves larger ones undefined. The number of
  block groups that \<^verbatim>\<open>ext2_init\<close> computes is never used and has no counterpart here.

  The second half of the theory is about strings and directories; \<open>Ext2_Read\<close> has the
  operations that go to the disk.
\<close>

unbundle bit_operations_syntax

section \<open>On-disk structures\<close>

definition le16 :: "u8 list \<Rightarrow> nat \<Rightarrow> u16" where
  "le16 bs off = word_of_bytes (take 2 (drop off bs))"

definition le32 :: "u8 list \<Rightarrow> nat \<Rightarrow> u32" where
  "le32 bs off = word_of_bytes (take 4 (drop off bs))"

definition EXT2_MAGIC :: u16 where "EXT2_MAGIC = 0xEF53"
definition EXT2_FT_REG_FILE :: u8 where "EXT2_FT_REG_FILE = 1"
definition EXT2_FT_DIR :: u8 where "EXT2_FT_DIR = 2"
definition EXT2_S_IFREG :: u16 where "EXT2_S_IFREG = 0x8000"
definition EXT2_ROOT_INO :: u32 where "EXT2_ROOT_INO = 2"

definition s_inodes_count :: "u8 list \<Rightarrow> u32" where "s_inodes_count b = le32 b 0"
definition s_blocks_count :: "u8 list \<Rightarrow> u32" where "s_blocks_count b = le32 b 4"
definition s_log_block_size :: "u8 list \<Rightarrow> u32" where "s_log_block_size b = le32 b 24"
definition s_inodes_per_group :: "u8 list \<Rightarrow> u32" where "s_inodes_per_group b = le32 b 40"
definition s_magic :: "u8 list \<Rightarrow> u16" where "s_magic b = le16 b 56"
definition s_rev_level :: "u8 list \<Rightarrow> u32" where "s_rev_level b = le32 b 76"
definition s_inode_size :: "u8 list \<Rightarrow> u16" where "s_inode_size b = le16 b 88"

definition sizeof_superblock :: nat where [simp]: "sizeof_superblock = 1024"
definition sizeof_group_desc :: nat where [simp]: "sizeof_group_desc = 32"
definition sizeof_dirent :: nat where [simp]: "sizeof_dirent = 8"
definition sizeof_inode :: nat where "sizeof_inode = 128"
definition i_mode :: "u8 list \<Rightarrow> u16" where "i_mode inode = le16 inode 0"
definition i_size :: "u8 list \<Rightarrow> u32" where "i_size inode = le32 inode 4"
definition i_block :: "u8 list \<Rightarrow> nat \<Rightarrow> u32" where "i_block inode i = le32 inode (40 + 4 * i)"

record ext2_state = thread_state +
  sb :: "u8 list"
  group_desc :: u64
  block_size :: u32
  ext2_ready :: bool

text \<open>Bytes behind a kernel pointer.\<close>

definition kbyte :: "'z machine_scheme \<Rightarrow> u64 \<Rightarrow> u8" where
  "kbyte s p = phys_mem s (kptr (hhdm_offset s) p)"

definition kbytes :: "'z machine_scheme \<Rightarrow> u64 \<Rightarrow> nat \<Rightarrow> u8 list" where
  "kbytes s p n = map (\<lambda>i. kbyte s (p + of_nat i)) [0..<n]"

definition bg_inode_table :: "'z ext2_state_scheme \<Rightarrow> u32 \<Rightarrow> u32" where
  "bg_inode_table s grp = le32 (kbytes s (group_desc s + of_nat sizeof_group_desc * ucast grp) sizeof_group_desc) 8"

text \<open>The fields of the directory entry at an address.\<close>

definition d_inode :: "'z machine_scheme \<Rightarrow> u64 \<Rightarrow> u32" where "d_inode s p = le32 (kbytes s p sizeof_dirent) 0"
definition d_rec_len :: "'z machine_scheme \<Rightarrow> u64 \<Rightarrow> u16" where "d_rec_len s p = le16 (kbytes s p sizeof_dirent) 4"
definition d_name_len :: "'z machine_scheme \<Rightarrow> u64 \<Rightarrow> u8" where "d_name_len s p = kbytes s p sizeof_dirent ! 6"
definition d_file_type :: "'z machine_scheme \<Rightarrow> u64 \<Rightarrow> u8" where "d_file_type s p = kbytes s p sizeof_dirent ! 7"
definition d_name :: "'z machine_scheme \<Rightarrow> u64 \<Rightarrow> nat \<Rightarrow> u8" where "d_name s p i = kbyte s (p + (of_nat sizeof_dirent + of_nat i))"

section \<open>Strings\<close>

text \<open>
  The functions take the bytes behind a pointer as a function of the index. The bytes of a
  C string are its characters, then zero.
\<close>

definition str_byte :: "u8 list \<Rightarrow> nat \<Rightarrow> u8" where
  "str_byte str i = (if i < length str then str ! i else 0)"

partial_function (option) strlen_loop :: "(nat \<Rightarrow> u8) \<Rightarrow> nat \<Rightarrow> nat option" where
  "strlen_loop str len = (if str len \<noteq> 0 then strlen_loop str (len + 1) else Some len)"

definition ext2_strlen :: "(nat \<Rightarrow> u8) \<Rightarrow> nat option" where
  "ext2_strlen str = strlen_loop str 0"

text \<open>\<open>n\<close> characters are left to compare, from position \<open>i\<close> on; \<^verbatim>\<open>char\<close> is signed on x86-64.\<close>

primrec strncmp_loop :: "(nat \<Rightarrow> u8) \<Rightarrow> (nat \<Rightarrow> u8) \<Rightarrow> nat \<Rightarrow> nat \<Rightarrow> int" where
  "strncmp_loop a b 0 i = 0"
| "strncmp_loop a b (Suc n) i =
     (if a i \<noteq> b i then sint (a i) - sint (b i)
      else if a i = 0 then 0
      else strncmp_loop a b n (i + 1))"

definition ext2_strncmp :: "(nat \<Rightarrow> u8) \<Rightarrow> (nat \<Rightarrow> u8) \<Rightarrow> nat \<Rightarrow> int" where
  "ext2_strncmp a b n = strncmp_loop a b n 0"

partial_function (option) strcmp_loop :: "(nat \<Rightarrow> u8) \<Rightarrow> (nat \<Rightarrow> u8) \<Rightarrow> nat \<Rightarrow> int option" where
  "strcmp_loop a b i =
     (if a i \<noteq> 0 \<and> a i = b i then strcmp_loop a b (i + 1) else Some (uint (a i) - uint (b i)))"

definition ext2_strcmp :: "(nat \<Rightarrow> u8) \<Rightarrow> (nat \<Rightarrow> u8) \<Rightarrow> int option" where
  "ext2_strcmp a b = strcmp_loop a b 0"

section \<open>Blocks and inodes\<close>

definition ext2_read_block :: "device \<Rightarrow> u32 \<Rightarrow> u64 \<Rightarrow> 'z ext2_state_scheme \<Rightarrow> int \<times> 'z ext2_state_scheme" where
  "ext2_read_block dev block_num buffer s =
     (let sector = (block_num * block_size s) div 512;
          count = block_size s div 512
      in ata_read_sectors dev 0 sector (ucast count) buffer s)"

text \<open>\<^verbatim>\<open>ext2_read_inode\<close>: where the inode is, and the read itself.\<close>

definition inode_size_of :: "'z ext2_state_scheme \<Rightarrow> u32" where
  "inode_size_of s = (if s_rev_level (sb s) = 0 then 128 else ucast (s_inode_size (sb s)))"

definition inode_location :: "u32 \<Rightarrow> 'z ext2_state_scheme \<Rightarrow> u32 \<times> u32" where
  "inode_location inode_num s =
     (let inode_index = inode_num - 1;
          grp = inode_index div s_inodes_per_group (sb s);
          local_index = inode_index mod s_inodes_per_group (sb s);
          offset = local_index * inode_size_of s
      in (bg_inode_table s grp + offset div block_size s, offset mod block_size s))"

definition ext2_read_inode ::
    "device \<Rightarrow> u32 \<Rightarrow> 'z ext2_state_scheme \<Rightarrow> (int \<times> u8 list \<times> 'z ext2_state_scheme) option" where
  "ext2_read_inode dev inode_num s =
     (if inode_num = 0 then Some (- 1, [], serial_print ''ext2: Invalid inode 0\<newline>'' s)
      else if s_inodes_per_group (sb s) = 0 \<or> block_size s = 0 then None
      else let (block, block_offset) = inode_location inode_num s;
               (block_buffer, s1) = pmm_alloc_page s
           in if block_buffer = 0
              then Some (1, [], serial_print ''ext2: Failed to allocate buffer\<newline>'' s1)
              else let (r, s2) = ext2_read_block dev block block_buffer s1
                   in if r \<noteq> 0
                      then Some (- 1, [], pmm_free_page block_buffer (serial_print ''ext2: Failed to read inode block\<newline>'' s2))
                      else Some (0, kbytes s2 (block_buffer + ucast block_offset) sizeof_inode, pmm_free_page block_buffer s2))"

text \<open>The copy \<^verbatim>\<open>buf[offset++] = src[j]\<close> for \<open>j < n\<close>.\<close>

definition copy_loop :: "u64 \<Rightarrow> u32 \<Rightarrow> u64 \<Rightarrow> nat \<Rightarrow> 'z machine_scheme \<Rightarrow> 'z machine_scheme" where
  "copy_loop buf offset src n s =
     s\<lparr>phys_mem := fold (\<lambda>j m. m(kptr (hhdm_offset s) (buf + ucast (offset + of_nat j)) := m (kptr (hhdm_offset s) (src + of_nat j))))
       [0..<n] (phys_mem s)\<rparr>"

text \<open>The loop over the direct blocks, with \<open>n\<close> iterations left, from block \<open>i\<close> on.\<close>

primrec data_loop ::
    "device \<Rightarrow> u8 list \<Rightarrow> u64 \<Rightarrow> nat \<Rightarrow> nat \<Rightarrow> u32 \<Rightarrow> u32 \<Rightarrow> 'z ext2_state_scheme \<Rightarrow> u32 option \<times> 'z ext2_state_scheme" where
  "data_loop dev inode buf 0 i remaining offset s = (Some remaining, s)"
| "data_loop dev inode buf (Suc n) i remaining offset s =
     (if remaining = 0 \<or> i_block inode i = 0 then (Some remaining, s)
      else let (block_buffer, s1) = pmm_alloc_page s
           in if block_buffer = 0 then (None, s1)
              else let (r, s2) = ext2_read_block dev (i_block inode i) block_buffer s1
                   in if r \<noteq> 0 then (None, pmm_free_page block_buffer s2)
                      else let to_copy = (if remaining > block_size s2 then block_size s2 else remaining);
                               s3 = copy_loop buf offset block_buffer (unat to_copy) s2
                           in data_loop dev inode buf n (i + 1) (remaining - to_copy) (offset + to_copy)
                                (pmm_free_page block_buffer s3))"

definition ext2_read_inode_data ::
    "device \<Rightarrow> u8 list \<Rightarrow> u64 \<Rightarrow> u32 \<Rightarrow> 'z ext2_state_scheme \<Rightarrow> int \<times> 'z ext2_state_scheme" where
  "ext2_read_inode_data dev inode buffer max_size s =
     (let (size, s1) = (if i_size inode > max_size
                        then (max_size, serial_print ''ext2: Warning - truncating file read\<newline>'' s)
                        else (i_size inode, s))
      in case data_loop dev inode buffer 12 0 size 0 s1 of
           (None, s2) \<Rightarrow> (- 1, s2)
         | (Some remaining, s2) \<Rightarrow> (sint (size - remaining), s2))"

section \<open>Mounting\<close>

definition print_superblock :: "'z ext2_state_scheme \<Rightarrow> 'z ext2_state_scheme" where
  "print_superblock s =
     (let s1 = serial_print_dec (ucast (block_size s))
                 (serial_print ''  Block size: '' (serial_print ''ext2: Found valid ext2 filesystem\<newline>'' s));
          s2 = serial_print_dec (ucast (s_blocks_count (sb s1))) (serial_print ''\<newline>  Total blocks: '' s1);
          s3 = serial_print_dec (ucast (s_inodes_count (sb s2))) (serial_print ''\<newline>  Total inodes: '' s2);
          s4 = serial_print_dec (ucast (s_inodes_per_group (sb s3))) (serial_print ''\<newline>  Inodes per group: '' s3)
      in serial_print ''\<newline>'' s4)"

definition ext2_init :: "device \<Rightarrow> 'z ext2_state_scheme \<Rightarrow> int \<times> 'z ext2_state_scheme" where
  "ext2_init dev s =
     (let s1 = serial_print ''ext2: Initializing ext2 filesystem...\<newline>'' s;
          (r, sb_buffer, s2) = ata_read_data dev 0 2 2 s1
      in if r \<noteq> 0 then (- 1, serial_print ''ext2: Failed to read superblock\<newline>'' s2)
         else
          let s3 = s2\<lparr>sb := take sizeof_superblock sb_buffer\<rparr>
          in if s_magic (sb s3) \<noteq> EXT2_MAGIC
             then (- 1, serial_print ''\<newline>'' (serial_print_hex (ucast (s_magic (sb s3)))
                          (serial_print ''ext2: Invalid magic number: '' s3)))
             else
              let s4 = print_superblock (s3\<lparr>block_size := push_bit (unat (s_log_block_size (sb s3) AND 31)) 1024\<rparr>);
                  bgdt_block = (if block_size s4 = 1024 then 2 else 1);
                  (page, s5) = pmm_alloc_page s4;
                  s6 = s5\<lparr>group_desc := page\<rparr>
              in if page = 0
                 then (- 1, serial_print ''ext2: Failed to allocate memory for group descriptors\<newline>'' s6)
                 else let (r, s7) = ext2_read_block dev bgdt_block page s6
                      in if r \<noteq> 0
                         then (- 1, (pmm_free_page page
                                (serial_print ''ext2: Failed to read block group descriptor table\<newline>'' s7))\<lparr>group_desc := 0\<rparr>)
                         else (0, serial_print ''ext2: Initialization complete\<newline>'' (s7\<lparr>ext2_ready := True\<rparr>)))"

section \<open>Directories\<close>

definition print_entry :: "u64 \<Rightarrow> 'z machine_scheme \<Rightarrow> 'z machine_scheme" where
  "print_entry entry s =
     (let name_buf = map (\<lambda>i. char_of (unat (d_name s entry i))) [0..<unat (d_name_len s entry)] @ [NUL];
          s1 = serial_print (c_string name_buf) (serial_print ''  '' s);
          s2 = (if d_file_type s1 entry = EXT2_FT_DIR then serial_print '' [DIR]'' s1
                else if d_file_type s1 entry = EXT2_FT_REG_FILE then serial_print '' [FILE]'' s1 else s1)
      in serial_print '')\<newline>'' (serial_print_dec (ucast (d_inode s2 entry)) (serial_print '' (inode '' s2)))"

partial_function (option) list_loop ::
    "u64 \<Rightarrow> u32 \<Rightarrow> u32 \<Rightarrow> 'z machine_scheme \<Rightarrow> 'z machine_scheme option" where
  "list_loop dir_data bytes_read offset s =
     (if offset < bytes_read
      then let entry = dir_data + ucast offset;
               s1 = (if d_inode s entry = 0 then s else print_entry entry s)
           in list_loop dir_data bytes_read (offset + ucast (d_rec_len s1 entry)) s1
      else Some s)"

definition ext2_list_root :: "device \<Rightarrow> 'z ext2_state_scheme \<Rightarrow> 'z ext2_state_scheme option" where
  "ext2_list_root dev s =
     (if \<not> ext2_ready s then Some (serial_print ''ext2: Filesystem not initialized\<newline>'' s)
      else case ext2_read_inode dev EXT2_ROOT_INO (serial_print ''\<newline>Files in root directory:\<newline>'' s) of
        None \<Rightarrow> None
      | Some (r, root_inode, s1) \<Rightarrow>
         if r \<noteq> 0 then Some (serial_print ''ext2: Failed to read root inode\<newline>'' s1)
         else let (dir_data, s2) = pmm_alloc_page s1
              in if dir_data = 0 then Some (serial_print ''ext2: Failed to allocate buffer\<newline>'' s2)
                 else let (bytes_read, s3) = ext2_read_inode_data dev root_inode dir_data 4096 s2
                      in if bytes_read < 0
                         then Some (pmm_free_page dir_data (serial_print ''ext2: Failed to read directory data\<newline>'' s3))
                         else map_option (\<lambda>s4. pmm_free_page dir_data (serial_print ''\<newline>'' s4))
                                (list_loop dir_data (word_of_int bytes_read) 0 s3))"

text \<open>The search for a name: the inode of the first entry that matches, or zero.\<close>

definition entry_matches :: "u8 list \<Rightarrow> u64 \<Rightarrow> 'z machine_scheme \<Rightarrow> bool" where
  "entry_matches filename entry s \<longleftrightarrow>
     ext2_strncmp (d_name s entry) (str_byte filename) (unat (d_name_len s entry)) = 0 \<and>
     ext2_strlen (str_byte filename) = Some (unat (d_name_len s entry))"

partial_function (option) find_loop :: "u64 \<Rightarrow> u8 list \<Rightarrow> u32 \<Rightarrow> u32 \<Rightarrow> 'z machine_scheme \<Rightarrow> u32 option" where
  "find_loop dir_data filename bytes_read offset s =
     (if offset < bytes_read
      then let entry = dir_data + ucast offset
           in if d_inode s entry \<noteq> 0 \<and> entry_matches filename entry s
              then Some (d_inode s entry)
              else find_loop dir_data filename bytes_read (offset + ucast (d_rec_len s entry)) s
      else Some 0)"

text \<open>The file of an inode that the search has found.\<close>

definition read_target ::
    "device \<Rightarrow> u32 \<Rightarrow> u64 \<Rightarrow> u32 \<Rightarrow> 'z ext2_state_scheme \<Rightarrow> (int \<times> 'z ext2_state_scheme) option" where
  "read_target dev target_inode buffer max_size s =
     (case ext2_read_inode dev target_inode s of
        None \<Rightarrow> None
      | Some (r, file_inode, s1) \<Rightarrow>
         if r \<noteq> 0 then Some (- 1, s1)
         else if i_mode file_inode AND 0xF000 \<noteq> EXT2_S_IFREG
         then Some (- 1, serial_print ''ext2: Not a regular file\<newline>'' s1)
         else Some (ext2_read_inode_data dev file_inode buffer max_size s1))"

definition file_name :: "string \<Rightarrow> string" where
  "file_name pathname = (case pathname of c # cs \<Rightarrow> if c = CHR ''/'' then cs else pathname | [] \<Rightarrow> pathname)"

definition ext2_read_file ::
    "device \<Rightarrow> string \<Rightarrow> u64 \<Rightarrow> u32 \<Rightarrow> 'z ext2_state_scheme \<Rightarrow> (int \<times> 'z ext2_state_scheme) option" where
  "ext2_read_file dev pathname buffer max_size s =
     (if \<not> ext2_ready s then Some (- 1, serial_print ''ext2: Filesystem not initialized\<newline>'' s)
      else let filename = file_name pathname
      in if CHR ''/'' \<in> set filename then Some (- 1, serial_print ''ext2: Subdirectories not supported yet\<newline>'' s)
      else case ext2_read_inode dev EXT2_ROOT_INO s of
        None \<Rightarrow> None
      | Some (r, root_inode, s1) \<Rightarrow>
         if r \<noteq> 0 then Some (- 1, s1)
         else let (dir_data, s2) = pmm_alloc_page s1
         in if dir_data = 0 then Some (- 1, s2)
         else let (bytes_read, s3) = ext2_read_inode_data dev root_inode dir_data 4096 s2
         in if bytes_read < 0 then Some (- 1, pmm_free_page dir_data s3)
         else case find_loop dir_data (map (\<lambda>c. of_nat (of_char c)) filename) (word_of_int bytes_read) 0 s3 of
           None \<Rightarrow> None
         | Some target_inode \<Rightarrow>
            if target_inode = 0
            then Some (- 1, serial_print ''\<newline>'' (serial_print filename
                              (serial_print ''ext2: File not found: '' (pmm_free_page dir_data s3))))
            else read_target dev target_inode buffer max_size (pmm_free_page dir_data s3))"

section \<open>String comparison\<close>

lemma str_byte_nonzero: "0 \<notin> set str \<Longrightarrow> i < length str \<Longrightarrow> str_byte str i \<noteq> 0"
  by (metis nth_mem str_byte_def)

lemma strlen_loop_str:
  assumes "0 \<notin> set str" "i \<le> length str"
  shows "strlen_loop (str_byte str) i = Some (length str)"
  using assms(2)
proof (induction "length str - i" arbitrary: i)
  case 0
  then show ?case by (subst strlen_loop.simps) (simp add: str_byte_def)
next
  case (Suc k)
  then have "str_byte str i \<noteq> 0" by (intro str_byte_nonzero[OF assms(1)]) simp
  with Suc show ?case by (subst strlen_loop.simps) simp
qed

lemma strlen_str: "0 \<notin> set str \<Longrightarrow> ext2_strlen (str_byte str) = Some (length str)"
  by (simp add: ext2_strlen_def strlen_loop_str)

lemma strncmp_loop_zero:
  assumes "\<And>j. j < n \<Longrightarrow> b (i + j) \<noteq> 0"
  shows "strncmp_loop a b n i = 0 \<longleftrightarrow> (\<forall>j<n. a (i + j) = b (i + j))"
  using assms
proof (induction n arbitrary: i)
  case (Suc n)
  have "strncmp_loop a b n (i + 1) = 0 \<longleftrightarrow> (\<forall>j<n. a (i + 1 + j) = b (i + 1 + j))"
    using Suc.prems[of "Suc j" for j] by (intro Suc.IH) simp
  moreover have "(\<forall>j<Suc n. a (i + j) = b (i + j)) \<longleftrightarrow> a i = b i \<and> (\<forall>j<n. a (i + 1 + j) = b (i + 1 + j))"
    by (auto simp: less_Suc_eq_0_disj)
  ultimately show ?case using Suc.prems[of 0] by (auto simp: signed_word_eqI)
qed simp

lemma strcmp_loop_str:
  assumes "0 \<notin> set a" "i \<le> length a"
  shows "\<exists>r. strcmp_loop (str_byte a) b i = Some r \<and> (r = 0 \<longleftrightarrow> (\<forall>j\<in>{i..length a}. b j = str_byte a j))"
  using assms(2)
proof (induction "length a - i" arbitrary: i)
  case 0
  then show ?case by (subst strcmp_loop.simps) (auto simp: str_byte_def word_uint_eq_iff)
next
  case (Suc k)
  then have nz: "str_byte a i \<noteq> 0" by (intro str_byte_nonzero[OF assms(1)]) simp
  have split: "{i..length a} = insert i {i + 1..length a}" using Suc by auto
  have "k = length a - (i + 1)" "i + 1 \<le> length a" using Suc.hyps(2) by simp_all
  from Suc.hyps(1)[OF this] obtain r where
    "strcmp_loop (str_byte a) b (i + 1) = Some r" "r = 0 \<longleftrightarrow> (\<forall>j\<in>{i + 1..length a}. b j = str_byte a j)" by blast
  then show ?case using nz unfolding split by (subst strcmp_loop.simps) (auto simp: word_uint_eq_iff)
qed

lemma strcmp_str:
  assumes "0 \<notin> set a" "0 \<notin> set b"
  shows "\<exists>r. ext2_strcmp (str_byte a) (str_byte b) = Some r \<and> (r = 0 \<longleftrightarrow> a = b)"
proof -
  have "(\<forall>j\<in>{0..length a}. str_byte b j = str_byte a j) \<longleftrightarrow> a = b"
  proof
    assume *: "\<forall>j\<in>{0..length a}. str_byte b j = str_byte a j"
    have "str_byte b (length a) = 0" using * by (simp add: str_byte_def)
    then have le: "length b \<le> length a" using assms(2) by (auto simp: str_byte_def in_set_conv_nth split: if_splits)
    have "str_byte a (length b) = 0" using * le by (auto simp: str_byte_def split: if_splits)
    then have "length a \<le> length b" using assms(1) by (auto simp: str_byte_def in_set_conv_nth split: if_splits)
    with le have len: "length a = length b" by simp
    show "a = b"
    proof (rule nth_equalityI[OF len])
      fix i assume "i < length a"
      with bspec[OF *, of i] len show "a ! i = b ! i" by (simp add: str_byte_def)
    qed
  qed simp
  with strcmp_loop_str[OF assms(1), of 0 "str_byte b"] show ?thesis by (simp add: ext2_strcmp_def)
qed

lemma entry_matches_iff:
  assumes "0 \<notin> set filename"
  shows "entry_matches filename entry s \<longleftrightarrow> map (d_name s entry) [0..<unat (d_name_len s entry)] = filename"
proof (cases "length filename = unat (d_name_len s entry)")
  case True
  have nz: "str_byte filename (0 + j) \<noteq> 0" if "j < unat (d_name_len s entry)" for j
    using str_byte_nonzero[OF assms, of j] that True by simp
  have "map (d_name s entry) [0..<unat (d_name_len s entry)] = filename \<longleftrightarrow>
      (\<forall>j<unat (d_name_len s entry). d_name s entry j = str_byte filename j)"
    using True by (auto simp: list_eq_iff_nth_eq str_byte_def)
  with True assms strncmp_loop_zero[of "unat (d_name_len s entry)" "str_byte filename" 0 "d_name s entry", OF nz] show ?thesis
    by (simp add: entry_matches_def ext2_strncmp_def strlen_str)
next
  case False
  with assms show ?thesis by (auto simp: entry_matches_def strlen_str)
qed

section \<open>Directories as lists of entries\<close>

text \<open>
  The specification: the bytes of a directory are a sequence of records, each at least as
  long as its header and its name, and a search goes through the records in order.
\<close>

datatype dirent = Dirent (de_inode: u32) (de_type: u8) (de_name: "u8 list")

definition rec_len :: "u8 list \<Rightarrow> nat" where
  "rec_len d = unat (le16 d 4)"

definition first_entry :: "u8 list \<Rightarrow> dirent" where
  "first_entry d = Dirent (le32 d 0) (d ! 7) (take (unat (d ! 6)) (drop 8 d))"

function dir_ok :: "u8 list \<Rightarrow> bool" where
  "dir_ok d = (if d = [] then True
     else if 8 + unat (d ! 6) \<le> rec_len d \<and> rec_len d \<le> length d then dir_ok (drop (rec_len d) d) else False)"
  by pat_completeness auto
termination by (relation "measure length") auto

function dir_entries :: "u8 list \<Rightarrow> dirent list" where
  "dir_entries d = (if d = [] \<or> rec_len d = 0 then [] else first_entry d # dir_entries (drop (rec_len d) d))"
  by pat_completeness auto
termination by (relation "measure length") auto

declare dir_ok.simps [simp del] dir_entries.simps [simp del]

definition dir_lookup :: "u8 list \<Rightarrow> dirent list \<Rightarrow> u32" where
  "dir_lookup name es =
     (case List.find (\<lambda>e. de_inode e \<noteq> 0 \<and> de_name e = name) es of None \<Rightarrow> 0 | Some e \<Rightarrow> de_inode e)"

lemma dir_okE:
  assumes "dir_ok d" "d \<noteq> []"
  shows "8 + unat (d ! 6) \<le> rec_len d" "rec_len d \<le> length d" "dir_ok (drop (rec_len d) d)"
    and "dir_entries d = first_entry d # dir_entries (drop (rec_len d) d)"
proof -
  show *: "8 + unat (d ! 6) \<le> rec_len d" "rec_len d \<le> length d" "dir_ok (drop (rec_len d) d)"
    using assms dir_ok.simps[of d] by (auto split: if_splits)
  from *(1) assms(2) show "dir_entries d = first_entry d # dir_entries (drop (rec_len d) d)"
    by (subst dir_entries.simps) simp
qed

section \<open>Directory data in memory\<close>

lemma length_kbytes [simp]: "length (kbytes s p n) = n"
  by (simp add: kbytes_def)

lemma kbytes_sub:
  assumes "i + n \<le> m"
  shows "kbytes s (p + of_nat i) n = take n (drop i (kbytes s p m))"
  using assms by (intro nth_equalityI) (auto simp: kbytes_def add.assoc)

lemma le16_take: "i + 2 \<le> n \<Longrightarrow> le16 (take n d) i = le16 d i"
  by (simp add: le16_def drop_take min_def)

lemma le32_take: "i + 4 \<le> n \<Longrightarrow> le32 (take n d) i = le32 d i"
  by (simp add: le32_def drop_take min_def)

text \<open>The entry at offset \<open>i\<close> of directory data that lies at \<open>p\<close>.\<close>

lemma entry_fields:
  assumes "kbytes s p (length d) = d" "i + 8 \<le> length d"
  shows "d_inode s (p + of_nat i) = de_inode (first_entry (drop i d))"
    and "unat (d_rec_len s (p + of_nat i)) = rec_len (drop i d)"
    and "d_file_type s (p + of_nat i) = de_type (first_entry (drop i d))"
    and "d_name_len s (p + of_nat i) = drop i d ! 6"
proof -
  have "kbytes s (p + of_nat i) 8 = take 8 (drop i d)"
    using kbytes_sub[of i 8 "length d" s p] assms by simp
  then show "d_inode s (p + of_nat i) = de_inode (first_entry (drop i d))"
      "unat (d_rec_len s (p + of_nat i)) = rec_len (drop i d)"
      "d_file_type s (p + of_nat i) = de_type (first_entry (drop i d))"
      "d_name_len s (p + of_nat i) = drop i d ! 6"
    using assms(2)
    by (simp_all add: d_inode_def d_rec_len_def d_file_type_def d_name_len_def rec_len_def first_entry_def le16_take le32_take)
qed

lemma entry_name:
  assumes "kbytes s p (length d) = d" "i + 8 + unat (drop i d ! 6) \<le> length d"
  shows "map (d_name s (p + of_nat i)) [0..<unat (d_name_len s (p + of_nat i))] = de_name (first_entry (drop i d))"
proof -
  have len: "d_name_len s (p + of_nat i) = drop i d ! 6" using entry_fields(4)[OF assms(1)] assms(2) by simp
  have "map (d_name s (p + of_nat i)) [0..<n] = kbytes s (p + of_nat (i + 8)) n" for n
    by (simp add: kbytes_def d_name_def algebra_simps)
  moreover have "i \<le> length d" using assms(2) by simp
  ultimately show ?thesis using kbytes_sub[OF assms(2), of s p] assms(1)
    by (simp add: len first_entry_def add.commute)
qed

text \<open>The offset of the next record does not wrap around.\<close>

lemma next_offset:
  assumes "i + n \<le> m" "m < 2 ^ 31" "n = unat (w :: u16)"
  shows "(of_nat i :: u32) + ucast w = of_nat (i + n)" "(ucast (of_nat i :: u32) :: u64) = of_nat i"
    and "i < m \<longleftrightarrow> (of_nat i :: u32) < of_nat m"
proof -
  show "(of_nat i :: u32) + ucast w = of_nat (i + n)" by (simp add: assms(3))
  show "(ucast (of_nat i :: u32) :: u64) = of_nat i"
    using assms(1,2) by (simp add: word_eq_iff_unsigned unsigned_ucast_eq unsigned_of_nat take_bit_nat_eq_self)
  show "i < m \<longleftrightarrow> (of_nat i :: u32) < of_nat m"
    using assms(1,2) by (simp add: word_less_nat_alt unsigned_of_nat take_bit_nat_eq_self)
qed

lemma find_loop_ok:
  assumes mem: "kbytes s p (length d) = d" and len: "length d < 2 ^ 31" and name: "0 \<notin> set filename"
  shows "i \<le> length d \<Longrightarrow> dir_ok (drop i d) \<Longrightarrow>
    find_loop p filename (of_nat (length d)) (of_nat i) s = Some (dir_lookup filename (dir_entries (drop i d)))"
proof (induction "length d - i" arbitrary: i rule: less_induct)
  case less
  show ?case
  proof (cases "i = length d")
    case True
    then show ?thesis by (subst find_loop.simps) (simp add: dir_lookup_def dir_entries.simps)
  next
    case False
    then have ne: "drop i d \<noteq> []" "i < length d" using less.prems by simp_all
    note ok = dir_okE[OF less.prems(2) ne(1)]
    let ?e = "p + of_nat i" and ?n = "rec_len (drop i d)"
    have room: "i + 8 + unat (drop i d ! 6) \<le> length d" "i + ?n \<le> length d" "i < i + ?n" using ok less.prems by auto
    note f = entry_fields[OF mem, of i] and nm = entry_name[OF mem room(1)]
    note off = next_offset[OF room(2) len f(2)[symmetric]]
    have match: "entry_matches filename ?e s \<longleftrightarrow> de_name (first_entry (drop i d)) = filename"
      using entry_matches_iff[OF name] nm by metis
    have IH: "find_loop p filename (of_nat (length d)) (of_nat (i + ?n)) s =
        Some (dir_lookup filename (dir_entries (drop (i + ?n) d)))"
      using less.hyps[of "i + ?n"] room ok(3) ne by (simp add: add.commute)
    show ?thesis
      using room ne off IH match f by (subst find_loop.simps) (simp add: ok(4) dir_lookup_def add.commute)
  qed
qed

section \<open>Listing\<close>

text \<open>What \<^verbatim>\<open>ext2_list_root\<close> prints for an entry.\<close>

definition entry_line :: "dirent \<Rightarrow> string" where
  "entry_line e = (if de_inode e = 0 then []
     else ''  '' @ takeWhile (\<lambda>c. c \<noteq> NUL) (map (\<lambda>b. char_of (unat b)) (de_name e))
       @ (if de_type e = EXT2_FT_DIR then '' [DIR]'' else if de_type e = EXT2_FT_REG_FILE then '' [FILE]'' else [])
       @ '' (inode '' @ dec_string (unat (de_inode e)) @ '')\<newline>'')"

lemma unat_ucast_u32 [simp]: "unat (ucast (w :: u32) :: u64) = unat w"
proof -
  have "unat w < 2 ^ 64" using unsigned_less[of w] by (rule less_le_trans) simp
  then show ?thesis by (simp add: unsigned_ucast_eq take_bit_nat_eq_self)
qed

lemma entry_fields_console [simp]:
  "d_inode (s\<lparr>console := c\<rparr>) e = d_inode s e" "d_rec_len (s\<lparr>console := c\<rparr>) e = d_rec_len s e"
  "d_file_type (s\<lparr>console := c\<rparr>) e = d_file_type s e" "kbytes (s\<lparr>console := c\<rparr>) p n = kbytes s p n"
  by (simp_all add: d_inode_def d_rec_len_def d_file_type_def kbytes_def kbyte_def)

lemma print_entry_line:
  assumes "kbytes s p (length d) = d" "i + 8 + unat (drop i d ! 6) \<le> length d" "de_inode (first_entry (drop i d)) \<noteq> 0"
  shows "print_entry (p + of_nat i) s = s\<lparr>console := console s @ entry_line (first_entry (drop i d))\<rparr>"
proof -
  let ?e = "p + of_nat i" and ?f = "first_entry (drop i d)"
  have "map (\<lambda>i. char_of (unat (d_name s ?e i))) [0..<unat (d_name_len s ?e)] = map (\<lambda>b. char_of (unat b)) (de_name ?f)"
    using arg_cong[OF entry_name[OF assms(1,2)], of "map (\<lambda>b. char_of (unat b) :: char)"] by (simp add: comp_def)
  moreover have "d_inode s ?e = de_inode ?f" "d_file_type s ?e = de_type ?f"
    using entry_fields[OF assms(1), of i] assms(2) by simp_all
  moreover have "c_string (xs @ [NUL]) = takeWhile (\<lambda>c. c \<noteq> NUL) xs" for xs
    by (simp add: c_string_def takeWhile_tail)
  ultimately show ?thesis using assms(3)
    by (simp add: print_entry_def Let_def entry_line_def serial_print_def serial_print_dec_text)
qed

lemma list_loop_ok:
  assumes len: "length d < 2 ^ 31"
  shows "kbytes s p (length d) = d \<Longrightarrow> i \<le> length d \<Longrightarrow> dir_ok (drop i d) \<Longrightarrow>
    list_loop p (of_nat (length d)) (of_nat i) s =
      Some (s\<lparr>console := console s @ concat (map entry_line (dir_entries (drop i d)))\<rparr>)"
proof (induction "length d - i" arbitrary: i s rule: less_induct)
  case less
  show ?case
  proof (cases "i = length d")
    case True
    then show ?thesis by (subst list_loop.simps) (simp add: dir_entries.simps)
  next
    case False
    then have ne: "drop i d \<noteq> []" "i < length d" using less.prems by simp_all
    note ok = dir_okE[OF less.prems(3) ne(1)]
    let ?e = "p + of_nat i" and ?n = "rec_len (drop i d)" and ?f = "first_entry (drop i d)"
    have room: "i + 8 + unat (drop i d ! 6) \<le> length d" "i + ?n \<le> length d" "i < i + ?n" using ok less.prems by auto
    note f = entry_fields[OF less.prems(1), of i]
    note off = next_offset[OF room(2) len f(2)[symmetric]]
    let ?s = "s\<lparr>console := console s @ entry_line ?f\<rparr>"
    have s1: "(if d_inode s ?e = 0 then s else print_entry ?e s) = ?s"
      using print_entry_line[OF less.prems(1) room(1)] f(1) room(1) by (auto simp: entry_line_def)
    have "list_loop p (of_nat (length d)) (of_nat (i + ?n)) ?s =
        Some (?s\<lparr>console := console ?s @ concat (map entry_line (dir_entries (drop (i + ?n) d)))\<rparr>)"
      using less.hyps[of "i + ?n" ?s] room ok(3) ne less.prems(1) by (simp add: add.commute)
    with s1 room ne off show ?thesis by (subst list_loop.simps) (simp add: ok(4) Let_def add.commute)
  qed
qed

section \<open>Records of length zero\<close>

lemma find_loop_stuck:
  assumes "find_loop p fn n off s = Some r"
  shows "off < n \<and> d_rec_len s (p + ucast off) = 0 \<longrightarrow>
    d_inode s (p + ucast off) \<noteq> 0 \<and> entry_matches fn (p + ucast off) s"
  using assms
  by (rule find_loop.raw_induct[where P = "\<lambda>p fn n off s r. off < n \<and> d_rec_len s (p + ucast off) = 0 \<longrightarrow>
        d_inode s (p + ucast off) \<noteq> 0 \<and> entry_matches fn (p + ucast off) s", rotated])
     (auto simp: Let_def split: if_splits)

lemma list_loop_stuck:
  assumes "list_loop p n off s = Some t"
  shows "d_rec_len s (p + ucast off) = 0 \<longrightarrow> \<not> off < n"
proof -
  have rl: "d_rec_len (print_entry e' s) e = d_rec_len s e" for e e' and s :: "'a machine_scheme"
    by (simp add: print_entry_def Let_def serial_print_def serial_print_dec_text)
  show ?thesis using assms
    by (rule list_loop.raw_induct[where P = "\<lambda>p n off s t. d_rec_len s (p + ucast off) = 0 \<longrightarrow> \<not> off < n", rotated])
       (auto simp: Let_def rl split: if_splits)
qed

end
