(* ===== verification/Ext2_Read.thy ===== *)
theory Ext2_Read
  imports Ext2
begin

text \<open>
  What the ext2 code reads from the disk. The specification is a set of functions of the
  disk as an array of bytes, in natural numbers: superblock, group descriptors, inodes, the
  data of an inode, the root directory, the contents of a named file. The theorems show
  that on a drive that behaves and a well-formed image the code computes these functions,
  in 32-bit arithmetic, through sector transfers into pages that it allocates and gives
  back.
\<close>

unbundle bit_operations_syntax

section \<open>The file system on the disk\<close>

definition fs_sb :: "(nat \<Rightarrow> u8) \<Rightarrow> u8 list" where
  "fs_sb disk = disk_bytes disk 1024 1024"

definition fs_bsize :: "(nat \<Rightarrow> u8) \<Rightarrow> nat" where
  "fs_bsize disk = 1024 * 2 ^ unat (s_log_block_size (fs_sb disk))"

definition fs_block :: "(nat \<Rightarrow> u8) \<Rightarrow> nat \<Rightarrow> u8 list" where
  "fs_block disk b = disk_bytes disk (b * fs_bsize disk) (fs_bsize disk)"

definition fs_bgdt :: "(nat \<Rightarrow> u8) \<Rightarrow> u8 list" where
  "fs_bgdt disk = fs_block disk (if fs_bsize disk = 1024 then 2 else 1)"

definition fs_ipg :: "(nat \<Rightarrow> u8) \<Rightarrow> nat" where
  "fs_ipg disk = unat (s_inodes_per_group (fs_sb disk))"

definition fs_isize :: "(nat \<Rightarrow> u8) \<Rightarrow> nat" where
  "fs_isize disk = (if s_rev_level (fs_sb disk) = 0 then 128 else unat (s_inode_size (fs_sb disk)))"

text \<open>The group of an inode, its offset in the table of the group and the table's first block.\<close>

definition fs_group :: "(nat \<Rightarrow> u8) \<Rightarrow> nat \<Rightarrow> nat" where
  "fs_group disk n = (n - 1) div fs_ipg disk"

definition fs_offset :: "(nat \<Rightarrow> u8) \<Rightarrow> nat \<Rightarrow> nat" where
  "fs_offset disk n = ((n - 1) mod fs_ipg disk) * fs_isize disk"

definition fs_table :: "(nat \<Rightarrow> u8) \<Rightarrow> nat \<Rightarrow> nat" where
  "fs_table disk g = unat (le32 (fs_bgdt disk) (32 * g + 8))"

definition fs_inode :: "(nat \<Rightarrow> u8) \<Rightarrow> nat \<Rightarrow> u8 list" where
  "fs_inode disk n = disk_bytes disk (fs_table disk (fs_group disk n) * fs_bsize disk + fs_offset disk n) sizeof_inode"

definition fs_blocks :: "u8 list \<Rightarrow> nat \<Rightarrow> u32 list" where
  "fs_blocks inode i = takeWhile (\<lambda>b. b \<noteq> 0) (map (i_block inode) [i..<12])"

definition fs_content :: "(nat \<Rightarrow> u8) \<Rightarrow> u32 list \<Rightarrow> u8 list" where
  "fs_content disk bs = concat (map (\<lambda>b. fs_block disk (unat b)) bs)"

definition fs_data :: "(nat \<Rightarrow> u8) \<Rightarrow> u8 list \<Rightarrow> u8 list" where
  "fs_data disk inode = take (unat (i_size inode)) (fs_content disk (fs_blocks inode 0))"

definition fs_root :: "(nat \<Rightarrow> u8) \<Rightarrow> u8 list" where
  "fs_root disk = fs_data disk (fs_inode disk 2)"

definition fs_lookup :: "(nat \<Rightarrow> u8) \<Rightarrow> u8 list \<Rightarrow> u32" where
  "fs_lookup disk name = dir_lookup name (dir_entries (fs_root disk))"

definition is_regular :: "u8 list \<Rightarrow> bool" where
  "is_regular inode \<longleftrightarrow> i_mode inode AND 0xF000 = EXT2_S_IFREG"

text \<open>Images the code can handle: blocks of at most a page, no overflow of byte addresses.\<close>

definition super_ok :: "(nat \<Rightarrow> u8) \<Rightarrow> bool" where
  "super_ok disk \<longleftrightarrow> s_magic (fs_sb disk) = EXT2_MAGIC \<and> unat (s_log_block_size (fs_sb disk)) \<le> 2 \<and> 0 < fs_ipg disk"

definition inode_ok :: "(nat \<Rightarrow> u8) \<Rightarrow> nat \<Rightarrow> bool" where
  "inode_ok disk n \<longleftrightarrow> 0 < n \<and> 32 * fs_group disk n + 32 \<le> fs_bsize disk \<and> fs_offset disk n < 2 ^ 32 \<and>
     fs_offset disk n mod fs_bsize disk + sizeof_inode \<le> fs_bsize disk \<and>
     (fs_table disk (fs_group disk n) + fs_offset disk n div fs_bsize disk) * fs_bsize disk < 2 ^ 32"

definition blocks_ok :: "(nat \<Rightarrow> u8) \<Rightarrow> u8 list \<Rightarrow> bool" where
  "blocks_ok disk inode \<longleftrightarrow> (\<forall>b\<in>set (fs_blocks inode 0). unat b * fs_bsize disk < 2 ^ 32)"

definition root_readable :: "(nat \<Rightarrow> u8) \<Rightarrow> bool" where
  "root_readable disk \<longleftrightarrow> inode_ok disk 2 \<and> blocks_ok disk (fs_inode disk 2) \<and> unat (i_size (fs_inode disk 2)) \<le> 4096"

definition root_ok :: "(nat \<Rightarrow> u8) \<Rightarrow> bool" where
  "root_ok disk \<longleftrightarrow> root_readable disk \<and> dir_ok (fs_root disk)"

lemma bsize_cases:
  assumes "super_ok disk"
  obtains "fs_bsize disk = 1024" | "fs_bsize disk = 2048" | "fs_bsize disk = 4096"
proof -
  have "unat (s_log_block_size (fs_sb disk)) \<in> {0, 1, 2}" using assms by (auto simp: super_ok_def)
  with that show thesis by (auto simp: fs_bsize_def)
qed

section \<open>Pages the code works with\<close>

text \<open>
  Pages below the direct map, which the code reaches through their physical address. A page
  is taken off the allocator's stack and pushed back: between the two the state differs in
  the two counters.
\<close>

definition fs_page :: "u64 \<Rightarrow> u64 \<Rightarrow> bool" where
  "fs_page h p \<longleftrightarrow> page_ok p \<and> unat p + 4096 \<le> unat h \<and> hhdm_covers h p"

definition fs_pages :: "'z pmm_state_scheme \<Rightarrow> bool" where
  "fs_pages s \<longleftrightarrow> pmm_inv s \<and> (\<forall>p\<in>set (free_list s). fs_page (hhdm_offset s) p)"

definition taken :: "'z pmm_state_scheme \<Rightarrow> 'z pmm_state_scheme" where
  "taken s = s\<lparr>free_pages := free_pages s - 1, page_stack_top := page_stack_top s - 1\<rparr>"

lemma fs_page_kptr:
  assumes "fs_page h p" "i < 4096"
  shows "kptr h (p + of_nat i) = p + of_nat i"
proof -
  have "unat (p + of_nat i) = unat p + i"
    using assms unat_less_2p64[of h] by (intro unat_add_of_nat64) (auto simp: fs_page_def)
  with assms have "\<not> h \<le> p + of_nat i" by (simp add: fs_page_def word_le_nat_alt)
  then show ?thesis by (simp add: kptr_def)
qed

lemma fs_page_kbytes:
  assumes "fs_page (hhdm_offset s) p" "i + n \<le> 4096"
  shows "kbytes s (p + of_nat i) n = load_bytes (phys_mem s) (p + of_nat i) n"
proof (rule nth_equalityI)
  fix j assume "j < length (kbytes s (p + of_nat i) n)"
  with assms fs_page_kptr[of "hhdm_offset s" p "i + j"]
  show "kbytes s (p + of_nat i) n ! j = load_bytes (phys_mem s) (p + of_nat i) n ! j"
    by (simp add: kbytes_def kbyte_def load_bytes_def add.assoc)
qed simp

lemma pages_apart:
  assumes "page_ok p" "page_ok q" "p \<noteq> q" "i < 4096"
  shows "4096 \<le> unat (p + of_nat i - q)"
proof (rule ccontr)
  assume "\<not> 4096 \<le> unat (p + of_nat i - q)"
  then obtain j where j: "j < 4096" "p + of_nat i = q + of_nat j"
    using word_offset_less[of 4096 "p + of_nat i" q] by auto
  obtain a where a: "unat p = 4096 * a" using assms(1) by (auto simp: page_ok_def)
  obtain b where b: "unat q = 4096 * b" using assms(2) by (auto simp: page_ok_def)
  have "unat (p + of_nat i) = 4096 * a + i"
    using a assms(4) unat_less_2p64[of p] by (subst unat_add_of_nat64) auto
  moreover have "unat (q + of_nat j) = 4096 * b + j"
    using b j(1) unat_less_2p64[of q] by (subst unat_add_of_nat64) auto
  ultimately have "4096 * a + i = 4096 * b + j" using j(2) by simp
  then have "(4096 * a + i) div 4096 = (4096 * b + j) div 4096" by simp
  then have "a = b" using j(1) assms(4) by simp
  with a b assms(3) show False by (simp add: word_unat_eq_iff)
qed

lemma restore_page:
  assumes "pmm_inv s" "free_list s \<noteq> []"
  shows "pmm_free_page (last (free_list s)) ((taken s)\<lparr>phys_mem := m, io_log := l, console := c\<rparr>) =
    s\<lparr>phys_mem := m, io_log := l, console := c\<rparr>"
proof -
  let ?p = "last (free_list s)"
  note a = alloc_nonempty[OF assms(2)]
  have nz: "?p \<noteq> 0" using assms by (intro page_ok_not_null) (simp add: pmm_inv_def)
  have "page_stack_top s \<noteq> 0" using assms(2) length_free_list[of s] by auto
  then have pos: "0 < unat (page_stack_top s)" by (simp add: unat_gt_0)
  have stack: "(page_stack s)(unat (page_stack_top s - 1) := ?p) = page_stack s"
    using pos a(3) by (simp add: free_list_def last_map last_upt)
  have "unat (page_stack_top s - 1) < unat MAX_PAGES"
    unfolding a(3) using pos assms(1) by (auto simp: pmm_inv_def)
  then have "\<not> MAX_PAGES \<le> page_stack_top s - 1" by (simp add: word_le_nat_alt)
  then show ?thesis using nz stack by (simp add: pmm_free_page_def taken_def page_push_def)
qed

lemma take_page:
  assumes "fs_pages s" "free_list s \<noteq> []"
  defines "p \<equiv> last (free_list s)"
  shows "pmm_alloc_page s = (p, (taken s)\<lparr>phys_mem := store_bytes (phys_mem s) p (replicate 4096 0)\<rparr>)"
    and "fs_page (hhdm_offset s) p" "p \<noteq> 0" "p \<in> set (free_list s)" "p \<notin> set (butlast (free_list s))"
    and "pmm_free_page p ((taken s)\<lparr>phys_mem := m, io_log := l, console := c\<rparr>) = s\<lparr>phys_mem := m, io_log := l, console := c\<rparr>"
    and "free_list ((taken s)\<lparr>phys_mem := m, io_log := l, console := c\<rparr>) = butlast (free_list s)"
proof -
  note a = alloc_nonempty[OF assms(2)]
  have inv: "pmm_inv s" using assms(1) by (simp add: fs_pages_def)
  show in_list: "p \<in> set (free_list s)" using assms(2) by (simp add: p_def)
  with assms(1) show page: "fs_page (hhdm_offset s) p" by (simp add: fs_pages_def)
  then show nz: "p \<noteq> 0" by (auto simp: fs_page_def page_ok_def)
  show "pmm_alloc_page s = (p, (taken s)\<lparr>phys_mem := store_bytes (phys_mem s) p (replicate 4096 0)\<rparr>)"
    using page by (simp add: a(1) taken_def kcopy_direct_map fs_page_def flip: p_def)
  have "distinct (butlast (free_list s) @ [p])" using inv assms(2) by (simp add: p_def pmm_inv_def)
  then show "p \<notin> set (butlast (free_list s))" by simp
  show "free_list ((taken s)\<lparr>phys_mem := m, io_log := l, console := c\<rparr>) = butlast (free_list s)"
    using a(1,2) by (simp add: taken_def free_list_def)
  show "pmm_free_page p ((taken s)\<lparr>phys_mem := m, io_log := l, console := c\<rparr>) = s\<lparr>phys_mem := m, io_log := l, console := c\<rparr>"
    unfolding p_def by (rule restore_page[OF inv assms(2)])
qed

section \<open>Effects\<close>

text \<open>
  An operation of the file system prints \<open>out\<close>, uses the bus, overwrites pages that are free
  before and after it, and stores the bytes \<open>bs\<close> that it delivers at their destination \<open>a\<close>;
  nothing else changes.
\<close>

definition outside_free :: "'z pmm_state_scheme \<Rightarrow> u64 \<Rightarrow> bool" where
  "outside_free s x \<longleftrightarrow> (\<forall>p\<in>set (free_list s). 4096 \<le> unat (x - p))"

definition fs_effect :: "'z pmm_state_scheme \<Rightarrow> u64 \<Rightarrow> u8 list \<Rightarrow> string \<Rightarrow> 'z pmm_state_scheme \<Rightarrow> bool" where
  "fs_effect s a bs out s' \<longleftrightarrow> (\<exists>m l. s' = s\<lparr>phys_mem := m, io_log := l, console := console s @ out\<rparr> \<and>
     (\<forall>x. outside_free s x \<longrightarrow> m x = store_bytes (phys_mem s) a bs x))"

lemma free_list_mem [simp]: "free_list (s\<lparr>phys_mem := m, io_log := l, console := c\<rparr>) = free_list s"
  by (simp add: free_list_def)

lemma fs_effectI:
  assumes "\<And>x. outside_free s x \<Longrightarrow> m x = store_bytes (phys_mem s) a bs x"
  shows "fs_effect s a bs out (s\<lparr>phys_mem := m, io_log := l, console := console s @ out\<rparr>)"
  unfolding fs_effect_def using assms by blast

lemma fs_effect_silentI:
  assumes "\<And>x. outside_free s x \<Longrightarrow> m x = store_bytes (phys_mem s) a bs x"
  shows "fs_effect s a bs [] (s\<lparr>phys_mem := m, io_log := l, console := console s\<rparr>)"
  using fs_effectI[where s = s and out = "[]", OF assms] by (simp only: append_Nil2)

lemma fs_effectE:
  assumes "fs_effect s a bs out s'"
  obtains m l where "s' = s\<lparr>phys_mem := m, io_log := l, console := console s @ out\<rparr>"
    "\<forall>x. outside_free s x \<longrightarrow> m x = store_bytes (phys_mem s) a bs x"
  using assms unfolding fs_effect_def by blast

lemma store_bytes_nil [simp]: "store_bytes m a [] = m"
  by (simp add: store_bytes_def)

lemma store_bytes_append:
  assumes "length xs + length ys < 2 ^ 64"
  shows "store_bytes (store_bytes m a xs) (a + of_nat (length xs)) ys = store_bytes m a (xs @ ys)"
proof
  fix x
  let ?d = "unat (x - a)"
  have "unat (x - (a + of_nat (length xs))) < length ys \<longleftrightarrow> length xs \<le> ?d \<and> ?d < length xs + length ys"
    and "length xs \<le> ?d \<Longrightarrow> unat (x - (a + of_nat (length xs))) = ?d - length xs"
  proof -
    have *: "x - (a + of_nat (length xs)) = (x - a) - of_nat (length xs)" by simp
    show **: "length xs \<le> ?d \<Longrightarrow> unat (x - (a + of_nat (length xs))) = ?d - length xs"
      unfolding * using assms by (simp add: unat_sub_if_size unat_of_nat64 word_le_nat_alt)
    have "\<not> unat (x - (a + of_nat (length xs))) < length ys" if "?d < length xs"
      unfolding * using assms that unat_less_2p64[of "x - a"]
      by (simp add: unat_sub_if_size unat_of_nat64 word_le_nat_alt word_size)
    with ** show "unat (x - (a + of_nat (length xs))) < length ys \<longleftrightarrow> length xs \<le> ?d \<and> ?d < length xs + length ys"
      by (cases "length xs \<le> ?d") auto
  qed
  then show "store_bytes (store_bytes m a xs) (a + of_nat (length xs)) ys x = store_bytes m a (xs @ ys) x"
    by (auto simp: store_bytes_def nth_append)
qed

lemma fs_effect_refl: "fs_effect s a [] [] s"
  using fs_effectI[where s = s and m = "phys_mem s" and a = a and bs = "[]" and out = "[]" and l = "io_log s"] by simp

lemma fs_effect_trans:
  assumes "fs_effect s a xs o1 s1" "fs_effect s1 (a + of_nat (length xs)) ys o2 s2" "length xs + length ys < 2 ^ 64"
  shows "fs_effect s a (xs @ ys) (o1 @ o2) s2"
proof -
  obtain m l where 1: "s1 = s\<lparr>phys_mem := m, io_log := l, console := console s @ o1\<rparr>"
    "\<forall>x. outside_free s x \<longrightarrow> m x = store_bytes (phys_mem s) a xs x" using assms(1) by (rule fs_effectE)
  obtain m' l' where 2: "s2 = s1\<lparr>phys_mem := m', io_log := l', console := console s1 @ o2\<rparr>"
    "\<forall>x. outside_free s1 x \<longrightarrow> m' x = store_bytes (phys_mem s1) (a + of_nat (length xs)) ys x"
    using assms(2) by (rule fs_effectE)
  have "m' x = store_bytes (phys_mem s) a (xs @ ys) x" if "outside_free s x" for x
  proof -
    have "outside_free s1 x" using that by (simp add: 1(1) outside_free_def)
    then have "m' x = store_bytes m (a + of_nat (length xs)) ys x" using 2(2) by (simp add: 1(1))
    also have "\<dots> = store_bytes (store_bytes (phys_mem s) a xs) (a + of_nat (length xs)) ys x"
      using 1(2)[rule_format, OF that] by (simp add: store_bytes_def)
    finally show ?thesis using assms(3) by (simp add: store_bytes_append)
  qed
  then show ?thesis
    using fs_effectI[where s = s and m = m' and a = a and bs = "xs @ ys" and l = l' and out = "o1 @ o2"] by (simp add: 1(1) 2(1))
qed

lemma fs_effect_then:
  assumes "fs_effect s a [] o1 s1" "fs_effect s1 b ys o2 s2" "length ys < 2 ^ 64"
  shows "fs_effect s b ys (o1 @ o2) s2"
proof -
  have "fs_effect s b [] o1 s1" using assms(1) by (simp add: fs_effect_def)
  then show ?thesis using fs_effect_trans[of s b "[]" o1 s1 ys o2 s2] assms(2,3) by simp
qed

lemma fs_effect_console: "fs_effect s a bs out s1 \<Longrightarrow> fs_effect s a bs (out @ str) (serial_print str s1)"
  using fs_effectI[where s = s and out = "out @ str"] by (elim fs_effectE) (simp add: serial_print_def)

lemma fs_effect_pages:
  assumes "fs_effect s a bs out s'"
  shows "free_list s' = free_list s" "hhdm_offset s' = hhdm_offset s" "fs_pages s' = fs_pages s"
proof -
  obtain m l where s': "s' = s\<lparr>phys_mem := m, io_log := l, console := console s @ out\<rparr>" using assms by (rule fs_effectE)
  show "free_list s' = free_list s" "hhdm_offset s' = hhdm_offset s" by (simp_all add: s')
  then show "fs_pages s' = fs_pages s" by (simp add: fs_pages_def pmm_inv_def s')
qed

section \<open>Reading blocks\<close>

definition fs_geom :: "(nat \<Rightarrow> u8) \<Rightarrow> 'z ext2_state_scheme \<Rightarrow> bool" where
  "fs_geom disk s \<longleftrightarrow> super_ok disk \<and> unat (block_size s) = fs_bsize disk"

lemma length_disk_bytes [simp]: "length (disk_bytes disk a n) = n"
  by (simp add: disk_bytes_def)

lemma length_fs_block [simp]: "length (fs_block disk b) = fs_bsize disk"
  by (simp add: fs_block_def)

lemma sector_count:
  assumes "unat (bs :: u32) \<in> {1024, 2048, 4096}"
  shows "unat (ucast (bs div 512) :: u8) = unat bs div 512" "(ucast (bs div 512) :: u8) \<noteq> 0"
proof -
  have d: "unat (bs div 512) = unat bs div 512" by (simp add: unat_div)
  show c: "unat (ucast (bs div 512) :: u8) = unat bs div 512"
    using assms d by (auto simp: unsigned_ucast_eq take_bit_nat_def)
  have "unat bs div 512 \<noteq> 0" using assms by auto
  with c show "(ucast (bs div 512) :: u8) \<noteq> 0" by (metis unsigned_0)
qed

lemma read_block_ok:
  assumes "ata_device dev disk" "fs_geom disk s" "fs_page (hhdm_offset s) p" "unat b * fs_bsize disk < 2 ^ 32"
  shows "\<exists>l. ext2_read_block dev b p s =
    (0, s\<lparr>phys_mem := store_bytes (phys_mem s) p (fs_block disk (unat b)), io_log := l\<rparr>)"
proof -
  have bs: "unat (block_size s) = fs_bsize disk" "super_ok disk" using assms(2) by (simp_all add: fs_geom_def)
  then have set: "unat (block_size s) \<in> {1024, 2048, 4096}" by (elim bsize_cases) simp_all
  let ?c = "ucast (block_size s div 512) :: u8" and ?lba = "(b * block_size s) div 512"
  have prod: "unat (b * block_size s) = unat b * fs_bsize disk"
    using assms(4) bs(1) by (simp add: unat_word_ariths(2))
  have lba: "unat ?lba = unat b * fs_bsize disk div 512" by (simp add: unat_div prod)
  have "unat ?lba < 2 ^ 28" using assms(4) lba by simp
  moreover have "(0x0FFFFFFF :: u32) = mask 28" by (simp add: mask_eq_exp_minus_1)
  ultimately have "sector_of ?lba = unat ?lba"
    by (simp only: sector_of_def flip: take_bit_eq_mask) (simp add: unsigned_take_bit_eq take_bit_nat_eq_self)
  moreover have "512 dvd fs_bsize disk" using bs(2) by (elim bsize_cases) simp_all
  then have "512 dvd unat b * fs_bsize disk" by simp
  ultimately have addr: "512 * sector_of ?lba = unat b * fs_bsize disk" using lba by simp
  have len: "512 * unat ?c = fs_bsize disk" using sector_count(1)[OF set] bs by (elim bsize_cases) simp_all
  obtain l where l: "ata_read_data dev 0 ?lba ?c s =
      (0, disk_bytes disk (512 * sector_of ?lba) (512 * unat ?c), s\<lparr>io_log := l @ io_log s\<rparr>)"
    using read_data_device[OF assms(1) sector_count(2)[OF set], of ?lba s] by blast
  have "fs_bsize disk \<le> 4096" using bs(2) by (elim bsize_cases) simp_all
  then have "kcopy (hhdm_offset s) m p (fs_block disk (unat b)) = store_bytes m p (fs_block disk (unat b))" for m
    by (intro kcopy_eq) (auto intro: fs_page_kptr[OF assms(3)])
  with l show ?thesis
    by (intro exI[of _ "l @ io_log s"]) (simp add: ext2_read_block_def Let_def ata_read_sectors_def addr len flip: fs_block_def)
qed

section \<open>Reading inodes\<close>

text \<open>The file system is mounted: the cached superblock and group descriptors are those of the disk.\<close>

definition mounted :: "(nat \<Rightarrow> u8) \<Rightarrow> 'z ext2_state_scheme \<Rightarrow> bool" where
  "mounted disk s \<longleftrightarrow> fs_geom disk s \<and> fs_pages s \<and> ext2_ready s \<and> sb s = fs_sb disk \<and>
     fs_page (hhdm_offset s) (group_desc s) \<and> group_desc s \<notin> set (free_list s) \<and>
     load_bytes (phys_mem s) (group_desc s) (fs_bsize disk) = fs_bgdt disk"

lemma le32_drop: "le32 (drop k d) i = le32 d (k + i)"
  by (simp add: le32_def add.commute)

lemma load_bytes_sub:
  assumes "i + n \<le> m"
  shows "load_bytes mem (p + of_nat i) n = take n (drop i (load_bytes mem p m))"
  using assms by (intro nth_equalityI) (auto simp: load_bytes_def add.assoc)

lemma bsize_le: "super_ok disk \<Longrightarrow> fs_bsize disk \<le> 4096" "super_ok disk \<Longrightarrow> 0 < fs_bsize disk"
  by (elim bsize_cases; simp)+

lemma bg_inode_table_ok:
  assumes "mounted disk s" "32 * unat g + 32 \<le> fs_bsize disk"
  shows "unat (bg_inode_table s g) = fs_table disk (unat g)"
proof -
  have m: "super_ok disk" "fs_page (hhdm_offset s) (group_desc s)" "load_bytes (phys_mem s) (group_desc s) (fs_bsize disk) = fs_bgdt disk"
    using assms(1) by (simp_all add: mounted_def fs_geom_def)
  have "(32 * ucast g :: u64) = of_nat (32 * unat g)" by simp
  moreover have "32 * unat g + 32 \<le> 4096" using assms(2) bsize_le(1)[OF m(1)] by simp
  ultimately have "kbytes s (group_desc s + 32 * ucast g) 32 = take 32 (drop (32 * unat g) (fs_bgdt disk))"
    using fs_page_kbytes[OF m(2), of "32 * unat g" 32] load_bytes_sub[OF assms(2), of "phys_mem s" "group_desc s"] m(3) by metis
  then show ?thesis by (simp add: bg_inode_table_def fs_table_def le32_take le32_drop)
qed

lemma inode_location_ok:
  assumes "mounted disk s" "inode_ok disk (unat n)"
  shows "\<exists>blk off. inode_location n s = (blk, off) \<and>
    unat blk = fs_table disk (fs_group disk (unat n)) + fs_offset disk (unat n) div fs_bsize disk \<and>
    unat off = fs_offset disk (unat n) mod fs_bsize disk"
proof -
  let ?g = "(n - 1) div s_inodes_per_group (sb s)" and ?o = "(n - 1) mod s_inodes_per_group (sb s) * inode_size_of s"
  have m: "super_ok disk" "sb s = fs_sb disk" "unat (block_size s) = fs_bsize disk"
    using assms(1) by (simp_all add: mounted_def fs_geom_def)
  have ok: "0 < unat n" "32 * fs_group disk (unat n) + 32 \<le> fs_bsize disk" "fs_offset disk (unat n) < 2 ^ 32"
      "(fs_table disk (fs_group disk (unat n)) + fs_offset disk (unat n) div fs_bsize disk) * fs_bsize disk < 2 ^ 32"
    using assms(2) by (simp_all add: inode_ok_def)
  have idx: "unat (n - 1) = unat n - 1" using ok(1) by (intro unat_minus_one) auto
  then have g: "unat ?g = fs_group disk (unat n)" by (simp add: unat_div m fs_group_def fs_ipg_def)
  have "unat (ucast (w :: u16) :: u32) = unat w" for w
    using less_le_trans[OF unsigned_less[of w, where ?'a = nat], of "2 ^ 32"] by (simp add: unsigned_ucast_eq take_bit_nat_eq_self)
  then have "unat (inode_size_of s) = fs_isize disk" by (simp add: inode_size_of_def fs_isize_def m)
  then have o: "unat ?o = fs_offset disk (unat n)"
    using ok(3) idx by (simp add: unat_word_ariths(2) unat_mod m fs_offset_def fs_ipg_def)
  have tab: "unat (bg_inode_table s ?g) = fs_table disk (fs_group disk (unat n))"
    using bg_inode_table_ok[OF assms(1), of ?g] ok(2) by (simp add: g)
  have "(fs_table disk (fs_group disk (unat n)) + fs_offset disk (unat n) div fs_bsize disk) * 1 < 2 ^ 32"
    by (rule le_less_trans[OF mult_le_mono ok(4)]) (use bsize_le(2)[OF m(1)] in auto)
  then have "unat (bg_inode_table s ?g + ?o div block_size s) =
      fs_table disk (fs_group disk (unat n)) + fs_offset disk (unat n) div fs_bsize disk"
    using tab o m(3) by (simp add: unat_word_ariths(1) unat_div)
  moreover have "unat (?o mod block_size s) = fs_offset disk (unat n) mod fs_bsize disk" using o m(3) by (simp add: unat_mod)
  ultimately show ?thesis by (simp add: inode_location_def Let_def)
qed

lemma disk_bytes_sub: "i + n \<le> m \<Longrightarrow> take n (drop i (disk_bytes disk a m)) = disk_bytes disk (a + i) n"
  by (intro nth_equalityI) (auto simp: disk_bytes_def add.assoc)

text \<open>A page written by a block read, and given back, is an effect on free pages only.\<close>

lemma scratch_effect:
  assumes "p \<in> set (free_list s)" "length bs \<le> 4096"
  shows "fs_effect s a [] [] (s\<lparr>phys_mem := store_bytes (store_bytes (phys_mem s) p (replicate 4096 0)) p bs, io_log := l, console := console s\<rparr>)"
  using assms by (intro fs_effect_silentI) (auto simp: outside_free_def store_bytes_def)

lemma fs_geom_taken: "fs_geom disk ((taken s)\<lparr>phys_mem := m\<rparr>) = fs_geom disk s"
  by (simp add: fs_geom_def taken_def)

lemma read_inode_ok:
  assumes "ata_device dev disk" "mounted disk s" "free_list s \<noteq> []" "inode_ok disk (unat n)"
  shows "\<exists>s'. ext2_read_inode dev n s = Some (0, fs_inode disk (unat n), s') \<and> fs_effect s a [] [] s'"
proof -
  have m: "fs_geom disk s" "super_ok disk" "fs_pages s" "unat (block_size s) = fs_bsize disk" "sb s = fs_sb disk"
    using assms(2) by (simp_all add: mounted_def fs_geom_def)
  note pg = take_page[OF m(3) assms(3)]
  let ?p = "last (free_list s)"
  let ?s1 = "(taken s)\<lparr>phys_mem := store_bytes (phys_mem s) ?p (replicate 4096 0)\<rparr>"
  obtain blk off where loc: "inode_location n s = (blk, off)"
      "unat blk = fs_table disk (fs_group disk (unat n)) + fs_offset disk (unat n) div fs_bsize disk"
      "unat off = fs_offset disk (unat n) mod fs_bsize disk"
    using inode_location_ok[OF assms(2,4)] by blast
  have ok: "unat off + sizeof_inode \<le> fs_bsize disk" "unat blk * fs_bsize disk < 2 ^ 32" "n \<noteq> 0"
    using assms(4) loc(2,3) by (auto simp: inode_ok_def)
  have h1: "hhdm_offset ?s1 = hhdm_offset s" "io_log ?s1 = io_log s" "console ?s1 = console s" by (simp_all add: taken_def)
  obtain l where l: "ext2_read_block dev blk ?p ?s1 =
      (0, ?s1\<lparr>phys_mem := store_bytes (phys_mem ?s1) ?p (fs_block disk (unat blk)), io_log := l\<rparr>)"
    using read_block_ok[OF assms(1), of ?s1 ?p blk] m(1) pg(2) ok(2) by (auto simp: fs_geom_taken h1)
  let ?m = "store_bytes (store_bytes (phys_mem s) ?p (replicate 4096 0)) ?p (fs_block disk (unat blk))"
  let ?s2 = "(taken s)\<lparr>phys_mem := ?m, io_log := l, console := console s\<rparr>"
  have s2: "?s1\<lparr>phys_mem := store_bytes (phys_mem ?s1) ?p (fs_block disk (unat blk)), io_log := l\<rparr> = ?s2"
    by (simp add: taken_def)
  have "load_bytes ?m ?p (fs_bsize disk) = fs_block disk (unat blk)"
    using load_bytes_store_same[of "fs_block disk (unat blk)"] bsize_le(1)[OF m(2)] by simp
  then have "kbytes ?s2 (?p + of_nat (unat off)) sizeof_inode = take sizeof_inode (drop (unat off) (fs_block disk (unat blk)))"
    using fs_page_kbytes[of ?s2 ?p "unat off" sizeof_inode] load_bytes_sub[OF ok(1), of ?m ?p] pg(2) ok(1) bsize_le(1)[OF m(2)]
    by (simp add: taken_def)
  also have "\<dots> = fs_inode disk (unat n)"
    using disk_bytes_sub[OF ok(1), of disk "unat blk * fs_bsize disk"]
    by (simp add: fs_block_def fs_inode_def loc(2,3) add_mult_distrib add.assoc)
  finally have data: "kbytes ?s2 (?p + ucast off) sizeof_inode = fs_inode disk (unat n)" by simp
  have free: "pmm_free_page ?p ?s2 = s\<lparr>phys_mem := ?m, io_log := l, console := console s\<rparr>" by (rule pg(6))
  have "ext2_read_inode dev n s = Some (0, fs_inode disk (unat n), s\<lparr>phys_mem := ?m, io_log := l, console := console s\<rparr>)"
    using ok(3) m(2,4,5) bsize_le(2)[OF m(2)] pg(1,3) l[unfolded s2] data
    by (auto simp: ext2_read_inode_def loc(1) free super_ok_def fs_ipg_def)
  moreover have "fs_effect s a [] [] (s\<lparr>phys_mem := ?m, io_log := l, console := console s\<rparr>)"
    using bsize_le(1)[OF m(2)] by (intro scratch_effect[OF pg(4)]) simp
  ultimately show ?thesis by blast
qed

section \<open>Reading the data of an inode\<close>

text \<open>A buffer of \<open>n\<close> bytes behind the kernel pointer \<open>buf\<close>, at physical address \<open>a\<close>, that overlaps no free page.\<close>

definition buffer_at :: "'z pmm_state_scheme \<Rightarrow> u64 \<Rightarrow> u64 \<Rightarrow> nat \<Rightarrow> bool" where
  "buffer_at s buf a n \<longleftrightarrow> (\<forall>i<n. kptr (hhdm_offset s) (buf + of_nat i) = a + of_nat i \<and> outside_free s (a + of_nat i))"

lemma store_bytes_one: "store_bytes m a [b] = m(a := b)"
  by (auto simp: store_bytes_def fun_eq_iff unat_eq_zero)

lemma copy_fold:
  assumes "\<And>i j. i < n \<Longrightarrow> j < n \<Longrightarrow> (p :: u64) + of_nat i \<noteq> q + of_nat j" "n < 2 ^ 64"
  shows "fold (\<lambda>j m. m(q + of_nat j := m (p + of_nat j))) [0..<n] m = store_bytes m q (load_bytes m p n)"
  using assms
proof (induction n)
  case (Suc n)
  let ?m = "store_bytes m q (load_bytes m p n)"
  have "?m (p + of_nat n) = m (p + of_nat n)"
    using Suc.prems word_offset_less[of n "p + of_nat n" q] by (auto simp: store_bytes_def)
  then have "?m(q + of_nat n := ?m (p + of_nat n)) = store_bytes m q (load_bytes m p (Suc n))"
    using store_bytes_append[of "load_bytes m p n" "[m (p + of_nat n)]" m q] Suc.prems(2)
    by (simp add: store_bytes_one load_bytes_def del: fun_upd_apply)
  moreover have "fold (\<lambda>j m. m(q + of_nat j := m (p + of_nat j))) [0..<n] m = ?m"
    using Suc.prems by (intro Suc.IH) auto
  ultimately show ?case by (simp del: fun_upd_apply)
qed (simp add: load_bytes_def)

lemma copy_loop_ok:
  assumes "\<And>i. i < n \<Longrightarrow> kptr (hhdm_offset s) (buf + of_nat (k + i)) = a + of_nat (k + i)"
    and "\<And>i. i < n \<Longrightarrow> 4096 \<le> unat (a + of_nat (k + i) - p)"
    and "fs_page (hhdm_offset s) p" "k + n < 2 ^ 32" "n \<le> 4096"
  shows "copy_loop buf (of_nat k) p n s =
    s\<lparr>phys_mem := store_bytes (phys_mem s) (a + of_nat k) (load_bytes (phys_mem s) p n)\<rparr>"
proof -
  let ?h = "hhdm_offset s"
  have w: "(ucast (of_nat k + of_nat j :: u32) :: u64) = of_nat (k + j)" if "j < n" for j
    using that assms(4) by (simp add: word_eq_iff_unsigned unsigned_ucast_eq unsigned_of_nat take_bit_nat_eq_self flip: of_nat_add)
  have dst: "kptr ?h (buf + ucast (of_nat k + of_nat j :: u32)) = (a + of_nat k) + of_nat j" if "j < n" for j
    using assms(1)[OF that] unfolding w[OF that] by (simp add: add.assoc)
  have src: "kptr ?h (p + of_nat j) = p + of_nat j" if "j < n" for j
    using that assms(5) by (intro fs_page_kptr[OF assms(3)]) simp
  have apart: "p + of_nat i \<noteq> (a + of_nat k) + of_nat j" if "i < n" "j < n" for i j
  proof
    assume *: "p + of_nat i = (a + of_nat k) + of_nat j"
    have "unat (p + of_nat i - p) < 4096" using that assms(5) by (simp add: unat_of_nat64)
    with assms(2)[OF that(2)] * show False by (simp add: add.assoc)
  qed
  have "fold (\<lambda>j m. m(kptr ?h (buf + ucast (of_nat k + of_nat j :: u32)) := m (kptr ?h (p + of_nat j)))) [0..<n] (phys_mem s) =
      fold (\<lambda>j m. m((a + of_nat k) + of_nat j := m (p + of_nat j))) [0..<n] (phys_mem s)"
    by (intro fold_cong) (simp_all add: dst src)
  also have "\<dots> = store_bytes (phys_mem s) (a + of_nat k) (load_bytes (phys_mem s) p n)"
    using apart assms(5) by (intro copy_fold) auto
  finally show ?thesis by (simp add: copy_loop_def)
qed

text \<open>One iteration of the loop over the blocks.\<close>

lemma block_step:
  assumes dev: "ata_device dev disk" and geom: "fs_geom disk s" and pages: "fs_pages s" "free_list s \<noteq> []"
    and b: "unat b * fs_bsize disk < 2 ^ 32"
    and buf: "buffer_at s buf a n" "k + c \<le> n" "n < 2 ^ 32" "c \<le> fs_bsize disk"
  obtains p s1 s2 where "pmm_alloc_page s = (p, s1)" "p \<noteq> 0" "ext2_read_block dev b p s1 = (0, s2)" "block_size s2 = block_size s"
    "fs_effect s (a + of_nat k) (take c (fs_block disk (unat b))) [] (pmm_free_page p (copy_loop buf (of_nat k) p c s2))"
proof -
  let ?p = "last (free_list s)"
  note pg = take_page[OF pages]
  let ?s1 = "(taken s)\<lparr>phys_mem := store_bytes (phys_mem s) ?p (replicate 4096 0)\<rparr>"
  have sup: "super_ok disk" using geom by (simp add: fs_geom_def)
  have h1: "hhdm_offset ?s1 = hhdm_offset s" by (simp add: taken_def)
  obtain l where l: "ext2_read_block dev b ?p ?s1 =
      (0, ?s1\<lparr>phys_mem := store_bytes (phys_mem ?s1) ?p (fs_block disk (unat b)), io_log := l\<rparr>)"
    using read_block_ok[OF dev, of ?s1 ?p b] geom pg(2) b by (auto simp: fs_geom_taken h1)
  let ?m = "store_bytes (store_bytes (phys_mem s) ?p (replicate 4096 0)) ?p (fs_block disk (unat b))"
  let ?s2 = "(taken s)\<lparr>phys_mem := ?m, io_log := l, console := console s\<rparr>"
  have s2: "?s1\<lparr>phys_mem := store_bytes (phys_mem ?s1) ?p (fs_block disk (unat b)), io_log := l\<rparr> = ?s2"
    by (simp add: taken_def)
  have len: "fs_bsize disk \<le> 4096" by (rule bsize_le(1)[OF sup])
  have "load_bytes ?m ?p (fs_bsize disk) = fs_block disk (unat b)"
    using load_bytes_store_same[of "fs_block disk (unat b)"] len by simp
  then have data: "load_bytes ?m ?p c = take c (fs_block disk (unat b))"
    using load_bytes_sub[of 0 c "fs_bsize disk" ?m ?p] buf(4) by simp
  have at: "kptr (hhdm_offset s) (buf + of_nat (k + i)) = a + of_nat (k + i)" "4096 \<le> unat (a + of_nat (k + i) - ?p)" if "i < c" for i
  proof -
    have "k + i < n" using that buf(2) by simp
    then show "kptr (hhdm_offset s) (buf + of_nat (k + i)) = a + of_nat (k + i)" "4096 \<le> unat (a + of_nat (k + i) - ?p)"
      using buf(1) pg(4) unfolding buffer_at_def outside_free_def by blast+
  qed
  have cp: "copy_loop buf (of_nat k) ?p c ?s2 =
      ?s2\<lparr>phys_mem := store_bytes (phys_mem ?s2) (a + of_nat k) (load_bytes (phys_mem ?s2) ?p c)\<rparr>"
    by (rule copy_loop_ok) (use at pg(2) buf len in \<open>simp_all add: taken_def del: of_nat_add\<close>)
  let ?m' = "store_bytes ?m (a + of_nat k) (take c (fs_block disk (unat b)))"
  have free: "pmm_free_page ?p (copy_loop buf (of_nat k) ?p c ?s2) = s\<lparr>phys_mem := ?m', io_log := l, console := console s\<rparr>"
  proof -
    have "copy_loop buf (of_nat k) ?p c ?s2 = (taken s)\<lparr>phys_mem := ?m', io_log := l, console := console s\<rparr>"
      unfolding cp by (simp add: data)
    then show ?thesis using pg(6)[where m = ?m' and l = l and c = "console s"] by metis
  qed
  have "fs_effect s (a + of_nat k) (take c (fs_block disk (unat b))) [] (s\<lparr>phys_mem := ?m', io_log := l, console := console s\<rparr>)"
    using pg(4) len by (intro fs_effect_silentI) (auto simp: outside_free_def store_bytes_def)
  then show thesis
    using pg(1,3) l[unfolded s2] free by (intro that[of ?p ?s1 ?s2]) (simp_all add: taken_def)
qed

lemma fs_blocks_step:
  assumes "i < 12"
  shows "fs_blocks inode i = (if i_block inode i = 0 then [] else i_block inode i # fs_blocks inode (i + 1))"
  using assms by (simp add: fs_blocks_def upt_rec)

lemma buffer_at_effect: "fs_effect s b bs out s' \<Longrightarrow> buffer_at s' buf a n = buffer_at s buf a n"
  using fs_effect_pages[of s b bs out s'] by (simp add: buffer_at_def outside_free_def)

lemma fs_geom_effect: "fs_effect s b bs out s' \<Longrightarrow> fs_geom disk s' = fs_geom disk s"
  by (elim fs_effectE) (simp add: fs_geom_def)

lemma data_loop_ok:
  assumes dev: "ata_device dev disk"
  shows "i + n = 12 \<Longrightarrow> fs_geom disk s \<Longrightarrow> fs_pages s \<Longrightarrow> free_list s \<noteq> [] \<Longrightarrow>
    (\<forall>b\<in>set (fs_blocks inode i). unat b * fs_bsize disk < 2 ^ 32) \<Longrightarrow>
    buffer_at s buf a N \<Longrightarrow> k + unat remaining \<le> N \<Longrightarrow> N < 2 ^ 32 \<Longrightarrow>
    D = take (unat remaining) (fs_content disk (fs_blocks inode i)) \<Longrightarrow>
    \<exists>s'. data_loop dev inode buf n i remaining (of_nat k) s = (Some (remaining - of_nat (length D)), s') \<and>
      fs_effect s (a + of_nat k) D [] s'"
proof (induction n arbitrary: i s k remaining D)
  case 0
  then show ?case by (simp add: fs_blocks_def fs_content_def fs_effect_refl)
next
  case (Suc n)
  let ?b = "i_block inode i"
  note step = fs_blocks_step[of i inode]
  show ?case
  proof (cases "remaining = 0 \<or> ?b = 0")
    case True
    then have "D = []" using Suc.prems(1,9) step by (auto simp: fs_content_def)
    with True show ?thesis by (simp add: fs_effect_refl)
  next
    case False
    then have bl: "fs_blocks inode i = ?b # fs_blocks inode (i + 1)" using step Suc.prems(1) by simp
    let ?bs = "fs_bsize disk" and ?c = "min (unat remaining) (fs_bsize disk)"
    have bsz: "unat (block_size s) = ?bs" using Suc.prems(2) by (simp add: fs_geom_def)
    obtain p s1 s2 where st: "pmm_alloc_page s = (p, s1)" "p \<noteq> 0" "ext2_read_block dev ?b p s1 = (0, s2)" "block_size s2 = block_size s"
        "fs_effect s (a + of_nat k) (take ?c (fs_block disk (unat ?b))) [] (pmm_free_page p (copy_loop buf (of_nat k) p ?c s2))"
      by (rule block_step[OF dev Suc.prems(2,3,4) _ Suc.prems(6) _ Suc.prems(8), of ?b k ?c]) (use Suc.prems bl in auto)
    let ?s3 = "pmm_free_page p (copy_loop buf (of_nat k) p ?c s2)" and ?r = "remaining - of_nat ?c"
    have to_copy: "(if remaining > block_size s2 then block_size s2 else remaining) = of_nat ?c"
      using bsz st(4) by (auto simp: word_less_nat_alt min_def simp flip: bsz)
    have c: "unat (of_nat ?c :: u32) = ?c" using Suc.prems(7,8) by (simp add: unsigned_of_nat take_bit_nat_eq_self)
    have r: "unat ?r = unat remaining - ?c" using c by (simp add: unat_sub_if_size word_le_nat_alt)
    note eff = fs_effect_pages[OF st(5)]
    let ?D = "take (unat ?r) (fs_content disk (fs_blocks inode (i + 1)))"
    have lenc: "length (take ?c (fs_block disk (unat ?b))) = ?c" by simp
    have D: "D = take ?c (fs_block disk (unat ?b)) @ ?D"
      unfolding Suc.prems(9) bl r by (simp add: fs_content_def min_def)
    have "\<exists>s'. data_loop dev inode buf n (i + 1) ?r (of_nat (k + ?c)) ?s3 = (Some (?r - of_nat (length ?D)), s') \<and>
        fs_effect ?s3 (a + of_nat (k + ?c)) ?D [] s'"
    proof (rule Suc.IH)
      show "i + 1 + n = 12" using Suc.prems(1) by simp
      show "fs_geom disk ?s3" using Suc.prems(2) fs_geom_effect[OF st(5)] by simp
      show "fs_pages ?s3" "free_list ?s3 \<noteq> []" using Suc.prems(3,4) eff by simp_all
      show "\<forall>b\<in>set (fs_blocks inode (i + 1)). unat b * ?bs < 2 ^ 32" using Suc.prems(5) bl by simp
      show "buffer_at ?s3 buf a N" using Suc.prems(6) buffer_at_effect[OF st(5)] by simp
      show "k + ?c + unat ?r \<le> N" using Suc.prems(7) r by simp
    qed (use Suc.prems in simp_all)
    then obtain s' where s': "data_loop dev inode buf n (i + 1) ?r (of_nat (k + ?c)) ?s3 = (Some (?r - of_nat (length ?D)), s')"
      "fs_effect ?s3 (a + of_nat (k + ?c)) ?D [] s'" by blast
    have "length D = ?c + length ?D" unfolding D using lenc by simp
    then have "data_loop dev inode buf (Suc n) i remaining (of_nat k) s = (Some (remaining - of_nat (length D)), s')"
      using False st(1-3) s'(1) c by (simp add: to_copy Let_def algebra_simps)
    moreover have "length D < 2 ^ 32" unfolding Suc.prems(9) using Suc.prems(7,8) by simp
    then have "fs_effect s (a + of_nat k) D [] s'"
      using fs_effect_trans[OF st(5), of ?D "[]" s'] s'(2) lenc by (simp add: D add.assoc)
    ultimately show ?thesis by blast
  qed
qed

lemma sint_of_nat32: "n < 2 ^ 31 \<Longrightarrow> sint (of_nat n :: u32) = int n"
  by (simp add: signed_of_nat signed_take_bit_int_eq_self)

lemma length_fs_content: "length (fs_content disk bs) = length bs * fs_bsize disk"
  by (induction bs) (simp_all add: fs_content_def)

definition truncation :: "u8 list \<Rightarrow> u32 \<Rightarrow> string" where
  "truncation inode max_size = (if i_size inode > max_size then ''ext2: Warning - truncating file read\<newline>'' else [])"

lemma read_inode_data_ok:
  assumes "ata_device dev disk" "fs_geom disk s" "fs_pages s" "free_list s \<noteq> []" "blocks_ok disk inode"
    and "buffer_at s buf a (min (unat (i_size inode)) (unat max_size))"
  shows "\<exists>s'. ext2_read_inode_data dev inode buf max_size s = (int (length (take (unat max_size) (fs_data disk inode))), s') \<and>
    fs_effect s a (take (unat max_size) (fs_data disk inode)) (truncation inode max_size) s'"
proof -
  let ?size = "if i_size inode > max_size then max_size else i_size inode"
  let ?s = "if i_size inode > max_size then serial_print ''ext2: Warning - truncating file read\<newline>'' s else s"
  have size: "unat ?size = min (unat (i_size inode)) (unat max_size)" by (auto simp: word_less_nat_alt)
  let ?D = "take (unat max_size) (fs_data disk inode)"
  have D: "?D = take (unat ?size) (fs_content disk (fs_blocks inode 0))"
    unfolding size fs_data_def by (simp add: min.commute)
  have eff: "fs_effect s a [] (truncation inode max_size) ?s"
    using fs_effect_console[OF fs_effect_refl] fs_effect_refl by (auto simp: truncation_def)
  note ep = fs_effect_pages[OF eff]
  have "\<exists>s'. data_loop dev inode buf 12 0 ?size (of_nat 0) ?s = (Some (?size - of_nat (length ?D)), s') \<and>
      fs_effect ?s (a + of_nat 0) ?D [] s'"
  proof (rule data_loop_ok[OF assms(1)])
    show "fs_geom disk ?s" "fs_pages ?s" "free_list ?s \<noteq> []" "buffer_at ?s buf a (unat ?size)"
      using assms(2-4,6) size ep fs_geom_effect[OF eff] buffer_at_effect[OF eff] by simp_all
    show "\<forall>b\<in>set (fs_blocks inode 0). unat b * fs_bsize disk < 2 ^ 32" using assms(5) by (simp add: blocks_ok_def)
    show "unat ?size < 2 ^ 32" using unsigned_less[of ?size, where ?'a = nat] by simp
  qed (use D in simp_all)
  then obtain s' where s': "data_loop dev inode buf 12 0 ?size 0 ?s = (Some (?size - of_nat (length ?D)), s')"
    "fs_effect ?s a ?D [] s'" by auto
  have "length (fs_blocks inode 0) \<le> 12"
    using length_takeWhile_le[of "\<lambda>b. b \<noteq> 0" "map (i_block inode) [0..<12]"] by (simp add: fs_blocks_def)
  moreover have "fs_bsize disk \<le> 4096" using assms(2) by (simp add: fs_geom_def bsize_le)
  ultimately have "length (fs_content disk (fs_blocks inode 0)) \<le> 12 * 4096"
    unfolding length_fs_content by (rule mult_le_mono)
  then have len: "length ?D < 2 ^ 31" unfolding D by simp
  then have "sint (of_nat (length ?D) :: u32) = int (length ?D)" by (rule sint_of_nat32)
  moreover have "ext2_read_inode_data dev inode buf max_size s = (sint (of_nat (length ?D) :: u32), s')"
    using s'(1) by (auto simp: ext2_read_inode_data_def split: if_splits)
  moreover have "fs_effect s a ?D (truncation inode max_size) s'" using fs_effect_then[OF eff s'(2)] len by simp
  ultimately show ?thesis by simp
qed

section \<open>The root directory\<close>

lemma load_bytes_stored:
  assumes "\<And>i. i < length bs \<Longrightarrow> m (a + of_nat i) = store_bytes m' a bs (a + of_nat i)" "length bs < 2 ^ 64"
  shows "load_bytes m a (length bs) = bs"
  using assms by (intro nth_equalityI) (auto simp: load_bytes_def store_bytes_def unat_of_nat64)

lemma mounted_effect:
  assumes "mounted disk s" "fs_effect s a [] out s'"
  shows "mounted disk s'"
proof -
  obtain m l where s': "s' = s\<lparr>phys_mem := m, io_log := l, console := console s @ out\<rparr>"
    "\<forall>x. outside_free s x \<longrightarrow> m x = store_bytes (phys_mem s) a [] x" using assms(2) by (rule fs_effectE)
  let ?g = "group_desc s"
  have g: "page_ok ?g" "?g \<notin> set (free_list s)" "fs_pages s" "fs_bsize disk \<le> 4096"
    using assms(1) by (auto simp: mounted_def fs_page_def fs_geom_def bsize_le)
  have "outside_free s (?g + of_nat i)" if "i < fs_bsize disk" for i
    unfolding outside_free_def
  proof
    fix p assume p: "p \<in> set (free_list s)"
    with g(3) have "page_ok p" by (auto simp: fs_pages_def fs_page_def)
    moreover have "?g \<noteq> p" using p g(2) by auto
    ultimately show "4096 \<le> unat (?g + of_nat i - p)" using that g(1,4) by (intro pages_apart) simp_all
  qed
  then have "load_bytes m ?g (fs_bsize disk) = load_bytes (phys_mem s) ?g (fs_bsize disk)"
    using s'(2) by (intro load_bytes_cong) simp
  then show ?thesis
    using assms(1) fs_effect_pages[OF assms(2)] fs_geom_effect[OF assms(2), of disk]
    unfolding mounted_def by (simp add: s'(1))
qed

text \<open>A page taken from a stack with another page left is a buffer the file system may fill.\<close>

lemma buffer_at_mono: "buffer_at s buf a n \<Longrightarrow> k \<le> n \<Longrightarrow> buffer_at s buf a k"
  by (auto simp: buffer_at_def)

lemma taken_page_buffer:
  fixes s :: "'z pmm_state_scheme" and m :: memory
  assumes "fs_pages s" "2 \<le> length (free_list s)"
  defines "d \<equiv> last (free_list s)"
  defines "s2 \<equiv> (taken s)\<lparr>phys_mem := m\<rparr>"
  shows "fs_pages s2" "free_list s2 = butlast (free_list s)" "free_list s2 \<noteq> []" "buffer_at s2 d d 4096"
proof -
  have ne: "free_list s \<noteq> []" using assms(2) by auto
  note pg = take_page[OF assms(1) ne, folded d_def]
  show fl: "free_list s2 = butlast (free_list s)"
    using pg(7)[where m = m and l = "io_log s" and c = "console s"] by (simp add: s2_def free_list_def taken_def)
  show "free_list s2 \<noteq> []" using assms(2) arg_cong[OF fl, of length] by auto
  have sub: "set (free_list s2) \<subseteq> set (free_list s)" unfolding fl by (auto dest: in_set_butlastD)
  have "pmm_inv (snd (pmm_alloc_page s))" using assms(1) by (intro pmm_alloc_invariant) (simp add: fs_pages_def)
  then have "pmm_inv s2" by (simp add: pg(1) s2_def pmm_inv_def free_list_def taken_def)
  moreover have h: "hhdm_offset s2 = hhdm_offset s" by (simp add: s2_def taken_def)
  ultimately show "fs_pages s2" using assms(1) sub by (auto simp: fs_pages_def)
  have "outside_free s2 (d + of_nat i)" if "i < 4096" for i
    unfolding outside_free_def
  proof
    fix p assume p: "p \<in> set (free_list s2)"
    then have "d \<noteq> p" using pg(5) fl by auto
    moreover have "page_ok p" "page_ok d" using p sub assms(1) pg(2) by (auto simp: fs_pages_def fs_page_def)
    ultimately show "4096 \<le> unat (d + of_nat i - p)" using that by (intro pages_apart) simp_all
  qed
  then show "buffer_at s2 d d 4096" using fs_page_kptr[OF pg(2)] by (auto simp: buffer_at_def h)
qed

lemma length_fs_root:
  assumes "root_readable disk"
  shows "length (fs_root disk) \<le> 4096" "take (unat (4096 :: u32)) (fs_root disk) = fs_root disk"
    and "truncation (fs_inode disk 2) 4096 = []"
  using assms by (auto simp: root_readable_def fs_root_def fs_data_def truncation_def word_less_nat_alt)

lemma open_root:
  assumes dev: "ata_device dev disk" and mnt: "mounted disk s" and root: "root_readable disk" and free: "2 \<le> length (free_list s)"
  obtains s1 d s2 s3 where "ext2_read_inode dev EXT2_ROOT_INO s = Some (0, fs_inode disk 2, s1)"
    "pmm_alloc_page s1 = (d, s2)" "d \<noteq> 0" "ext2_read_inode_data dev (fs_inode disk 2) d 4096 s2 = (int (length (fs_root disk)), s3)"
    "kbytes s3 d (length (fs_root disk)) = fs_root disk" "console s3 = console s"
    "\<forall>out. fs_effect s a [] out (pmm_free_page d (s3\<lparr>console := console s3 @ out\<rparr>))"
proof -
  have r: "inode_ok disk 2" "blocks_ok disk (fs_inode disk 2)" "length (fs_root disk) \<le> 4096"
    using root length_fs_root(1)[OF root] by (simp_all add: root_readable_def)
  have ne: "free_list s \<noteq> []" using free by auto
  obtain s1 where 1: "ext2_read_inode dev EXT2_ROOT_INO s = Some (0, fs_inode disk 2, s1)" "fs_effect s a [] [] s1"
    using read_inode_ok[OF dev mnt ne, of EXT2_ROOT_INO a] r(1) by (auto simp: EXT2_ROOT_INO_def)
  note e1 = fs_effect_pages[OF 1(2)]
  have mnt1: "mounted disk s1" by (rule mounted_effect[OF mnt 1(2)])
  then have fp1: "fs_pages s1" "fs_geom disk s1" by (simp_all add: mounted_def)
  let ?d = "last (free_list s1)"
  let ?s2 = "(taken s1)\<lparr>phys_mem := store_bytes (phys_mem s1) ?d (replicate 4096 0)\<rparr>"
  have ne1: "free_list s1 \<noteq> []" "2 \<le> length (free_list s1)" using e1(1) ne free by simp_all
  note pg = take_page[OF fp1(1) ne1(1)] and tp = taken_page_buffer[OF fp1(1) ne1(2), where m = "store_bytes (phys_mem s1) ?d (replicate 4096 0)"]
  have "buffer_at ?s2 ?d ?d (min (unat (i_size (fs_inode disk 2))) (unat (4096 :: u32)))"
    by (rule buffer_at_mono[OF tp(4)]) simp
  moreover have "fs_geom disk ?s2" using fp1(2) by (simp add: fs_geom_taken)
  ultimately obtain s3 where 3: "ext2_read_inode_data dev (fs_inode disk 2) ?d 4096 ?s2 = (int (length (fs_root disk)), s3)"
      "fs_effect ?s2 ?d (fs_root disk) [] s3"
    using read_inode_data_ok[OF dev _ tp(1,3) r(2), of ?d ?d 4096]
      length_fs_root[OF root] by (auto simp flip: fs_root_def)
  obtain m l where s3: "s3 = ?s2\<lparr>phys_mem := m, io_log := l, console := console ?s2 @ []\<rparr>"
      "\<forall>x. outside_free ?s2 x \<longrightarrow> m x = store_bytes (phys_mem ?s2) ?d (fs_root disk) x" using 3(2) by (rule fs_effectE)
  have con: "console s3 = console s" using 1(2) by (auto simp: s3(1) taken_def elim: fs_effectE)
  have "outside_free ?s2 (?d + of_nat i)" if "i < 4096" for i
    using tp(4) that by (simp add: buffer_at_def)
  then have "load_bytes m ?d (length (fs_root disk)) = fs_root disk"
    using s3(2) r(3) by (intro load_bytes_stored) auto
  then have kb: "kbytes s3 ?d (length (fs_root disk)) = fs_root disk"
    using fs_page_kbytes[of s3 ?d 0 "length (fs_root disk)"] pg(2) r(3) by (simp add: s3(1) taken_def)
  have "fs_effect s a [] out (pmm_free_page ?d (s3\<lparr>console := console s3 @ out\<rparr>))" for out
  proof -
    have "s3\<lparr>console := console s3 @ out\<rparr> = (taken s1)\<lparr>phys_mem := m, io_log := l, console := console s1 @ out\<rparr>"
      by (simp add: s3(1) taken_def)
    then have fr: "pmm_free_page ?d (s3\<lparr>console := console s3 @ out\<rparr>) = s1\<lparr>phys_mem := m, io_log := l, console := console s1 @ out\<rparr>"
      using pg(6)[where m = m and l = l and c = "console s1 @ out"] by metis
    have "m x = store_bytes (phys_mem s1) a [] x" if "outside_free s1 x" for x
    proof -
      have "outside_free ?s2 x" using that unfolding outside_free_def tp(2) by (auto dest: in_set_butlastD)
      moreover have "4096 \<le> unat (x - ?d)" using that pg(4) by (simp add: outside_free_def)
      ultimately show ?thesis using s3(2) r(3) by (simp add: store_bytes_def taken_def)
    qed
    then have "fs_effect s1 a [] out (pmm_free_page ?d (s3\<lparr>console := console s3 @ out\<rparr>))"
      unfolding fr by (rule fs_effectI)
    then show ?thesis using fs_effect_then[OF 1(2), of a "[]" out] by simp
  qed
  then show thesis using that[OF 1(1) pg(1,3) 3(1) kb con] by blast
qed

section \<open>Reading a file\<close>

definition path_bytes :: "string \<Rightarrow> u8 list" where
  "path_bytes pathname = map (\<lambda>c. of_nat (of_char c)) (file_name pathname)"

text \<open>The specification: at most \<open>n\<close> bytes of the regular file of that name in the root directory.\<close>

definition fs_read :: "(nat \<Rightarrow> u8) \<Rightarrow> u8 list \<Rightarrow> nat \<Rightarrow> u8 list option" where
  "fs_read disk name n =
     (let ino = fs_lookup disk name; inode = fs_inode disk (unat ino)
      in if ino = 0 \<or> \<not> is_regular inode then None else Some (take n (fs_data disk inode)))"

definition file_ok :: "(nat \<Rightarrow> u8) \<Rightarrow> u8 list \<Rightarrow> bool" where
  "file_ok disk name \<longleftrightarrow> fs_lookup disk name \<noteq> 0 \<longrightarrow>
     inode_ok disk (unat (fs_lookup disk name)) \<and> blocks_ok disk (fs_inode disk (unat (fs_lookup disk name)))"

definition file_size :: "(nat \<Rightarrow> u8) \<Rightarrow> u8 list \<Rightarrow> nat" where
  "file_size disk name = unat (i_size (fs_inode disk (unat (fs_lookup disk name))))"

lemma path_bytes_nonzero: "NUL \<notin> set pathname \<Longrightarrow> 0 \<notin> set (path_bytes pathname)"
  by (auto simp: path_bytes_def file_name_def of_char_zero_iff dest!: sym[of 0] split: list.splits if_splits)

lemma read_target_ok:
  assumes "ata_device dev disk" "mounted disk s" "free_list s \<noteq> []" "inode_ok disk (unat n)" "blocks_ok disk (fs_inode disk (unat n))"
    and "buffer_at s buf a (min (unat (i_size (fs_inode disk (unat n)))) (unat max_size))"
  shows "\<exists>r s'. read_target dev n buf max_size s = Some (r, s') \<and>
    (if is_regular (fs_inode disk (unat n))
     then let D = take (unat max_size) (fs_data disk (fs_inode disk (unat n)))
          in r = int (length D) \<and> fs_effect s a D (truncation (fs_inode disk (unat n)) max_size) s'
     else r = - 1 \<and> fs_effect s a [] ''ext2: Not a regular file\<newline>'' s')"
proof -
  let ?ino = "fs_inode disk (unat n)"
  obtain s1 where 1: "ext2_read_inode dev n s = Some (0, ?ino, s1)" "fs_effect s a [] [] s1"
    using read_inode_ok[OF assms(1-4), of a] by blast
  show ?thesis
  proof (cases "is_regular ?ino")
    case False
    then show ?thesis using 1 fs_effect_console[OF 1(2), of "''ext2: Not a regular file\<newline>''"]
      by (simp add: read_target_def is_regular_def)
  next
    case True
    have mnt: "fs_geom disk s1" "fs_pages s1" "free_list s1 \<noteq> []"
      using mounted_effect[OF assms(2) 1(2)] fs_effect_pages[OF 1(2)] assms(3) by (simp_all add: mounted_def)
    have "buffer_at s1 buf a (min (unat (i_size ?ino)) (unat max_size))" using assms(6) buffer_at_effect[OF 1(2)] by simp
    from read_inode_data_ok[OF assms(1) mnt assms(5) this] obtain s' where
      2: "ext2_read_inode_data dev ?ino buf max_size s1 = (int (length (take (unat max_size) (fs_data disk ?ino))), s')"
         "fs_effect s1 a (take (unat max_size) (fs_data disk ?ino)) (truncation ?ino max_size) s'" by blast
    have "length (take (unat max_size) (fs_data disk ?ino)) < 2 ^ 64"
      using unsigned_less[of max_size, where ?'a = nat] by (simp add: min_def)
    then have "fs_effect s a (take (unat max_size) (fs_data disk ?ino)) (truncation ?ino max_size) s'"
      using fs_effect_then[OF 1(2) 2(2)] by simp
    then show ?thesis using True 1(1) 2(1) by (simp add: read_target_def is_regular_def Let_def)
  qed
qed

lemma effect_delivers:
  assumes "fs_effect s a D out s'" "buffer_at s buf a n" "length D \<le> n" "n < 2 ^ 64"
  shows "load_bytes (phys_mem s') a (length D) = D"
  using assms by (elim fs_effectE) (auto simp: buffer_at_def intro!: load_bytes_stored)


section \<open>Listing the root directory\<close>

text \<open>
  C20. \<^verbatim>\<open>ext2_list_root\<close> prints the root directory: on a well-formed image it returns, prints
  one line for each entry in use, in the order of the directory, and leaves memory and
  allocator as they were.
\<close>

theorem ext2_list_root_correct:
  assumes dev: "ata_device dev disk" and mnt: "mounted disk s" and root: "root_ok disk" and free: "2 \<le> length (free_list s)"
  shows "\<exists>s'. ext2_list_root dev s = Some s' \<and>
    fs_effect s a [] (''\<newline>Files in root directory:\<newline>'' @ concat (map entry_line (dir_entries (fs_root disk))) @ ''\<newline>'') s'"
proof -
  let ?hd = "''\<newline>Files in root directory:\<newline>''" and ?lines = "concat (map entry_line (dir_entries (fs_root disk)))"
  let ?s = "serial_print ?hd s"
  have rd: "root_readable disk" using root by (simp add: root_ok_def)
  have e0: "fs_effect s a [] ?hd ?s" using fs_effect_console[OF fs_effect_refl, where str = ?hd] by (simp only: append_Nil)
  have mnt0: "mounted disk ?s" "2 \<le> length (free_list ?s)" "ext2_ready s"
    using mounted_effect[OF mnt e0] fs_effect_pages(1)[OF e0] free mnt by (simp_all add: mounted_def)
  obtain s1 d s2 s3 where o: "ext2_read_inode dev EXT2_ROOT_INO ?s = Some (0, fs_inode disk 2, s1)"
    "pmm_alloc_page s1 = (d, s2)" "d \<noteq> 0" "ext2_read_inode_data dev (fs_inode disk 2) d 4096 s2 = (int (length (fs_root disk)), s3)"
    "kbytes s3 d (length (fs_root disk)) = fs_root disk" "console s3 = console ?s"
    "\<forall>out. fs_effect ?s a [] out (pmm_free_page d (s3\<lparr>console := console s3 @ out\<rparr>))"
    by (rule open_root[OF dev mnt0(1) rd mnt0(2)])
  have "length (fs_root disk) < 2 ^ 31" using length_fs_root(1)[OF rd] by simp
  then have l: "list_loop d (word_of_int (int (length (fs_root disk)))) 0 s3 = Some (s3\<lparr>console := console s3 @ ?lines\<rparr>)"
    using list_loop_ok[OF _ o(5), of 0] root by (simp add: root_ok_def)
  let ?s' = "pmm_free_page d (s3\<lparr>console := console s3 @ ?lines @ ''\<newline>''\<rparr>)"
  have "serial_print ''\<newline>'' (s3\<lparr>console := console s3 @ ?lines\<rparr>) = s3\<lparr>console := console s3 @ ?lines @ ''\<newline>''\<rparr>"
    by (simp add: serial_print_def)
  then have "ext2_list_root dev s = Some ?s'"
    unfolding ext2_list_root_def using mnt0(3) o(1-4) l by simp
  moreover have "fs_effect s a [] (?hd @ ?lines @ ''\<newline>'') ?s'"
    by (rule fs_effect_then[OF e0 o(7)[rule_format]]) simp
  ultimately show ?thesis by blast
qed

section \<open>Mounting\<close>

lemma take_fs_sb [simp]: "take 1024 (fs_sb disk) = fs_sb disk"
  by (simp add: fs_sb_def)

lemma sector_of_2: "sector_of 2 = 2"
  by (simp add: sector_of_def)

lemma init_block_size:
  assumes "super_ok disk"
  shows "unat (push_bit (unat (s_log_block_size (fs_sb disk) AND 31)) (1024 :: u32)) = fs_bsize disk"
proof -
  let ?w = "s_log_block_size (fs_sb disk)"
  have "unat ?w \<in> {0, 1, 2}" using assms by (auto simp: super_ok_def)
  then have "?w \<in> {0, 1, 2}" by (auto simp: word_unat_eq_iff)
  then show ?thesis by (auto simp: fs_bsize_def)
qed

lemma mount_groups:
  assumes dev: "ata_device dev disk" and geom: "fs_geom disk s" and sup: "sb s = fs_sb disk"
    and pages: "fs_pages s" "free_list s \<noteq> []"
  defines "p \<equiv> last (free_list s)"
  obtains s1 l where "pmm_alloc_page s = (p, s1)" "p \<noteq> 0"
    "ext2_read_block dev (if block_size s1 = 1024 then 2 else 1) p (s1\<lparr>group_desc := p\<rparr>) =
       (0, s1\<lparr>group_desc := p, phys_mem := store_bytes (phys_mem s1) p (fs_bgdt disk), io_log := l\<rparr>)"
    "block_size s1 = block_size s"
    "mounted disk (s1\<lparr>group_desc := p, phys_mem := store_bytes (phys_mem s1) p (fs_bgdt disk), io_log := l, ext2_ready := True\<rparr>)"
    "free_list s1 = butlast (free_list s)" "phys_mem s1 = store_bytes (phys_mem s) p (replicate 4096 0)"
proof -
  note pg = take_page[OF pages, folded p_def]
  let ?s1 = "(taken s)\<lparr>phys_mem := store_bytes (phys_mem s) p (replicate 4096 0)\<rparr>"
  let ?b = "if block_size ?s1 = 1024 then 2 else 1 :: u32"
  have g: "super_ok disk" "unat (block_size s) = fs_bsize disk" using geom by (simp_all add: fs_geom_def)
  have len: "fs_bsize disk \<le> 4096" by (rule bsize_le[OF g(1)])
  have "block_size s = 1024 \<longleftrightarrow> fs_bsize disk = 1024" unfolding g(2)[symmetric] by (auto simp: word_unat_eq_iff)
  then have b: "unat ?b = (if fs_bsize disk = 1024 then 2 else 1)" by (simp add: taken_def)
  have fl: "free_list ?s1 = butlast (free_list s)" "pmm_inv ?s1"
    using alloc_nonempty(2)[OF pages(2)] pmm_alloc_invariant[of s] pages(1) pg(1) by (simp_all add: fs_pages_def)
  have pages1: "fs_pages ?s1" using fl pages(1) by (auto simp: fs_pages_def taken_def dest: in_set_butlastD)
  have small: "(if fs_bsize disk = 1024 then 2 else 1) * fs_bsize disk < 2 ^ 32" using len by auto
  obtain l where l: "ext2_read_block dev ?b p (?s1\<lparr>group_desc := p\<rparr>) =
      (0, ?s1\<lparr>group_desc := p, phys_mem := store_bytes (phys_mem ?s1) p (fs_bgdt disk), io_log := l\<rparr>)"
    using read_block_ok[OF dev, of "?s1\<lparr>group_desc := p\<rparr>" p ?b] pg(2) geom b small
    by (auto simp: fs_geom_def taken_def fs_bgdt_def)
  have "length (fs_bgdt disk) = fs_bsize disk" by (simp add: fs_bgdt_def)
  then have "load_bytes (store_bytes (phys_mem ?s1) p (fs_bgdt disk)) p (fs_bsize disk) = fs_bgdt disk"
    using load_bytes_store_same[of "fs_bgdt disk" "phys_mem ?s1" p] len by simp
  moreover let ?t = "?s1\<lparr>group_desc := p, phys_mem := store_bytes (phys_mem ?s1) p (fs_bgdt disk), io_log := l, ext2_ready := True\<rparr>"
  have "fs_pages ?t = fs_pages ?s1" "free_list ?t = free_list ?s1"
    by (simp_all add: fs_pages_def pmm_inv_def free_list_def taken_def)
  ultimately have "mounted disk ?t"
    using geom sup pages1 pg(2,5) fl(1) by (simp add: mounted_def fs_geom_def taken_def)
  with pg(1,3) l fl(1) show thesis by (intro that[of ?s1 l]) (simp_all add: taken_def)
qed


end
