(* ===== verification/Ext2_Faults.thy ===== *)
theory Ext2_Faults
  imports Ext2_Read
begin

text \<open>
  The ext2 code when things go wrong: arbitrary drives, missing memory, file systems that
  are not mounted or not valid, directories with records of length zero.
\<close>

section \<open>Arbitrary drives\<close>

text \<open>States that differ in memory, bus history and console only.\<close>

definition fs_frame :: "'z machine_scheme \<Rightarrow> 'z machine_scheme \<Rightarrow> bool" where
  "fs_frame s s' \<longleftrightarrow> s' = s\<lparr>phys_mem := phys_mem s', io_log := io_log s', console := console s'\<rparr>"

lemma fs_frameI: "s' = s\<lparr>phys_mem := m, io_log := l, console := c\<rparr> \<Longrightarrow> fs_frame s s'"
  by (simp add: fs_frame_def)

lemma fs_frame_refl [simp]: "fs_frame s s"
  by (simp add: fs_frame_def)

lemma fs_frame_trans [trans]:
  assumes "fs_frame s s1" "fs_frame s1 s2"
  shows "fs_frame s s2"
proof -
  have "s2 = (s\<lparr>phys_mem := phys_mem s1, io_log := io_log s1, console := console s1\<rparr>)
      \<lparr>phys_mem := phys_mem s2, io_log := io_log s2, console := console s2\<rparr>"
    using assms unfolding fs_frame_def by metis
  then show ?thesis by (simp add: fs_frame_def)
qed

lemma fs_frame_updates [simp]:
  "fs_frame s (t\<lparr>console := c\<rparr>) = fs_frame s t" "fs_frame s (t\<lparr>phys_mem := m\<rparr>) = fs_frame s t"
proof -
  have "fs_frame t (t\<lparr>console := c\<rparr>)" "fs_frame (t\<lparr>console := c\<rparr>) t"
      "fs_frame t (t\<lparr>phys_mem := m\<rparr>)" "fs_frame (t\<lparr>phys_mem := m\<rparr>) t"
    by (simp_all add: fs_frame_def)
  then show "fs_frame s (t\<lparr>console := c\<rparr>) = fs_frame s t" "fs_frame s (t\<lparr>phys_mem := m\<rparr>) = fs_frame s t"
    using fs_frame_trans by blast+
qed

lemma fs_frameE:
  assumes "fs_frame s s'"
  obtains m l c where "s' = s\<lparr>phys_mem := m, io_log := l, console := c\<rparr>"
  using assms unfolding fs_frame_def by blast

lemma fs_frame_inv: "fs_frame s s' \<Longrightarrow> pmm_inv s' = pmm_inv s" "fs_frame s s' \<Longrightarrow> free_list s' = free_list s"
  by (elim fs_frameE; simp add: pmm_inv_def)+

lemma read_block_frame: "fs_frame s (snd (ext2_read_block dev b p s))"
proof -
  obtain r bs s' where r: "ata_read_data dev 0 (b * block_size s div 512) (ucast (block_size s div 512)) s = (r, bs, s')"
    by (metis prod_cases3)
  have "\<exists>n. bus_only n s s'"
    using read_data_any[where dev = dev and drive = 0 and lba = "b * block_size s div 512"
        and count = "ucast (block_size s div 512)" and s = s]
    unfolding r by auto
  then have "s' = s\<lparr>phys_mem := phys_mem s, io_log := io_log s', console := console s'\<rparr>" by (auto simp: bus_only_def)
  then have "fs_frame s s'" by (rule fs_frameI)
  then show ?thesis by (simp add: ext2_read_block_def ata_read_sectors_def Let_def r)
qed

lemma copy_loop_frame [simp]: "fs_frame s (copy_loop buf k p n t) = fs_frame s t"
  by (simp add: copy_loop_def)

text \<open>A page is taken and, once it is given back, the allocator is as it was.\<close>

lemma alloc_frame:
  assumes "pmm_inv s" "pmm_alloc_page s = (p, s1)"
  shows "p = 0 \<Longrightarrow> fs_frame s s1" "pmm_inv s1"
    and "p \<noteq> 0 \<Longrightarrow> fs_frame s1 t \<Longrightarrow> fs_frame s (pmm_free_page p t)"
proof -
  show "pmm_inv s1" using pmm_alloc_invariant[OF assms(1)] assms(2) by simp
  have nz: "p \<noteq> 0" if "free_list s \<noteq> []"
    using that assms alloc_nonempty(1)[OF that] by (intro page_ok_not_null) (auto simp: pmm_inv_def)
  show "p = 0 \<Longrightarrow> fs_frame s s1"
    using nz assms(2) pmm_alloc_empty[of s] by (cases "free_list s = []") auto
  assume p: "p \<noteq> 0" and t: "fs_frame s1 t"
  then have ne: "free_list s \<noteq> []" using assms(2) pmm_alloc_empty[of s] by auto
  note a = alloc_nonempty[OF ne]
  have s1: "fs_frame (taken s) s1" "p = last (free_list s)" using a(1) assms(2) by (auto simp: taken_def)
  obtain m l c where t': "t = (taken s)\<lparr>phys_mem := m, io_log := l, console := c\<rparr>"
    using fs_frame_trans[OF s1(1) t] by (rule fs_frameE)
  have "pmm_free_page p t = s\<lparr>phys_mem := m, io_log := l, console := c\<rparr>"
    unfolding t' s1(2) by (rule restore_page[OF assms(1) ne])
  then show "fs_frame s (pmm_free_page p t)" by (rule fs_frameI)
qed

lemma read_inode_frame:
  assumes "pmm_inv s" "ext2_read_inode dev n s = Some (r, inode, s')"
  shows "fs_frame s s'"
proof -
  obtain blk off where loc: "inode_location n s = (blk, off)" by (cases "inode_location n s")
  obtain p s1 where al: "pmm_alloc_page s = (p, s1)" by (cases "pmm_alloc_page s")
  obtain r2 s2 where rb: "ext2_read_block dev blk p s1 = (r2, s2)" by (cases "ext2_read_block dev blk p s1")
  have "fs_frame s1 s2" using read_block_frame[of s1 dev blk p] rb by simp
  with assms(2) alloc_frame[OF assms(1) al] show ?thesis
    by (auto simp: ext2_read_inode_def loc al rb Let_def split: if_splits)
qed

lemma data_loop_frame: "pmm_inv s \<Longrightarrow> fs_frame s (snd (data_loop dev inode buf n i remaining k s))"
proof (induction n arbitrary: i remaining k s)
  case (Suc n)
  obtain p s1 where al: "pmm_alloc_page s = (p, s1)" by (cases "pmm_alloc_page s")
  obtain r s2 where rb: "ext2_read_block dev (i_block inode i) p s1 = (r, s2)" by (cases "ext2_read_block dev (i_block inode i) p s1")
  have f: "fs_frame s1 s2" using read_block_frame[of s1 dev "i_block inode i" p] rb by simp
  have IH: "fs_frame s (snd (data_loop dev inode buf n (i + 1) r' k' (pmm_free_page p (copy_loop buf k p c s2))))"
    if "p \<noteq> 0" for r' k' c
  proof -
    have *: "fs_frame s (pmm_free_page p (copy_loop buf k p c s2))"
      using that f by (intro alloc_frame(3)[OF Suc.prems al]) simp_all
    then have "pmm_inv (pmm_free_page p (copy_loop buf k p c s2))" using Suc.prems fs_frame_inv(1) by blast
    with Suc.IH * show ?thesis by (blast intro: fs_frame_trans)
  qed
  show ?case using alloc_frame[OF Suc.prems al] f IH by (auto simp: al rb Let_def)
qed simp

lemma read_inode_data_frame:
  assumes "pmm_inv s" "ext2_read_inode_data dev inode buf n s = (r, s')"
  shows "fs_frame s s'"
proof -
  have "fs_frame s (snd (data_loop dev inode buf 12 0 size 0 (s\<lparr>console := c\<rparr>)))" for size c
  proof -
    have "pmm_inv (s\<lparr>console := c\<rparr>)" using assms(1) fs_frame_inv(1)[of s "s\<lparr>console := c\<rparr>"] by simp
    from data_loop_frame[OF this] show ?thesis using fs_frame_trans[of s "s\<lparr>console := c\<rparr>"] by simp
  qed
  then have f: "fs_frame s (snd (data_loop dev inode buf 12 0 size 0 (s\<lparr>console := c\<rparr>)))"
      "fs_frame s (snd (data_loop dev inode buf 12 0 size 0 s))" for size c
    using data_loop_frame[OF assms(1)] by blast+
  define size where "size = (if i_size inode > n then n else i_size inode)"
  define s0 where "s0 = (if i_size inode > n then serial_print ''ext2: Warning - truncating file read\<newline>'' s else s)"
  obtain q s2 where q: "data_loop dev inode buf 12 0 size 0 s0 = (q, s2)" by (cases "data_loop dev inode buf 12 0 size 0 s0")
  have "fs_frame s (snd (data_loop dev inode buf 12 0 size 0 s0))" using f by (simp add: s0_def)
  then have "fs_frame s s2" using q by simp
  moreover have "snd (ext2_read_inode_data dev inode buf n s) = s2"
    using q by (cases q) (auto simp: ext2_read_inode_data_def size_def s0_def split: if_splits)
  ultimately show ?thesis using assms(2) by simp
qed

lemma read_target_frame:
  assumes "pmm_inv s" "read_target dev n buf k s = Some (r, s')"
  shows "fs_frame s s'"
proof -
  obtain r1 ino s1 where i: "ext2_read_inode dev n s = Some (r1, ino, s1)"
    using assms(2) by (auto simp: read_target_def split: option.splits)
  have f: "fs_frame s s1" by (rule read_inode_frame[OF assms(1) i])
  then have "pmm_inv s1" using assms(1) fs_frame_inv(1) by blast
  then have "fs_frame s1 (snd (ext2_read_inode_data dev ino buf k s1))"
    by (rule read_inode_data_frame[where r = "fst (ext2_read_inode_data dev ino buf k s1)"]) simp
  with assms(2) i f show ?thesis by (auto simp: read_target_def split: if_splits intro: fs_frame_trans)
qed

lemma list_loop_frame:
  assumes "list_loop p n off s = Some s'"
  shows "fs_frame s s'"
proof -
  have *: "fs_frame s (print_entry e s)" for e and s :: "'a machine_scheme"
    by (simp add: print_entry_def Let_def serial_print_dec_text)
  show ?thesis using assms
  proof (rule list_loop.raw_induct[where P = "\<lambda>p n off s s'. fs_frame s s'", rotated], goal_cases)
    case (1 ll p n off s s')
    define s1 where "s1 = (if d_inode s (p + ucast off) = 0 then s else print_entry (p + ucast off) s)"
    have "fs_frame s s1" using * by (simp add: s1_def)
    moreover have "fs_frame s1 s'" if "off < n"
      using 1(2) that by (auto simp: Let_def simp flip: s1_def intro: 1(1))
    ultimately show ?case using 1(2) fs_frame_trans by (cases "off < n") auto
  qed
qed

text \<open>The part that reading and listing have in common: the root inode and its data in a fresh page.\<close>

lemma root_frame:
  assumes "pmm_inv s" "ext2_read_inode dev n s = Some (r, ino, s1)" "pmm_alloc_page s1 = (d, s2)"
    "ext2_read_inode_data dev ino d k s2 = (b, s3)"
  shows "fs_frame s s1" "d = 0 \<Longrightarrow> fs_frame s s2" "d \<noteq> 0 \<Longrightarrow> fs_frame s3 t \<Longrightarrow> fs_frame s (pmm_free_page d t)"
proof -
  show f: "fs_frame s s1" by (rule read_inode_frame[OF assms(1,2)])
  then have inv: "pmm_inv s1" using assms(1) fs_frame_inv(1) by blast
  note a = alloc_frame[OF inv assms(3)]
  show "d = 0 \<Longrightarrow> fs_frame s s2" using fs_frame_trans[OF f] a(1) by blast
  assume "d \<noteq> 0" "fs_frame s3 t"
  moreover have "fs_frame s2 s3" by (rule read_inode_data_frame[OF a(2) assms(4)])
  ultimately show "fs_frame s (pmm_free_page d t)" using a(3) f by (blast intro: fs_frame_trans)
qed

lemma read_file_frame:
  assumes inv: "pmm_inv s" and run: "ext2_read_file dev pathname buf n s = Some (r, s')"
  shows "fs_frame s s'"
proof (cases "ext2_ready s \<and> CHR ''/'' \<notin> set (file_name pathname)")
  case False
  with run show ?thesis by (auto simp: ext2_read_file_def Let_def split: if_splits)
next
  case True
  then obtain r1 ino s1 where i: "ext2_read_inode dev EXT2_ROOT_INO s = Some (r1, ino, s1)"
    using run by (auto simp: ext2_read_file_def Let_def split: option.splits)
  obtain d s2 where al: "pmm_alloc_page s1 = (d, s2)" by (cases "pmm_alloc_page s1")
  obtain b s3 where da: "ext2_read_inode_data dev ino d 4096 s2 = (b, s3)" by (cases "ext2_read_inode_data dev ino d 4096 s2")
  note f = root_frame[OF inv i al da]
  show ?thesis
  proof (cases "r1 \<noteq> 0 \<or> d = 0 \<or> b < 0")
    case True
    with run f(1,2) f(3)[of s3] \<open>ext2_ready s \<and> _\<close> i al da show ?thesis
      by (auto simp: ext2_read_file_def Let_def split: if_splits)
  next
    case False
    then have f4: "fs_frame s (pmm_free_page d s3)" using f(3)[of s3] by simp
    then have inv4: "pmm_inv (pmm_free_page d s3)" using inv fs_frame_inv(1) by blast
    from run False \<open>ext2_ready s \<and> _\<close> i al da obtain t where
      t: "find_loop d (path_bytes pathname) (word_of_int b) 0 s3 = Some t"
         "if t = 0 then s' = serial_print ''\<newline>'' (serial_print (file_name pathname)
            (serial_print ''ext2: File not found: '' (pmm_free_page d s3)))
          else read_target dev t buf n (pmm_free_page d s3) = Some (r, s')"
      by (auto simp: ext2_read_file_def path_bytes_def Let_def simp del: serial_print_def split: option.splits if_splits)
    show ?thesis
    proof (cases "t = 0")
      case True
      with t f4 show ?thesis by simp
    next
      case False
      with t have "fs_frame (pmm_free_page d s3) s'" by (intro read_target_frame[OF inv4]) simp
      with f4 show ?thesis by (rule fs_frame_trans)
    qed
  qed
qed

lemma list_root_frame:
  assumes inv: "pmm_inv s" and run: "ext2_list_root dev s = Some s'"
  shows "fs_frame s s'"
proof (cases "ext2_ready s")
  case False
  with run show ?thesis by (simp add: ext2_list_root_def) auto
next
  case True
  let ?s = "serial_print ''\<newline>Files in root directory:\<newline>'' s"
  have fs: "fs_frame s ?s" by simp
  then have inv': "pmm_inv ?s" using inv fs_frame_inv(1) by blast
  obtain r1 ino s1 where i: "ext2_read_inode dev EXT2_ROOT_INO ?s = Some (r1, ino, s1)"
    using run True by (auto simp: ext2_list_root_def simp del: serial_print_def split: option.splits)
  obtain d s2 where al: "pmm_alloc_page s1 = (d, s2)" by (cases "pmm_alloc_page s1")
  obtain b s3 where da: "ext2_read_inode_data dev ino d 4096 s2 = (b, s3)" by (cases "ext2_read_inode_data dev ino d 4096 s2")
  note f = root_frame[OF inv' i al da]
  have "fs_frame ?s s'"
  proof (cases "r1 \<noteq> 0 \<or> d = 0 \<or> b < 0")
    case True
    with run f(1,2) f(3)[of "serial_print str s3" for str] \<open>ext2_ready s\<close> i al da show ?thesis
      by (auto simp: ext2_list_root_def split: if_splits)
  next
    case False
    with run True i al da obtain s4 where
      l: "list_loop d (word_of_int b) 0 s3 = Some s4" "s' = pmm_free_page d (serial_print ''\<newline>'' s4)"
      by (auto simp: ext2_list_root_def simp del: serial_print_def split: if_splits)
    then show ?thesis using False f(3)[of "serial_print ''\<newline>'' s4"] list_loop_frame[OF l(1)] by simp
  qed
  with fs show ?thesis by (rule fs_frame_trans)
qed


section \<open>Error paths\<close>

text \<open>
  C27. Errors of the file system: without a mounted file system nothing is read; paths into
  subdirectories are refused; without free memory reading fails and changes nothing but the
  console; a superblock that promises no inodes per group, or a block size that was shifted
  out, stops the machine with a division by zero; an image with a wrong magic number is not
  mounted and costs no memory.
\<close>

theorem ext2_error_paths:
  shows "(\<not> ext2_ready s \<longrightarrow>
      ext2_read_file dev pathname buf n s = Some (- 1, serial_print ''ext2: Filesystem not initialized\<newline>'' s) \<and>
      ext2_list_root dev s = Some (serial_print ''ext2: Filesystem not initialized\<newline>'' s)) \<and>
    (ext2_ready s \<and> CHR ''/'' \<in> set (file_name pathname) \<longrightarrow>
      ext2_read_file dev pathname buf n s = Some (- 1, serial_print ''ext2: Subdirectories not supported yet\<newline>'' s)) \<and>
    (ext2_ready s \<and> CHR ''/'' \<notin> set (file_name pathname) \<and> s_inodes_per_group (sb s) \<noteq> 0 \<and> block_size s \<noteq> 0 \<and> free_list s = [] \<longrightarrow>
      (\<exists>out. ext2_read_file dev pathname buf n s = Some (- 1, serial_print out s))) \<and>
    (ext2_ready s \<and> CHR ''/'' \<notin> set (file_name pathname) \<and> (s_inodes_per_group (sb s) = 0 \<or> block_size s = 0) \<longrightarrow>
      ext2_read_file dev pathname buf n s = None) \<and>
    (ata_device dev disk \<and> s_magic (fs_sb disk) \<noteq> EXT2_MAGIC \<longrightarrow>
      (\<exists>s'. ext2_init dev s = (- 1, s') \<and> ext2_ready s' = ext2_ready s \<and> phys_mem s' = phys_mem s \<and> free_list s' = free_list s))"
proof (intro conjI impI)
  show "\<not> ext2_ready s \<Longrightarrow> ext2_read_file dev pathname buf n s = Some (- 1, serial_print ''ext2: Filesystem not initialized\<newline>'' s)"
    "\<not> ext2_ready s \<Longrightarrow> ext2_list_root dev s = Some (serial_print ''ext2: Filesystem not initialized\<newline>'' s)"
    by (simp_all add: ext2_read_file_def ext2_list_root_def)
  show "ext2_ready s \<and> CHR ''/'' \<in> set (file_name pathname) \<Longrightarrow>
      ext2_read_file dev pathname buf n s = Some (- 1, serial_print ''ext2: Subdirectories not supported yet\<newline>'' s)"
    by (simp add: ext2_read_file_def)
  show "ext2_ready s \<and> CHR ''/'' \<notin> set (file_name pathname) \<and> (s_inodes_per_group (sb s) = 0 \<or> block_size s = 0) \<Longrightarrow>
      ext2_read_file dev pathname buf n s = None"
    by (auto simp: ext2_read_file_def ext2_read_inode_def EXT2_ROOT_INO_def)
  assume *: "ext2_ready s \<and> CHR ''/'' \<notin> set (file_name pathname) \<and> s_inodes_per_group (sb s) \<noteq> 0 \<and> block_size s \<noteq> 0 \<and> free_list s = []"
  let ?out = "''PMM: Error: Out of memory!\<newline>'' @ ''ext2: Failed to allocate buffer\<newline>''"
  have "ext2_read_inode dev EXT2_ROOT_INO s = Some (1, [], serial_print ?out s)"
    using * by (simp add: ext2_read_inode_def EXT2_ROOT_INO_def pmm_alloc_empty case_prod_beta)
  then have "ext2_read_file dev pathname buf n s = Some (- 1, serial_print ?out s)"
    using * by (simp add: ext2_read_file_def del: serial_print_def)
  then show "\<exists>out. ext2_read_file dev pathname buf n s = Some (- 1, serial_print out s)" by blast
next
  assume *: "ata_device dev disk \<and> s_magic (fs_sb disk) \<noteq> EXT2_MAGIC"
  let ?s1 = "serial_print ''ext2: Initializing ext2 filesystem...\<newline>'' s"
  obtain l where rd: "ata_read_data dev 0 2 2 ?s1 = (0, fs_sb disk, ?s1\<lparr>io_log := l @ io_log ?s1\<rparr>)"
    using read_data_device[of dev disk 2 2 ?s1] * by (auto simp: sector_of_2 fs_sb_def)
  show "\<exists>s'. ext2_init dev s = (- 1, s') \<and> ext2_ready s' = ext2_ready s \<and> phys_mem s' = phys_mem s \<and> free_list s' = free_list s"
    using rd * by (simp add: ext2_init_def serial_print_hex_def free_list_def)
qed

section \<open>Records of length zero\<close>


end
