(* ===== verification/Ext2_Image.thy ===== *)
theory Ext2_Image
  imports Ext2_Faults
begin

text \<open>
  A small ext2 image, with one file in its root directory, on a simulated drive: the
  theorems about the file system apply to it.
\<close>

section \<open>The image\<close>

text \<open>
  Blocks of 1024 bytes: superblock in block 1, group descriptors in block 2, inodes in block
  3, the root directory (inode 2) in block 4, the file \<^verbatim>\<open>hello\<close> (inode 3) in block 5.
\<close>

definition tiny_bytes :: "(nat \<times> u8) list" where
  "tiny_bytes =
     [(1064, 8), (1080, 0x53), (1081, 0xEF), (2056, 3),
      (3204, 16), (3240, 4), (3329, 0x80), (3332, 2), (3368, 5),
      (4096, 3), (4100, 16), (4102, 5), (4103, 1), (4104, 104), (4105, 101), (4106, 108), (4107, 108), (4108, 111),
      (5120, 104), (5121, 105)]"

definition tiny_disk :: "nat \<Rightarrow> u8" where
  "tiny_disk a = (case map_of tiny_bytes a of Some b \<Rightarrow> b | None \<Rightarrow> 0)"

text \<open>Fields read from a stretch of the disk.\<close>

lemma disk_bytes_Suc: "disk_bytes disk a (Suc n) = disk a # disk_bytes disk (a + 1) n"
  by (simp add: disk_bytes_def upt_conv_Cons del: upt_Suc)

lemma disk_bytes_numeral:
  "disk_bytes disk a (numeral k) = disk a # disk_bytes disk (a + 1) (pred_numeral k)" "disk_bytes disk a 0 = []"
  by (simp_all add: numeral_eq_Suc disk_bytes_Suc) (simp add: disk_bytes_def)

lemma le16_disk: "i + 2 \<le> n \<Longrightarrow> le16 (disk_bytes disk a n) i = word_of_bytes [disk (a + i), disk (a + i + 1)]"
proof -
  have "disk_bytes disk b 2 = [disk b, disk (b + 1)]" for b
    by (simp add: disk_bytes_numeral disk_bytes_Suc numeral_3_eq_3)
  then show "i + 2 \<le> n \<Longrightarrow> ?thesis" using disk_bytes_sub[of i 2 n disk a] by (simp add: le16_def)
qed

lemma le32_disk:
  "i + 4 \<le> n \<Longrightarrow> le32 (disk_bytes disk a n) i = word_of_bytes [disk (a + i), disk (a + i + 1), disk (a + i + 2), disk (a + i + 3)]"
proof -
  have "disk_bytes disk b 4 = [disk b, disk (b + 1), disk (b + 2), disk (b + 3)]" for b
    by (simp add: disk_bytes_numeral disk_bytes_Suc numeral_3_eq_3)
  then show "i + 4 \<le> n \<Longrightarrow> ?thesis" using disk_bytes_sub[of i 4 n disk a] by (simp add: le32_def)
qed

text \<open>The metadata of every disk that agrees with the image up to the root directory.\<close>

definition tiny_meta :: "(nat \<Rightarrow> u8) \<Rightarrow> bool" where
  "tiny_meta disk \<longleftrightarrow> (\<forall>a<4096. disk a = tiny_disk a)"

lemma tiny_metaD: "tiny_meta disk \<Longrightarrow> a < 4096 \<Longrightarrow> disk a = tiny_disk a"
  by (simp add: tiny_meta_def)

lemma tiny_sb:
  assumes "tiny_meta disk"
  shows "s_log_block_size (fs_sb disk) = 0" "s_inodes_per_group (fs_sb disk) = 8" "s_rev_level (fs_sb disk) = 0"
    "s_magic (fs_sb disk) = EXT2_MAGIC"
  by (simp_all add: fs_sb_def s_log_block_size_def s_inodes_per_group_def s_rev_level_def s_magic_def le32_disk le16_disk
      tiny_metaD[OF assms] tiny_disk_def tiny_bytes_def EXT2_MAGIC_def)

lemma tiny_geometry:
  assumes "tiny_meta disk"
  shows "fs_bsize disk = 1024" "fs_ipg disk = 8" "fs_isize disk = 128" "fs_table disk 0 = 3"
  by (simp_all add: fs_bsize_def fs_ipg_def fs_isize_def tiny_sb[OF assms])
     (simp add: fs_table_def fs_bgdt_def fs_block_def fs_bsize_def tiny_sb[OF assms] le32_disk tiny_metaD[OF assms]
        tiny_disk_def tiny_bytes_def)

lemma tiny_super_ok: "tiny_meta disk \<Longrightarrow> super_ok disk"
  by (simp add: super_ok_def tiny_sb tiny_geometry)

lemma tiny_inodes:
  assumes "tiny_meta disk"
  shows "fs_inode disk 2 = disk_bytes disk 3200 128" "fs_inode disk 3 = disk_bytes disk 3328 128"
  by (simp_all add: fs_inode_def fs_group_def fs_offset_def tiny_geometry[OF assms] sizeof_inode_def)

lemma tiny_fields:
  assumes "tiny_meta disk"
  shows "i_size (disk_bytes disk 3200 128) = 16" "i_size (disk_bytes disk 3328 128) = 2" "i_mode (disk_bytes disk 3328 128) = 0x8000"
    "i_block (disk_bytes disk 3200 128) 0 = 4" "i_block (disk_bytes disk 3200 128) 1 = 0"
    "i_block (disk_bytes disk 3328 128) 0 = 5" "i_block (disk_bytes disk 3328 128) 1 = 0"
  by (simp_all add: i_size_def i_mode_def i_block_def le32_disk le16_disk tiny_metaD[OF assms] tiny_disk_def tiny_bytes_def)

lemma tiny_blocks:
  assumes "tiny_meta disk"
  shows "fs_blocks (disk_bytes disk 3200 128) 0 = [4]" "fs_blocks (disk_bytes disk 3328 128) 0 = [5]"
  using tiny_fields[OF assms] by (simp_all add: fs_blocks_step)

lemma tiny_inode_ok:
  assumes "tiny_meta disk"
  shows "inode_ok disk 2" "inode_ok disk 3"
  by (simp_all add: inode_ok_def fs_group_def fs_offset_def tiny_geometry[OF assms] sizeof_inode_def)

lemma tiny_root_readable: "tiny_meta disk \<Longrightarrow> root_readable disk"
  using tiny_inode_ok(1)[of disk]
  by (simp add: root_readable_def blocks_ok_def tiny_inodes tiny_blocks tiny_fields tiny_geometry)

lemma disk_bytes_take: "n \<le> m \<Longrightarrow> take n (disk_bytes disk a m) = disk_bytes disk a n"
  using disk_bytes_sub[of 0 n m disk a] by simp

lemma tiny_contents:
  assumes "tiny_meta disk"
  shows "fs_root disk = disk_bytes disk 4096 16" "fs_data disk (fs_inode disk 3) = disk_bytes disk 5120 2"
  using tiny_geometry(1)[OF assms] tiny_fields[OF assms] tiny_blocks[OF assms] tiny_inodes[OF assms]
  by (simp_all add: fs_root_def fs_data_def fs_content_def fs_block_def disk_bytes_take)

lemma tiny_disk_meta: "tiny_meta tiny_disk"
  by (simp add: tiny_meta_def)

lemmas tiny_disk_facts = tiny_geometry[OF tiny_disk_meta] tiny_inodes[OF tiny_disk_meta] tiny_blocks[OF tiny_disk_meta]
  tiny_fields[OF tiny_disk_meta] tiny_contents[OF tiny_disk_meta]

lemma tiny_data:
  "fs_root tiny_disk = [3, 0, 0, 0, 16, 0, 5, 1, 104, 101, 108, 108, 111, 0, 0, 0]"
  "fs_data tiny_disk (fs_inode tiny_disk 3) = [104, 105]"
  by (simp_all add: tiny_contents[OF tiny_disk_meta] disk_bytes_numeral disk_bytes_Suc tiny_disk_def tiny_bytes_def)

lemma tiny_entries: "dir_ok (fs_root tiny_disk)" "dir_entries (fs_root tiny_disk) = [Dirent 3 1 [104, 101, 108, 108, 111]]"
  unfolding tiny_data
  by (simp_all add: dir_ok.simps dir_entries.simps rec_len_def le16_def le32_def first_entry_def)

lemma tiny_root_ok: "root_ok tiny_disk"
  using tiny_entries(1) tiny_root_readable[OF tiny_disk_meta] by (simp add: root_ok_def)

lemma tiny_file:
  "path_bytes ''/hello'' = [104, 101, 108, 108, 111]" "fs_lookup tiny_disk [104, 101, 108, 108, 111] = 3"
  "file_ok tiny_disk [104, 101, 108, 108, 111]" "file_size tiny_disk [104, 101, 108, 108, 111] = 2"
  "fs_read tiny_disk [104, 101, 108, 108, 111] 8192 = Some [104, 105]"
proof -
  show p: "path_bytes ''/hello'' = [104, 101, 108, 108, 111]" by (simp add: path_bytes_def file_name_def)
  show l: "fs_lookup tiny_disk [104, 101, 108, 108, 111] = 3" by (simp add: fs_lookup_def tiny_entries dir_lookup_def)
  show "file_ok tiny_disk [104, 101, 108, 108, 111]"
    using tiny_inode_ok(2)[OF tiny_disk_meta] by (simp add: file_ok_def l blocks_ok_def tiny_disk_facts)
  show "file_size tiny_disk [104, 101, 108, 108, 111] = 2" by (simp add: file_size_def l tiny_disk_facts)
  have "is_regular (fs_inode tiny_disk 3)" by (simp add: is_regular_def tiny_disk_facts EXT2_S_IFREG_def)
  then show "fs_read tiny_disk [104, 101, 108, 108, 111] 8192 = Some [104, 105]" using tiny_data(2) by (simp add: fs_read_def l)
qed

text \<open>The same disk with the root directory cleared.\<close>

definition zero_disk :: "nat \<Rightarrow> u8" where
  "zero_disk a = (if a < 4096 then tiny_disk a else 0)"

lemma zero_disk_meta: "tiny_meta zero_disk"
  by (simp add: tiny_meta_def zero_disk_def)

lemma zero_disk_root: "fs_root zero_disk = [0, 0, 0, 0, 0, 0, 0, 0, 0, 0, 0, 0, 0, 0, 0, 0]"
  by (simp add: tiny_contents[OF zero_disk_meta] disk_bytes_numeral disk_bytes_Suc zero_disk_def)

section \<open>States\<close>

definition bss_ext2 :: ext2_state where
  "bss_ext2 = thread_state.extend bss_threads \<lparr>sb = replicate 1024 0, group_desc = 0, block_size = 0, ext2_ready = False\<rparr>"

definition tiny_unmounted :: ext2_state where
  "tiny_unmounted = bss_ext2\<lparr>page_stack := (\<lambda>i. 0x10000 + 0x1000 * of_nat i), page_stack_top := 4, total_pages := 4, free_pages := 4,
     hhdm_offset := 0xFFFF800000000000\<rparr>"

definition tiny_mounted :: "(nat \<Rightarrow> u8) \<Rightarrow> ext2_state" where
  "tiny_mounted disk = tiny_unmounted\<lparr>page_stack_top := 3, free_pages := 3, sb := fs_sb disk, group_desc := 0x13000,
     block_size := 1024, ext2_ready := True, phys_mem := store_bytes (phys_mem bss_ext2) 0x13000 (fs_bgdt disk)\<rparr>"

lemma tiny_free:
  "free_list tiny_unmounted = [0x10000, 0x11000, 0x12000, 0x13000]" "free_list (tiny_mounted disk) = [0x10000, 0x11000, 0x12000]"
  by (simp_all add: free_list_def tiny_unmounted_def tiny_mounted_def upt_rec)

lemma tiny_pages: "fs_pages tiny_unmounted" "fs_pages (tiny_mounted disk)"
proof -
  have p: "fs_page 0xFFFF800000000000 p" if "p \<in> {0x10000, 0x11000, 0x12000, 0x13000}" for p
    using that by (auto simp: fs_page_def page_ok_def hhdm_covers_def)
  have h: "hhdm_offset tiny_unmounted = 0xFFFF800000000000" "hhdm_offset (tiny_mounted disk) = 0xFFFF800000000000"
    by (simp_all add: tiny_unmounted_def tiny_mounted_def)
  have "pmm_inv tiny_unmounted" "pmm_inv (tiny_mounted disk)"
    unfolding pmm_inv_def tiny_free by (simp_all add: tiny_unmounted_def tiny_mounted_def MAX_PAGES_def page_ok_def)
  then show "fs_pages tiny_unmounted" "fs_pages (tiny_mounted disk)"
    unfolding fs_pages_def tiny_free h using p by simp_all
qed

lemma tiny_mounted_ok:
  assumes "tiny_meta disk"
  shows "mounted disk (tiny_mounted disk)"
proof -
  have "length (fs_bgdt disk) = 1024" using tiny_geometry(1)[OF assms] by (simp add: fs_bgdt_def)
  then have "load_bytes (store_bytes (phys_mem bss_ext2) 0x13000 (fs_bgdt disk)) 0x13000 1024 = fs_bgdt disk"
    using load_bytes_store_same[of "fs_bgdt disk" "phys_mem bss_ext2" "0x13000"] by simp
  moreover have "fs_page 0xFFFF800000000000 0x13000" by (simp add: fs_page_def page_ok_def hhdm_covers_def)
  ultimately show ?thesis
    using tiny_pages(2) tiny_super_ok[OF assms] tiny_geometry(1)[OF assms]
    unfolding mounted_def tiny_free by (simp add: fs_geom_def) (simp add: tiny_mounted_def tiny_unmounted_def)
qed

lemma tiny_buffer: "buffer_at (tiny_mounted disk) 0x20000 0x20000 2"
proof -
  have "(\<forall>i<2. P i) \<longleftrightarrow> P 0 \<and> P 1" for P :: "nat \<Rightarrow> bool"
    by (auto simp: numeral_2_eq_2 less_Suc_eq)
  then show ?thesis unfolding buffer_at_def outside_free_def tiny_free
    by (simp add: kptr_def tiny_mounted_def tiny_unmounted_def)
qed

section \<open>The theorems at work\<close>



theorem ext2_list_root_correct_witness:
  "\<exists>s'. ext2_list_root (sim_drive tiny_disk) (tiny_mounted tiny_disk) = Some s' \<and>
     console s' = console (tiny_mounted tiny_disk) @ ''\<newline>Files in root directory:\<newline>  hello [FILE] (inode 3)\<newline>\<newline>''"
proof -
  have line: "concat (map entry_line (dir_entries (fs_root tiny_disk))) = ''  hello [FILE] (inode 3)\<newline>''"
    unfolding tiny_entries by (simp add: entry_line_def dec_string.simps EXT2_FT_DIR_def EXT2_FT_REG_FILE_def char_of_def bit_iff_odd)
  show ?thesis
    using ext2_list_root_correct[OF sim_drive_device tiny_mounted_ok[OF tiny_disk_meta] tiny_root_ok, of 0]
    by (auto simp: tiny_free line elim: fs_effectE)
qed


theorem ext2_error_paths_witness:
  "ext2_read_file (sim_drive tiny_disk) ''a/b'' 0x20000 16 (bss_ext2\<lparr>ext2_ready := True\<rparr>) =
     Some (- 1, serial_print ''ext2: Subdirectories not supported yet\<newline>'' (bss_ext2\<lparr>ext2_ready := True\<rparr>)) \<and>
   ext2_read_file (sim_drive tiny_disk) ''hello'' 0x20000 16 (tiny_unmounted\<lparr>ext2_ready := True\<rparr>) = None"
  using ext2_error_paths[of "bss_ext2\<lparr>ext2_ready := True\<rparr>" "sim_drive tiny_disk" "''a/b''" "0x20000" 16 tiny_disk]
    ext2_error_paths[of "tiny_unmounted\<lparr>ext2_ready := True\<rparr>" "sim_drive tiny_disk" "''hello''" "0x20000" 16 tiny_disk]
  by (simp add: file_name_def tiny_unmounted_def bss_ext2_def thread_state.defs ext2_state.defs)


end
