(* ===== verification/Ipc.thy ===== *)
theory Ipc
  imports Thread
begin

text \<open>
  Messages and ports (\<^verbatim>\<open>thread.c\<close> from \<^verbatim>\<open>message_alloc\<close> on). A port's queue is a list
  linked through the \<^verbatim>\<open>next\<close> pointers of the message pool; \<open>queue\<close> reads it off as the
  list of message contents. The locale \<open>channels\<close> states what the system calls rely on,
  first in first out per port and no influence between ports, and is interpreted on
  \<open>send\<close> and \<open>recv\<close>.

  The message that \<^verbatim>\<open>recv\<close> copies to \<^verbatim>\<open>*msg_out\<close> is part of its result. A call that blocks
  gives up the processor inside \<^verbatim>\<open>thread_yield\<close>; what it does when the thread runs again
  is \<open>recv_resume\<close>.
\<close>

section \<open>The operations\<close>

type_synonym content = "u32 \<times> u32 list"

definition content_of :: "Message \<Rightarrow> content" where
  "content_of m = (msg_id m, msg_data m)"

definition set_port :: "nat \<Rightarrow> Port \<Rightarrow> 'z thread_state_scheme \<Rightarrow> 'z thread_state_scheme" where
  "set_port p v s = s\<lparr>ports := (ports s)[p := v]\<rparr>"

definition set_message :: "nat \<Rightarrow> Message \<Rightarrow> 'z thread_state_scheme \<Rightarrow> 'z thread_state_scheme" where
  "set_message i m s = s\<lparr>message_pool := (message_pool s)[i := m]\<rparr>"

definition message_alloc :: "'z thread_state_scheme \<Rightarrow> nat option \<times> 'z thread_state_scheme" where
  "message_alloc s =
     (if message_pool_next s \<ge> MAX_MESSAGES then (None, s)
      else let i = message_pool_next s
           in (Some i, set_message i ((message_pool s ! i)\<lparr>msg_next := None\<rparr>) (s\<lparr>message_pool_next := i + 1\<rparr>)))"

definition message_free :: "nat \<Rightarrow> 'z thread_state_scheme \<Rightarrow> 'z thread_state_scheme" where
  "message_free i s = s"

definition port_create :: "'z thread_state_scheme \<Rightarrow> nat option \<times> 'z thread_state_scheme" where
  "port_create s =
     (if port_count s \<ge> MAX_PORTS then (None, s)
      else let p = port_count s
           in (Some p, set_port p empty_port (s\<lparr>port_count := p + 1\<rparr>)))"

partial_function (option) free_queue :: "nat option \<Rightarrow> 'z thread_state_scheme \<Rightarrow> 'z thread_state_scheme option" where
  "free_queue msg s =
     (case msg of
        None \<Rightarrow> Some s
      | Some i \<Rightarrow> (let nxt = msg_next (message_pool s ! i) in free_queue nxt (message_free i s)))"

definition wake :: "nat \<Rightarrow> 'z thread_state_scheme \<Rightarrow> 'z thread_state_scheme" where
  "wake t s = set_thread t ((threads s ! t)\<lparr>thread_status := THREAD_RUNNING, waiting_on_port := None\<rparr>) s"

definition port_destroy :: "nat option \<Rightarrow> 'z thread_state_scheme \<Rightarrow> 'z thread_state_scheme option" where
  "port_destroy port s =
     (case port of
        None \<Rightarrow> Some s
      | Some p \<Rightarrow>
          map_option (\<lambda>s1.
            let s2 = (case blocked_thread (ports s1 ! p) of None \<Rightarrow> s1 | Some t \<Rightarrow> wake t s1)
            in set_port p empty_port s2)
          (free_queue (queue_head (ports s ! p)) s))"

definition port_to_id :: "nat option \<Rightarrow> u32" where
  "port_to_id port =
     (case port of
        None \<Rightarrow> 0
      | Some i \<Rightarrow> let index = (of_nat i :: u32) in if of_nat MAX_PORTS \<le> index then 0 else index + 1)"

definition port_from_id :: "u32 \<Rightarrow> nat option" where
  "port_from_id ident = (if ident = 0 \<or> ident > of_nat MAX_PORTS then None else Some (unat (ident - 1)))"

text \<open>The two parts of \<open>send\<close> that change the port: waking a waiting thread, and linking the message.\<close>

definition unblock :: "nat \<Rightarrow> 'z thread_state_scheme \<Rightarrow> 'z thread_state_scheme" where
  "unblock p s =
     (case blocked_thread (ports s ! p) of
        None \<Rightarrow> s
      | Some t \<Rightarrow> set_port p ((ports s ! p)\<lparr>blocked_thread := None\<rparr>) (wake t s))"

definition append_message :: "nat \<Rightarrow> nat \<Rightarrow> 'z thread_state_scheme \<Rightarrow> 'z thread_state_scheme" where
  "append_message p i s =
     (case queue_tail (ports s ! p) of
        Some l \<Rightarrow> set_port p ((ports s ! p)\<lparr>queue_tail := Some i\<rparr>)
                   (set_message l ((message_pool s ! l)\<lparr>msg_next := Some i\<rparr>) s)
      | None \<Rightarrow> set_port p ((ports s ! p)\<lparr>queue_head := Some i, queue_tail := Some i\<rparr>) s)"

definition send ::
    "nat option \<Rightarrow> u32 \<Rightarrow> u32 \<Rightarrow> u32 \<Rightarrow> u32 \<Rightarrow> u32 \<Rightarrow> 'z thread_state_scheme \<Rightarrow> int \<times> 'z thread_state_scheme" where
  "send port ident d0 d1 d2 d3 s =
     (case port of
        None \<Rightarrow> (- 1, s)
      | Some p \<Rightarrow>
         (case message_alloc s of
            (None, s1) \<Rightarrow> (- 2, s1)
          | (Some i, s1) \<Rightarrow>
             (let s2 = set_message i ((message_pool s1 ! i)\<lparr>msg_id := ident, msg_data := [d0, d1, d2, d3], msg_next := None\<rparr>) s1;
                  s3 = append_message p i (unblock p s2);
                  v = ports s3 ! p
              in (0, set_port p (v\<lparr>message_count := message_count v + 1\<rparr>) s3))))"

text \<open>Both parts of \<open>recv\<close> take a message off the queue in the same way.\<close>

definition take_message :: "nat \<Rightarrow> 'z thread_state_scheme \<Rightarrow> (content \<times> 'z thread_state_scheme) option" where
  "take_message p s =
     (case queue_head (ports s ! p) of
        None \<Rightarrow> None
      | Some i \<Rightarrow>
         (let m = message_pool s ! i;
              v = (ports s ! p)\<lparr>queue_head := msg_next m\<rparr>;
              v' = (if queue_head v = None then v\<lparr>queue_tail := None\<rparr> else v);
              s1 = set_port p (v'\<lparr>message_count := message_count v' - 1\<rparr>) s
          in Some (content_of m, message_free i s1)))"

datatype recv_result = RecvDone int "content option" | RecvSwitched u64

definition recv_resume :: "nat \<Rightarrow> 'z thread_state_scheme \<Rightarrow> recv_result \<times> 'z thread_state_scheme" where
  "recv_resume p s =
     (case take_message p s of
        Some (m, s1) \<Rightarrow> (RecvDone 0 (Some m), s1)
      | None \<Rightarrow> (RecvDone (- 4) None, s))"

definition recv ::
    "u64 \<Rightarrow> nat option \<Rightarrow> u64 \<Rightarrow> 'z thread_state_scheme \<Rightarrow> (recv_result \<times> 'z thread_state_scheme) option" where
  "recv ra port msg_out s =
     (case port of
        None \<Rightarrow> Some (RecvDone (- 1) None, s)
      | Some p \<Rightarrow>
         if msg_out = 0 then Some (RecvDone (- 1) None, s)
         else case take_message p s of
           Some (m, s1) \<Rightarrow> Some (RecvDone 0 (Some m), s1)
         | None \<Rightarrow>
            (case current s of
               None \<Rightarrow> Some (RecvDone (- 2) None, s)
             | Some c \<Rightarrow>
                if blocked_thread (ports s ! p) \<noteq> None then Some (RecvDone (- 3) None, s)
                else let s1 = set_thread c ((threads s ! c)\<lparr>thread_status := THREAD_BLOCKED, waiting_on_port := Some p\<rparr>) s;
                         s2 = set_port p ((ports s1 ! p)\<lparr>blocked_thread := Some c\<rparr>) s1
                     in case thread_yield ra s2 of
                          None \<Rightarrow> None
                        | Some (Resumes rip, s3) \<Rightarrow> Some (RecvSwitched rip, s3)
                        | Some (Returns, s3) \<Rightarrow> Some (recv_resume p s3)))"

section \<open>Queues\<close>

primrec chain :: "Message list \<Rightarrow> nat option \<Rightarrow> nat list \<Rightarrow> bool" where
  "chain pool h [] \<longleftrightarrow> h = None"
| "chain pool h (x # xs) \<longleftrightarrow> h = Some x \<and> chain pool (msg_next (pool ! x)) xs"

primrec follow :: "nat \<Rightarrow> Message list \<Rightarrow> nat option \<Rightarrow> nat list" where
  "follow 0 pool h = []"
| "follow (Suc n) pool h = (case h of None \<Rightarrow> [] | Some i \<Rightarrow> i # follow n pool (msg_next (pool ! i)))"

definition queue_idx :: "'z thread_state_scheme \<Rightarrow> nat \<Rightarrow> nat list" where
  "queue_idx s p = follow MAX_MESSAGES (message_pool s) (queue_head (ports s ! p))"

definition queue :: "'z thread_state_scheme \<Rightarrow> nat \<Rightarrow> content list" where
  "queue s p = map (\<lambda>i. content_of (message_pool s ! i)) (queue_idx s p)"

definition queue_at :: "'z thread_state_scheme \<Rightarrow> nat \<Rightarrow> nat list \<Rightarrow> bool" where
  "queue_at s p xs \<longleftrightarrow> chain (message_pool s) (queue_head (ports s ! p)) xs \<and>
     queue_tail (ports s ! p) = (if xs = [] then None else Some (last xs)) \<and>
     message_count (ports s ! p) = int (length xs) \<and> distinct xs \<and> set xs \<subseteq> {..<message_pool_next s}"

definition ipc_inv :: "'z thread_state_scheme \<Rightarrow> bool" where
  "ipc_inv s \<longleftrightarrow> thread_inv s \<and> length (ports s) = MAX_PORTS \<and> length (message_pool s) = MAX_MESSAGES \<and>
     port_count s \<le> MAX_PORTS \<and> message_pool_next s \<le> MAX_MESSAGES \<and>
     (\<forall>p<MAX_PORTS. queue_at s p (queue_idx s p)) \<and>
     (\<forall>p<MAX_PORTS. \<forall>q<MAX_PORTS. p \<noteq> q \<longrightarrow> set (queue_idx s p) \<inter> set (queue_idx s q) = {}) \<and>
     (\<forall>p<MAX_PORTS. \<forall>t. blocked_thread (ports s ! p) = Some t \<longrightarrow> t < thread_count s \<and> queue_idx s p = [])"

lemma chain_follow: "chain pool h xs \<Longrightarrow> length xs \<le> n \<Longrightarrow> follow n pool h = xs"
proof (induction xs arbitrary: h n)
  case Nil
  then show ?case by (cases n) auto
next
  case (Cons x xs)
  then obtain k where "n = Suc k" by (cases n) auto
  with Cons show ?case by simp
qed

lemma chain_update_other: "i \<notin> set xs \<Longrightarrow> chain (pool[i := m]) h xs \<longleftrightarrow> chain pool h xs"
  by (induction xs arbitrary: h) auto

lemma chain_cong:
  assumes "\<And>x. x \<in> set xs \<Longrightarrow> msg_next (pool' ! x) = msg_next (pool ! x)"
  shows "chain pool' h xs \<longleftrightarrow> chain pool h xs"
  using assms by (induction xs arbitrary: h) auto

lemma chain_snoc:
  assumes "chain pool h xs" "xs \<noteq> []" "distinct xs" "last xs < length pool" "msg_next (pool ! i) = None" "i \<notin> set xs"
  shows "chain (pool[last xs := (pool ! last xs)\<lparr>msg_next := Some i\<rparr>]) h (xs @ [i])"
  using assms
proof (induction xs arbitrary: h)
  case (Cons x xs)
  show ?case
  proof (cases "xs = []")
    case False
    with Cons have "x \<noteq> last xs" "chain (pool[last xs := (pool ! last xs)\<lparr>msg_next := Some i\<rparr>]) (msg_next (pool ! x)) (xs @ [i])"
      by auto
    with Cons.prems False show ?thesis by simp
  qed (use Cons.prems in auto)
qed simp

lemma length_queue:
  assumes "queue_at s p xs" "message_pool_next s \<le> MAX_MESSAGES"
  shows "length xs \<le> MAX_MESSAGES" "queue_idx s p = xs"
proof -
  have "length xs = card (set xs)" using assms(1) by (simp add: queue_at_def distinct_card)
  also have "\<dots> \<le> card {..<message_pool_next s}"
    using assms(1) by (intro card_mono) (auto simp: queue_at_def)
  finally show "length xs \<le> MAX_MESSAGES" using assms(2) by simp
  with assms(1) show "queue_idx s p = xs" by (simp add: queue_idx_def queue_at_def chain_follow)
qed

lemma ipc_invD:
  assumes "ipc_inv s"
  shows "thread_inv s" "length (ports s) = MAX_PORTS" "length (message_pool s) = MAX_MESSAGES"
    "port_count s \<le> MAX_PORTS" "message_pool_next s \<le> MAX_MESSAGES"
    "p < MAX_PORTS \<Longrightarrow> queue_at s p (queue_idx s p)"
    "p < MAX_PORTS \<Longrightarrow> q < MAX_PORTS \<Longrightarrow> p \<noteq> q \<Longrightarrow> set (queue_idx s p) \<inter> set (queue_idx s q) = {}"
    "p < MAX_PORTS \<Longrightarrow> blocked_thread (ports s ! p) = Some t \<Longrightarrow> t < thread_count s \<and> queue_idx s p = []"
  using assms by (auto simp: ipc_inv_def)

text \<open>The invariant depends on the ports, the pool and the shape of the ring only.\<close>

lemma ipc_inv_cong:
  assumes "ipc_inv s" "thread_inv s'" "ports s' = ports s" "message_pool s' = message_pool s"
    "message_pool_next s' = message_pool_next s" "port_count s' = port_count s" "thread_count s' = thread_count s"
  shows "ipc_inv s'" "queue s' q = queue s q"
  using assms by (simp_all add: ipc_inv_def queue_at_def queue_idx_def queue_def)

text \<open>How an operation on port \<open>p\<close> re-establishes the invariant.\<close>

lemma ipc_inv_port_update:
  assumes inv: "ipc_inv s" and p: "p < MAX_PORTS" and "thread_inv s'" "ports s' = (ports s)[p := v]"
    "length (message_pool s') = MAX_MESSAGES" "message_pool_next s \<le> message_pool_next s'"
    "message_pool_next s' \<le> MAX_MESSAGES" "port_count s' \<le> MAX_PORTS" "thread_count s' = thread_count s"
    and xs: "queue_at s' p xs"
    and fresh: "\<forall>q<MAX_PORTS. q \<noteq> p \<longrightarrow> set xs \<inter> set (queue_idx s q) = {}"
    and same: "\<forall>q<MAX_PORTS. q \<noteq> p \<longrightarrow> (\<forall>i\<in>set (queue_idx s q). message_pool s' ! i = message_pool s ! i)"
    and blocked: "\<forall>t. blocked_thread v = Some t \<longrightarrow> t < thread_count s \<and> xs = []"
  shows "ipc_inv s'" "queue_idx s' p = xs" "q < MAX_PORTS \<Longrightarrow> q \<noteq> p \<Longrightarrow> queue s' q = queue s q"
proof -
  have idx: "queue_at s' q (queue_idx s q) \<and> queue_idx s' q = queue_idx s q" if q: "q < MAX_PORTS" "q \<noteq> p" for q
  proof -
    have "queue_at s' q (queue_idx s q)"
      using ipc_invD(6)[OF inv q(1)] same q assms(4,6)
      by (auto simp: queue_at_def chain_cong[of _ "message_pool s'" "message_pool s"])
    with length_queue(2)[OF this assms(7)] show ?thesis by simp
  qed
  show p_idx: "queue_idx s' p = xs" using length_queue(2)[OF xs assms(7)] .
  show "queue s' q = queue s q" if "q < MAX_PORTS" "q \<noteq> p" for q
    using idx[OF that] same that by (simp add: queue_def)
  show "ipc_inv s'"
    unfolding ipc_inv_def
  proof (intro conjI allI impI)
    fix q assume q: "q < MAX_PORTS"
    show "queue_at s' q (queue_idx s' q)" using idx[OF q] xs p_idx by (cases "q = p") auto
    show "set (queue_idx s' q) \<inter> set (queue_idx s' r) = {}" if "r < MAX_PORTS" "q \<noteq> r" for r
      using idx[OF q] idx[OF that(1)] p_idx fresh q that ipc_invD(7)[OF inv q that]
      by (cases "q = p"; cases "r = p") auto
    fix t assume "blocked_thread (ports s' ! q) = Some t"
    then have "t < thread_count s \<and> queue_idx s' q = []"
      using blocked idx[OF q] p_idx p q assms(4) ipc_invD(8)[OF inv q] ipc_invD(2)[OF inv]
      by (cases "q = p") auto
    then show "t < thread_count s'" "queue_idx s' q = []" using assms(9) by auto
  qed (use assms ipc_invD(2)[OF inv] in auto)
qed

section \<open>Sending\<close>

lemma thread_inv_update:
  assumes "thread_inv s" "threads s' = (threads s)[t := u]" "t < thread_count s \<longrightarrow> thread_next u = thread_next (threads s ! t)"
    "thread_count s' = thread_count s" "thread_list s' = thread_list s" "current s' = current s"
  shows "thread_inv s'"
proof -
  have "thread_next (threads s' ! i) = thread_next (threads s ! i)" if "i < thread_count s" for i
    using that assms(2,3) thread_invD(1,3)[OF assms(1)] by (cases "i = t") auto
  with assms show ?thesis by (auto simp: thread_inv_def ring_def split: option.splits)
qed

lemma thread_inv_frame:
  assumes "thread_inv s" "threads s' = threads s" "thread_count s' = thread_count s" "thread_list s' = thread_list s"
    "current s' = current s"
  shows "thread_inv s'"
  using assms by (auto simp: thread_inv_def split: option.splits)

definition enqueue_pool :: "nat \<Rightarrow> Message \<Rightarrow> nat option \<Rightarrow> Message list \<Rightarrow> Message list" where
  "enqueue_pool i m tail pool =
     (case tail of None \<Rightarrow> pool[i := m] | Some l \<Rightarrow> pool[i := m, l := (pool[i := m] ! l)\<lparr>msg_next := Some i\<rparr>])"

definition enqueue_port :: "nat \<Rightarrow> Port \<Rightarrow> Port" where
  "enqueue_port i v =
     v\<lparr>blocked_thread := None, queue_head := (if queue_tail v = None then Some i else queue_head v), queue_tail := Some i,
       message_count := message_count v + 1\<rparr>"

lemma port_same: "blocked_thread v = None \<Longrightarrow> v\<lparr>blocked_thread := None\<rparr> = v" "v\<lparr>queue_head := queue_head v\<rparr> = v"
  by (cases v; simp)+

definition woken :: "nat option \<Rightarrow> Thread list \<Rightarrow> Thread list" where
  "woken b ts = (case b of None \<Rightarrow> ts
     | Some t \<Rightarrow> ts[t := (ts ! t)\<lparr>thread_status := THREAD_RUNNING, waiting_on_port := None\<rparr>])"

lemma unblock_eq:
  assumes "p < length (ports s)"
  shows "unblock p s = s\<lparr>threads := woken (blocked_thread (ports s ! p)) (threads s),
      ports := (ports s)[p := (ports s ! p)\<lparr>blocked_thread := None\<rparr>]\<rparr>"
  using assms
  by (cases "blocked_thread (ports s ! p)")
     (simp_all add: unblock_def woken_def wake_def set_thread_def set_port_def port_same list_update_same_conv)

lemma thread_inv_woken:
  assumes "thread_inv s" "threads s' = woken b (threads s)" "thread_count s' = thread_count s"
    "thread_list s' = thread_list s" "current s' = current s"
  shows "thread_inv s'"
proof (cases b)
  case None
  with assms show ?thesis by (intro thread_inv_frame[OF assms(1)]) (simp_all add: woken_def)
next
  case (Some t)
  with assms show ?thesis
    by (intro thread_inv_update[OF assms(1), of _ t "(threads s ! t)\<lparr>thread_status := THREAD_RUNNING, waiting_on_port := None\<rparr>"])
       (simp_all add: woken_def)
qed

lemma message_alloc_eq:
  assumes "message_pool_next s < MAX_MESSAGES"
  shows "message_alloc s = (Some (message_pool_next s),
    s\<lparr>message_pool_next := Suc (message_pool_next s),
      message_pool := (message_pool s)[message_pool_next s := (message_pool s ! message_pool_next s)\<lparr>msg_next := None\<rparr>]\<rparr>)"
  using assms by (simp add: message_alloc_def set_message_def Let_def)

lemma append_message_eq:
  assumes "p < length (ports s)"
  shows "append_message p i s = s\<lparr>
      message_pool := (case queue_tail (ports s ! p) of None \<Rightarrow> message_pool s
        | Some l \<Rightarrow> (message_pool s)[l := (message_pool s ! l)\<lparr>msg_next := Some i\<rparr>]),
      ports := (ports s)[p := (ports s ! p)\<lparr>queue_head := (if queue_tail (ports s ! p) = None then Some i else queue_head (ports s ! p)),
        queue_tail := Some i\<rparr>]\<rparr>"
  using assms
  by (cases "queue_tail (ports s ! p)")
     (simp_all add: append_message_def set_port_def set_message_def port_same)

lemma send_eq:
  assumes "p < length (ports s)" "message_pool_next s < MAX_MESSAGES" "length (message_pool s) = MAX_MESSAGES"
  shows "send (Some p) ident d0 d1 d2 d3 s =
    (0, s\<lparr>message_pool_next := Suc (message_pool_next s),
         message_pool := enqueue_pool (message_pool_next s)
           ((message_pool s ! message_pool_next s)\<lparr>msg_id := ident, msg_data := [d0, d1, d2, d3], msg_next := None\<rparr>)
           (queue_tail (ports s ! p)) (message_pool s),
         threads := woken (blocked_thread (ports s ! p)) (threads s),
         ports := (ports s)[p := enqueue_port (message_pool_next s) (ports s ! p)]\<rparr>)"
proof -
  let ?i = "message_pool_next s" and ?v = "ports s ! p"
  let ?m = "(message_pool s ! ?i)\<lparr>msg_id := ident, msg_data := [d0, d1, d2, d3], msg_next := None\<rparr>"
  let ?s1 = "s\<lparr>message_pool_next := Suc ?i, message_pool := (message_pool s)[?i := (message_pool s ! ?i)\<lparr>msg_next := None\<rparr>]\<rparr>"
  let ?s2 = "s\<lparr>message_pool_next := Suc ?i, message_pool := (message_pool s)[?i := ?m]\<rparr>"
  let ?s3 = "s\<lparr>message_pool_next := Suc ?i, message_pool := (message_pool s)[?i := ?m],
      threads := woken (blocked_thread ?v) (threads s), ports := (ports s)[p := ?v\<lparr>blocked_thread := None\<rparr>]\<rparr>"
  let ?v4 = "?v\<lparr>blocked_thread := None, queue_head := (if queue_tail ?v = None then Some ?i else queue_head ?v), queue_tail := Some ?i\<rparr>"
  let ?s4 = "s\<lparr>message_pool_next := Suc ?i, message_pool := enqueue_pool ?i ?m (queue_tail ?v) (message_pool s),
      threads := woken (blocked_thread ?v) (threads s), ports := (ports s)[p := ?v4]\<rparr>"
  have a: "message_alloc s = (Some ?i, ?s1)" using assms by (simp add: message_alloc_eq)
  have b: "set_message ?i ((message_pool ?s1 ! ?i)\<lparr>msg_id := ident, msg_data := [d0, d1, d2, d3], msg_next := None\<rparr>) ?s1 = ?s2"
    using assms by (simp add: set_message_def)
  have c: "unblock p ?s2 = ?s3" by (subst unblock_eq) (use assms in simp_all)
  have d: "append_message p ?i ?s3 = ?s4"
    by (subst append_message_eq) (use assms in \<open>simp_all add: enqueue_pool_def cong: option.case_cong\<close>)
  have "send (Some p) ident d0 d1 d2 d3 s =
      (0, set_port p ((ports ?s4 ! p)\<lparr>message_count := message_count (ports ?s4 ! p) + 1\<rparr>) ?s4)"
    unfolding send_def option.case a prod.case b c d Let_def ..
  also have "\<dots> = (0, ?s4\<lparr>ports := (ports s)[p := enqueue_port ?i ?v]\<rparr>)"
    using assms by (simp add: set_port_def enqueue_port_def)
  finally show ?thesis by simp
qed

lemma send_errors:
  "send None ident d0 d1 d2 d3 s = (- 1, s)"
  "message_pool_next s \<ge> MAX_MESSAGES \<Longrightarrow> send (Some p) ident d0 d1 d2 d3 s = (- 2, s)"
  by (simp_all add: send_def message_alloc_def)

lemma enqueue_pool_chain:
  assumes "chain pool h xs" "distinct xs" "i \<notin> set xs" "set xs \<subseteq> {..<length pool}" "i < length pool" "msg_next m = None"
    and tail: "tail = (if xs = [] then None else Some (last xs))"
  shows "chain (enqueue_pool i m tail pool) (if tail = None then Some i else h) (xs @ [i])"
    "content_of (enqueue_pool i m tail pool ! i) = content_of m"
    "j \<noteq> i \<Longrightarrow> content_of (enqueue_pool i m tail pool ! j) = content_of (pool ! j)"
    "j \<noteq> i \<Longrightarrow> j \<notin> set xs \<Longrightarrow> enqueue_pool i m tail pool ! j = pool ! j"
proof -
  have l: "last xs \<in> set xs" "last xs < length pool" "last xs \<noteq> i" if "xs \<noteq> []"
    using that assms(3,4) by (auto dest: subsetD intro: last_in_set)
  have "chain (pool[i := m]) h xs" using assms by (simp add: chain_update_other)
  with chain_snoc[OF this] assms l show "chain (enqueue_pool i m tail pool) (if tail = None then Some i else h) (xs @ [i])"
    by (auto simp: enqueue_pool_def)
  show "content_of (enqueue_pool i m tail pool ! i) = content_of m"
    using assms l by (cases "xs = []") (auto simp: enqueue_pool_def nth_list_update)
  show "content_of (enqueue_pool i m tail pool ! j) = content_of (pool ! j)" if "j \<noteq> i"
    using that assms l by (cases "xs = []") (auto simp: enqueue_pool_def nth_list_update content_of_def)
  show "enqueue_pool i m tail pool ! j = pool ! j" if "j \<noteq> i" "j \<notin> set xs"
    using that assms l by (cases "xs = []") (auto simp: enqueue_pool_def nth_list_update)
qed

lemma length_enqueue_pool [simp]: "length (enqueue_pool i m tail pool) = length pool"
  by (simp add: enqueue_pool_def split: option.split)

lemma send_ok:
  fixes s :: "'z thread_state_scheme" and p ident d0 d1 d2 d3
  assumes inv: "ipc_inv s" and p: "p < MAX_PORTS" and room: "message_pool_next s < MAX_MESSAGES"
  defines "s' \<equiv> snd (send (Some p) ident d0 d1 d2 d3 s)"
  shows "fst (send (Some p) ident d0 d1 d2 d3 s) = 0" "ipc_inv s'"
    "queue s' p = queue s p @ [(ident, [d0, d1, d2, d3])]"
    "q < MAX_PORTS \<Longrightarrow> q \<noteq> p \<Longrightarrow> queue s' q = queue s q"
    "message_pool_next s' = Suc (message_pool_next s)"
proof -
  note D = ipc_invD[OF inv]
  let ?i = "message_pool_next s" and ?v = "ports s ! p" and ?xs = "queue_idx s p"
  let ?m = "(message_pool s ! ?i)\<lparr>msg_id := ident, msg_data := [d0, d1, d2, d3], msg_next := None\<rparr>"
  let ?pool = "enqueue_pool ?i ?m (queue_tail ?v) (message_pool s)"
  have eq: "send (Some p) ident d0 d1 d2 d3 s = (0, s')"
    and s': "s' = s\<lparr>message_pool_next := Suc ?i, message_pool := ?pool, threads := woken (blocked_thread ?v) (threads s),
         ports := (ports s)[p := enqueue_port ?i ?v]\<rparr>"
    using send_eq[of p s ident d0 d1 d2 d3] p room D(2,3) by (simp_all add: s'_def)
  have xs: "chain (message_pool s) (queue_head ?v) ?xs" "distinct ?xs" "queue_tail ?v = (if ?xs = [] then None else Some (last ?xs))"
      "message_count ?v = int (length ?xs)" "set ?xs \<subseteq> {..<?i}"
    using D(6)[OF p] by (auto simp: queue_at_def)
  have below: "i < ?i" if "i \<in> set (queue_idx s q)" "q < MAX_PORTS" for i q
    using D(6)[OF that(2)] that(1) by (auto simp: queue_at_def)
  have new: "?i \<notin> set ?xs" "set ?xs \<subseteq> {..<length (message_pool s)}" "?i < length (message_pool s)" "msg_next ?m = None"
    using xs(5) room D(3) by auto
  note chain = enqueue_pool_chain[OF xs(1,2) new xs(3)]
  have ti: "thread_inv s'" by (rule thread_inv_woken[OF D(1)]) (simp_all add: s')
  have at: "queue_at s' p (?xs @ [?i])"
    using chain(1) xs p D(2) by (auto simp: queue_at_def s' enqueue_port_def)
  have f: "ports s' = (ports s)[p := enqueue_port ?i ?v]" "length (message_pool s') = MAX_MESSAGES" "?i \<le> message_pool_next s'"
      "message_pool_next s' \<le> MAX_MESSAGES" "port_count s' \<le> MAX_PORTS" "thread_count s' = thread_count s"
    using room D(3,4) by (simp_all add: s')
  have awake: "\<forall>t. blocked_thread (enqueue_port ?i ?v) = Some t \<longrightarrow> t < thread_count s \<and> ?xs @ [?i] = []"
    by (simp add: enqueue_port_def)
  have apart: "set (?xs @ [?i]) \<inter> set (queue_idx s q) = {}" if "q < MAX_PORTS" "q \<noteq> p" for q
    using D(7)[OF p that(1)] that(2) below[OF _ that(1), of ?i] by auto
  have fresh: "\<forall>q<MAX_PORTS. q \<noteq> p \<longrightarrow> set (?xs @ [?i]) \<inter> set (queue_idx s q) = {}"
    using apart by blast
  have pool: "message_pool s' = ?pool" by (simp add: s')
  have same: "\<forall>q<MAX_PORTS. q \<noteq> p \<longrightarrow> (\<forall>i\<in>set (queue_idx s q). message_pool s' ! i = message_pool s ! i)"
    unfolding pool
  proof (intro allI impI ballI chain(4))
    fix q i assume q: "q < MAX_PORTS" "q \<noteq> p" and i: "i \<in> set (queue_idx s q)"
    from apart[OF q] i show "i \<noteq> ?i" "i \<notin> set ?xs" by auto
  qed
  note ok = ipc_inv_port_update[OF inv p ti f at fresh same awake]
  show "fst (send (Some p) ident d0 d1 d2 d3 s) = 0" "ipc_inv s'" "message_pool_next s' = Suc ?i"
    "q < MAX_PORTS \<Longrightarrow> q \<noteq> p \<Longrightarrow> queue s' q = queue s q"
    using eq ok(1,3) by simp_all (simp add: s')
  have "content_of (message_pool s' ! i) = content_of (message_pool s ! i)" if "i \<in> set ?xs" for i
    using below[OF that p] chain(3)[of i] unfolding pool by simp
  then show "queue s' p = queue s p @ [(ident, [d0, d1, d2, d3])]"
    using chain(2) unfolding queue_def ok(2) pool by (simp add: content_of_def)
qed

section \<open>Receiving\<close>

lemma queue_head_idx:
  assumes "ipc_inv s" "p < MAX_PORTS"
  shows "queue_head (ports s ! p) = (case queue_idx s p of [] \<Rightarrow> None | i # _ \<Rightarrow> Some i)"
  using ipc_invD(6)[OF assms] by (auto simp: queue_at_def split: list.split)

lemma queue_Nil: "queue s p = [] \<longleftrightarrow> queue_idx s p = []"
  by (simp add: queue_def)

lemma take_message_empty:
  assumes "ipc_inv s" "p < MAX_PORTS" "queue s p = []"
  shows "take_message p s = None"
  using queue_head_idx[OF assms(1,2)] assms(3) by (simp add: take_message_def queue_Nil)

lemma take_message_ok:
  assumes inv: "ipc_inv s" and p: "p < MAX_PORTS" and q: "queue s p = m # ms"
  obtains s' where "take_message p s = Some (m, s')" "ipc_inv s'" "queue s' p = ms"
    "\<And>q. q < MAX_PORTS \<Longrightarrow> q \<noteq> p \<Longrightarrow> queue s' q = queue s q"
    "s' = s\<lparr>ports := ports s'\<rparr>" "\<And>q. blocked_thread (ports s' ! q) = blocked_thread (ports s ! q)"
proof -
  note D = ipc_invD[OF inv]
  let ?v = "ports s ! p"
  obtain i xs where idx: "queue_idx s p = i # xs" and m: "m = content_of (message_pool s ! i)"
      and ms: "ms = map (\<lambda>i. content_of (message_pool s ! i)) xs"
    using q by (cases "queue_idx s p") (auto simp: queue_def)
  let ?h = "msg_next (message_pool s ! i)"
  let ?w = "?v\<lparr>queue_head := ?h\<rparr>"
  let ?w' = "if ?h = None then ?w\<lparr>queue_tail := None\<rparr> else ?w"
  let ?u = "?w'\<lparr>message_count := message_count ?w' - 1\<rparr>"
  let ?s = "s\<lparr>ports := (ports s)[p := ?u]\<rparr>"
  have hd: "queue_head ?v = Some i" using queue_head_idx[OF inv p] idx by simp
  have take: "take_message p s = Some (m, ?s)"
    by (simp add: take_message_def hd m set_port_def message_free_def Let_def)
  have len: "p < length (ports s)" using D(2) p by simp
  have at: "chain (message_pool s) ?h xs" "distinct (i # xs)" "message_count ?v = int (length (i # xs))"
      "queue_tail ?v = Some (last (i # xs))" "set (i # xs) \<subseteq> {..<message_pool_next s}"
    using D(6)[OF p] idx by (simp_all add: queue_at_def)
  have none: "?h = None \<longleftrightarrow> xs = []" using at(1) by (cases xs) auto
  have at': "queue_at ?s p xs" using at none len by (auto simp: queue_at_def)
  have ti: "thread_inv ?s" by (rule thread_inv_frame[OF D(1)]) simp_all
  have fresh: "\<forall>q<MAX_PORTS. q \<noteq> p \<longrightarrow> set xs \<inter> set (queue_idx s q) = {}"
    using D(7)[OF p] idx by auto
  have same: "\<forall>q<MAX_PORTS. q \<noteq> p \<longrightarrow> (\<forall>i\<in>set (queue_idx s q). message_pool ?s ! i = message_pool s ! i)" by simp
  have b: "blocked_thread ?u = blocked_thread ?v" by simp
  have blocked: "\<forall>t. blocked_thread ?u = Some t \<longrightarrow> t < thread_count s \<and> xs = []"
    using D(8)[OF p] idx b by auto
  have f: "ports ?s = (ports s)[p := ?u]" "length (message_pool ?s) = MAX_MESSAGES" "message_pool_next s \<le> message_pool_next ?s"
      "message_pool_next ?s \<le> MAX_MESSAGES" "port_count ?s \<le> MAX_PORTS" "thread_count ?s = thread_count s"
    using D(3-5) by simp_all
  note ok = ipc_inv_port_update[OF inv p ti f at' fresh same blocked]
  show thesis
  proof (rule that[OF take ok(1)])
    show "queue ?s p = ms" unfolding queue_def ok(2) by (simp add: ms)
    show "blocked_thread (ports ?s ! q) = blocked_thread (ports s ! q)" for q
      using b len by (cases "q = p") simp_all
  qed (use ok(3) in simp_all)
qed

lemma recv_resume_ok:
  assumes "ipc_inv s" "p < MAX_PORTS"
  shows "case queue s p of [] \<Rightarrow> recv_resume p s = (RecvDone (- 4) None, s)
    | m # ms \<Rightarrow> \<exists>s'. recv_resume p s = (RecvDone 0 (Some m), s') \<and> ipc_inv s' \<and> queue s' p = ms \<and>
        (\<forall>q<MAX_PORTS. q \<noteq> p \<longrightarrow> queue s' q = queue s q)"
proof (cases "queue s p")
  case Nil
  with take_message_empty[OF assms] show ?thesis by (simp add: recv_resume_def)
next
  case (Cons m ms)
  from take_message_ok[OF assms Cons] obtain s' where "take_message p s = Some (m, s')" "ipc_inv s'" "queue s' p = ms"
    "\<And>q. q < MAX_PORTS \<Longrightarrow> q \<noteq> p \<Longrightarrow> queue s' q = queue s q" by metis
  with Cons show ?thesis by (auto simp: recv_resume_def)
qed

text \<open>The state in which \<open>recv\<close> yields.\<close>

definition blocked_on :: "nat \<Rightarrow> nat \<Rightarrow> 'z thread_state_scheme \<Rightarrow> 'z thread_state_scheme" where
  "blocked_on p c s = s\<lparr>threads := (threads s)[c := (threads s ! c)\<lparr>thread_status := THREAD_BLOCKED, waiting_on_port := Some p\<rparr>],
     ports := (ports s)[p := (ports s ! p)\<lparr>blocked_thread := Some c\<rparr>]\<rparr>"

lemma blocked_on_ok:
  assumes inv: "ipc_inv s" and p: "p < MAX_PORTS" and "queue s p = []" "current s = Some c"
  shows "ipc_inv (blocked_on p c s)" "\<And>q. queue (blocked_on p c s) q = queue s q"
proof -
  note D = ipc_invD[OF inv]
  let ?s = "blocked_on p c s" and ?v = "(ports s ! p)\<lparr>blocked_thread := Some c\<rparr>"
  have c: "c < thread_count s" using thread_invD(4)[OF D(1)] assms(4) by simp
  have len: "p < length (ports s)" using D(2) p by simp
  have head: "queue_head (ports ?s ! q) = queue_head (ports s ! q)" for q
    using len by (cases "q = p") (simp_all add: blocked_on_def)
  have pool: "message_pool ?s = message_pool s" by (simp add: blocked_on_def)
  then show "queue ?s q = queue s q" for q by (simp add: queue_def queue_idx_def head)
  have ti: "thread_inv ?s"
    by (rule thread_inv_update[OF D(1), of _ c "(threads s ! c)\<lparr>thread_status := THREAD_BLOCKED, waiting_on_port := Some p\<rparr>"])
       (simp_all add: blocked_on_def)
  have at: "queue_at ?s p []"
    using D(6)[OF p] assms(3) len by (simp add: queue_at_def queue_Nil blocked_on_def)
  have f: "ports ?s = (ports s)[p := ?v]" "length (message_pool ?s) = MAX_MESSAGES" "message_pool_next s \<le> message_pool_next ?s"
      "message_pool_next ?s \<le> MAX_MESSAGES" "port_count ?s \<le> MAX_PORTS" "thread_count ?s = thread_count s"
    using D(3-5) by (simp_all add: blocked_on_def)
  show "ipc_inv ?s"
    by (rule ipc_inv_port_update(1)[OF inv p ti f at]) (simp_all add: pool c)
qed

lemma recv_eq:
  assumes "ipc_inv s" "p < MAX_PORTS" "msg_out \<noteq> 0" "queue s p = []"
  shows "recv ra (Some p) msg_out s =
    (case current s of
       None \<Rightarrow> Some (RecvDone (- 2) None, s)
     | Some c \<Rightarrow>
        if blocked_thread (ports s ! p) \<noteq> None then Some (RecvDone (- 3) None, s)
        else case thread_yield ra (blocked_on p c s) of
               None \<Rightarrow> None
             | Some (Resumes rip, s3) \<Rightarrow> Some (RecvSwitched rip, s3)
             | Some (Returns, s3) \<Rightarrow> Some (recv_resume p s3))"
  using assms
  by (cases "current s") (simp_all add: recv_def take_message_empty blocked_on_def set_thread_def set_port_def Let_def)

lemma take_message_next: "take_message p s = Some (m, s') \<Longrightarrow> message_pool_next s' = message_pool_next s"
  by (auto simp: take_message_def set_port_def message_free_def Let_def split: option.splits)

lemma recv_resume_next: "message_pool_next (snd (recv_resume p s)) = message_pool_next s"
  by (auto simp: recv_resume_def take_message_next split: option.splits)

definition no_message :: "recv_result \<Rightarrow> bool" where
  "no_message r \<longleftrightarrow> (\<forall>c m. r \<noteq> RecvDone c (Some m))"

lemma recv_ok:
  assumes inv: "ipc_inv s" and p: "p < MAX_PORTS"
  obtains r s' where "recv ra (Some p) msg_out s = Some (r, s')" "ipc_inv s'"
    "\<And>q. q < MAX_PORTS \<Longrightarrow> q \<noteq> p \<Longrightarrow> queue s' q = queue s q"
    "(no_message r \<and> queue s' p = queue s p) \<or> (\<exists>m. r = RecvDone 0 (Some m) \<and> queue s p = m # queue s' p)"
    "message_pool_next s' = message_pool_next s"
proof (cases "msg_out = 0")
  case True
  with inv show ?thesis by (intro that[of "RecvDone (- 1) None" s]) (simp_all add: recv_def no_message_def)
next
  case False
  show ?thesis
  proof (cases "queue s p")
    case (Cons m ms)
    from take_message_ok[OF inv p Cons] obtain s' where
      s': "take_message p s = Some (m, s')" "ipc_inv s'" "queue s' p = ms"
        "\<And>q. q < MAX_PORTS \<Longrightarrow> q \<noteq> p \<Longrightarrow> queue s' q = queue s q" by metis
    with False Cons show ?thesis
      by (intro that[of "RecvDone 0 (Some m)" s']) (auto simp: recv_def no_message_def take_message_next)
  next
    case Nil
    note eq = recv_eq[OF inv p False Nil, of ra]
    show ?thesis
    proof (cases "current s")
      case None
      with inv Nil eq show ?thesis by (intro that[of "RecvDone (- 2) None" s]) (simp_all add: no_message_def)
    next
      case (Some c)
      show ?thesis
      proof (cases "blocked_thread (ports s ! p) = None")
        case False
        with inv Nil eq Some show ?thesis by (intro that[of "RecvDone (- 3) None" s]) (auto simp: no_message_def)
      next
        case True
        note b = blocked_on_ok[OF inv p Nil Some]
        obtain ctl s3 where y: "thread_yield ra (blocked_on p c s) = Some (ctl, s3)" "thread_inv s3" "switched (blocked_on p c s) s3"
          by (rule thread_yield_total[OF ipc_invD(1)[OF b(1)]])
        note i3 = ipc_inv_cong[OF b(1) y(2) switchedD(1,2,3,4,5)[OF y(3)]]
        have q3: "queue s3 q = queue s q" for q using i3(2) b(2) by simp
        have n3: "message_pool_next s3 = message_pool_next s"
          using switchedD(3)[OF y(3)] by (simp add: blocked_on_def)
        have resume: "recv_resume p s3 = (RecvDone (- 4) None, s3)"
          using recv_resume_ok[OF i3(1) p] Nil q3 by simp
        show ?thesis
        proof (cases ctl)
          case Returns
          with eq Some True y resume i3(1) q3 n3 Nil show ?thesis
            by (intro that[of "RecvDone (- 4) None" s3]) (simp_all add: no_message_def)
        next
          case (Resumes rip)
          with eq Some True y i3(1) q3 n3 Nil show ?thesis
            by (intro that[of "RecvSwitched rip" s3]) (simp_all add: no_message_def)
        qed
      qed
    qed
  qed
qed

section \<open>Creating and destroying ports\<close>

lemma ipc_inv_empty_port:
  assumes inv: "ipc_inv s" and p: "p < MAX_PORTS" and ti: "thread_inv s'" and "ports s' = (ports s)[p := empty_port]"
    "message_pool s' = message_pool s" "message_pool_next s' = message_pool_next s" "port_count s' \<le> MAX_PORTS"
    "thread_count s' = thread_count s"
  shows "ipc_inv s'" "queue s' p = []" "q < MAX_PORTS \<Longrightarrow> q \<noteq> p \<Longrightarrow> queue s' q = queue s q"
proof -
  note D = ipc_invD[OF inv]
  have at: "queue_at s' p []" using D(2) p assms(4) by (simp add: queue_at_def empty_port_def)
  have f: "length (message_pool s') = MAX_MESSAGES" "message_pool_next s \<le> message_pool_next s'"
      "message_pool_next s' \<le> MAX_MESSAGES"
    using D(3,5) assms by simp_all
  have r: "\<forall>q<MAX_PORTS. q \<noteq> p \<longrightarrow> set [] \<inter> set (queue_idx s q) = {}"
      "\<forall>q<MAX_PORTS. q \<noteq> p \<longrightarrow> (\<forall>i\<in>set (queue_idx s q). message_pool s' ! i = message_pool s ! i)"
      "\<forall>t. blocked_thread empty_port = Some t \<longrightarrow> t < thread_count s \<and> ([] :: nat list) = []"
    using assms(5) by (simp_all add: empty_port_def)
  note ok = ipc_inv_port_update[OF inv p ti assms(4) f assms(7,8) at r]
  show "ipc_inv s'" by (rule ok(1))
  show "q < MAX_PORTS \<Longrightarrow> q \<noteq> p \<Longrightarrow> queue s' q = queue s q" by (rule ok(3))
  show "queue s' p = []" unfolding queue_def ok(2) by simp
qed

lemma port_create_ok:
  assumes inv: "ipc_inv s" and p: "port_count s < MAX_PORTS"
  obtains s' where "port_create s = (Some (port_count s), s')" "ipc_inv s'" "port_count s' = Suc (port_count s)"
    "queue s' (port_count s) = []" "\<And>q. q < MAX_PORTS \<Longrightarrow> q \<noteq> port_count s \<Longrightarrow> queue s' q = queue s q"
    "s' = s\<lparr>port_count := Suc (port_count s), ports := (ports s)[port_count s := empty_port]\<rparr>"
proof -
  let ?p = "port_count s"
  let ?s = "s\<lparr>port_count := Suc ?p, ports := (ports s)[?p := empty_port]\<rparr>"
  have ti: "thread_inv ?s" by (rule thread_inv_frame[OF ipc_invD(1)[OF inv]]) simp_all
  have ok: "ipc_inv ?s" "queue ?s ?p = []" "\<And>q. q < MAX_PORTS \<Longrightarrow> q \<noteq> ?p \<Longrightarrow> queue ?s q = queue s q"
    by (rule ipc_inv_empty_port[OF inv p ti]; use p in simp)+
  show thesis
    by (rule that[of ?s]) (use p ok in \<open>simp_all add: port_create_def set_port_def Let_def\<close>)
qed

lemma free_queue_chain: "chain (message_pool s) h xs \<Longrightarrow> free_queue h s = Some s"
proof (induction xs arbitrary: h)
  case Nil
  then show ?case by (subst free_queue.simps) simp
next
  case (Cons x xs)
  then show ?case by (subst free_queue.simps) (simp add: message_free_def)
qed

lemma port_destroy_ok:
  assumes inv: "ipc_inv s" and p: "p < MAX_PORTS"
  obtains s' where "port_destroy (Some p) s = Some s'" "ipc_inv s'" "queue s' p = []"
    "\<And>q. q < MAX_PORTS \<Longrightarrow> q \<noteq> p \<Longrightarrow> queue s' q = queue s q"
    "s' = s\<lparr>threads := woken (blocked_thread (ports s ! p)) (threads s), ports := (ports s)[p := empty_port]\<rparr>"
proof -
  note D = ipc_invD[OF inv]
  let ?b = "blocked_thread (ports s ! p)"
  let ?s = "s\<lparr>threads := woken ?b (threads s), ports := (ports s)[p := empty_port]\<rparr>"
  have "free_queue (queue_head (ports s ! p)) s = Some s"
    using D(6)[OF p] by (intro free_queue_chain[of _ _ "queue_idx s p"]) (simp add: queue_at_def)
  then have eq: "port_destroy (Some p) s = Some ?s"
    by (cases ?b) (simp_all add: port_destroy_def woken_def wake_def set_thread_def set_port_def)
  have ti: "thread_inv ?s" by (rule thread_inv_woken[OF D(1)]) simp_all
  have ok: "ipc_inv ?s" "queue ?s p = []" "\<And>q. q < MAX_PORTS \<Longrightarrow> q \<noteq> p \<Longrightarrow> queue ?s q = queue s q"
    by (rule ipc_inv_empty_port[OF inv p ti]; use D(4) in simp)+
  show thesis by (rule that[OF eq]) (use ok in simp_all)
qed

section \<open>The contract of a set of channels\<close>

datatype ('p, 'm, 'w) chan_op = Put 'p 'm | Get 'w 'p

primrec op_port :: "('p, 'm, 'w) chan_op \<Rightarrow> 'p" where
  "op_port (Put p m) = p"
| "op_port (Get w p) = p"

text \<open>Running a sequence of operations: what was accepted, what was delivered, and the final state.\<close>

primrec run_ops ::
    "('p \<Rightarrow> 'm \<Rightarrow> 's \<Rightarrow> bool \<times> 's) \<Rightarrow> ('w \<Rightarrow> 'p \<Rightarrow> 's \<Rightarrow> 'm option \<times> 's) \<Rightarrow> ('p, 'm, 'w) chan_op list \<Rightarrow> 's
     \<Rightarrow> ('p \<times> 'm) list \<times> ('p \<times> 'm) list \<times> 's" where
  "run_ops put get [] s = ([], [], s)"
| "run_ops put get (op # ops) s =
     (case op of
        Put p m \<Rightarrow> (let (ok, s1) = put p m s; (sent, rcvd, s2) = run_ops put get ops s1
                    in (if ok then (p, m) # sent else sent, rcvd, s2))
      | Get w p \<Rightarrow> (let (r, s1) = get w p s; (sent, rcvd, s2) = run_ops put get ops s1
                    in (sent, case r of None \<Rightarrow> rcvd | Some m \<Rightarrow> (p, m) # rcvd, s2)))"

definition msgs_on :: "'p \<Rightarrow> ('p \<times> 'm) list \<Rightarrow> 'm list" where
  "msgs_on p xs = map snd (filter (\<lambda>x. fst x = p) xs)"

lemma msgs_on_simps [simp]:
  "msgs_on p [] = []" "msgs_on p ((q, m) # xs) = (if q = p then [m] else []) @ msgs_on p xs"
  by (simp_all add: msgs_on_def)

locale channels =
  fixes inv :: "'s \<Rightarrow> bool" and valid :: "'p \<Rightarrow> bool" and contents :: "'s \<Rightarrow> 'p \<Rightarrow> 'm list"
    and put :: "'p \<Rightarrow> 'm \<Rightarrow> 's \<Rightarrow> bool \<times> 's" and get :: "'w \<Rightarrow> 'p \<Rightarrow> 's \<Rightarrow> 'm option \<times> 's"
  assumes put_inv: "inv s \<Longrightarrow> valid p \<Longrightarrow> inv (snd (put p m s))"
    and put_contents: "inv s \<Longrightarrow> valid p \<Longrightarrow>
      contents (snd (put p m s)) p = contents s p @ (if fst (put p m s) then [m] else [])"
    and put_other: "inv s \<Longrightarrow> valid p \<Longrightarrow> valid q \<Longrightarrow> q \<noteq> p \<Longrightarrow> contents (snd (put p m s)) q = contents s q"
    and get_inv: "inv s \<Longrightarrow> valid p \<Longrightarrow> inv (snd (get w p s))"
    and get_contents: "inv s \<Longrightarrow> valid p \<Longrightarrow>
      contents s p = (case fst (get w p s) of None \<Rightarrow> [] | Some m \<Rightarrow> [m]) @ contents (snd (get w p s)) p"
    and get_other: "inv s \<Longrightarrow> valid p \<Longrightarrow> valid q \<Longrightarrow> q \<noteq> p \<Longrightarrow> contents (snd (get w p s)) q = contents s q"
begin

lemma put_step:
  assumes "inv s" "valid p" "valid q"
  shows "contents (snd (put p m s)) q = contents s q @ (if p = q \<and> fst (put p m s) then [m] else [])"
  using put_contents[OF assms(1,2)] put_other[OF assms] by (cases "p = q") auto

lemma get_step:
  assumes "inv s" "valid p" "valid q"
  shows "contents s q = (case fst (get w p s) of None \<Rightarrow> [] | Some m \<Rightarrow> if p = q then [m] else []) @
    contents (snd (get w p s)) q"
  using get_contents[OF assms(1,2), of w] get_other[OF assms, of w] by (cases "p = q") (auto split: option.splits)

lemma run_fifo:
  assumes "inv s" "\<forall>op\<in>set ops. valid (op_port op)" "run_ops put get ops s = (sent, rcvd, s')"
  shows "inv s' \<and> (\<forall>q. valid q \<longrightarrow> contents s q @ msgs_on q sent = msgs_on q rcvd @ contents s' q)"
  using assms
proof (induction ops arbitrary: s sent rcvd)
  case (Cons op ops)
  show ?case
  proof (cases op)
    case (Put p m)
    obtain sent1 rcvd1 where r: "run_ops put get ops (snd (put p m s)) = (sent1, rcvd1, s')"
        "sent = (if fst (put p m s) then (p, m) # sent1 else sent1)" "rcvd = rcvd1"
      using Cons.prems(3) Put
      by (cases "run_ops put get ops (snd (put p m s))") (auto simp: case_prod_unfold Let_def split: if_splits)
    have p: "valid p" "\<forall>op\<in>set ops. valid (op_port op)" using Cons.prems(2) Put by auto
    note IH = Cons.IH[OF put_inv[OF Cons.prems(1) p(1)] p(2) r(1)]
    show ?thesis
    proof (intro conjI allI impI)
      fix q assume q: "valid q"
      have "contents s q @ msgs_on q sent = contents (snd (put p m s)) q @ msgs_on q sent1"
        using put_step[OF Cons.prems(1) p(1) q, of m] r(2) by auto
      with IH q r(3) show "contents s q @ msgs_on q sent = msgs_on q rcvd @ contents s' q" by simp
    qed (use IH in simp)
  next
    case (Get w p)
    obtain sent1 rcvd1 where r: "run_ops put get ops (snd (get w p s)) = (sent1, rcvd1, s')"
        "sent = sent1" "rcvd = (case fst (get w p s) of None \<Rightarrow> rcvd1 | Some m \<Rightarrow> (p, m) # rcvd1)"
      using Cons.prems(3) Get
      by (cases "run_ops put get ops (snd (get w p s))") (auto simp: case_prod_unfold Let_def split: option.splits)
    have p: "valid p" "\<forall>op\<in>set ops. valid (op_port op)" using Cons.prems(2) Get by auto
    note IH = Cons.IH[OF get_inv[OF Cons.prems(1) p(1)] p(2) r(1)]
    show ?thesis
    proof (intro conjI allI impI)
      fix q assume q: "valid q"
      have "msgs_on q rcvd = (case fst (get w p s) of None \<Rightarrow> [] | Some m \<Rightarrow> if p = q then [m] else []) @ msgs_on q rcvd1"
        using r(3) by (auto split: option.split)
      with get_step[OF Cons.prems(1) p(1) q, of w] IH q r(2)
      show "contents s q @ msgs_on q sent = msgs_on q rcvd @ contents s' q" by simp
    qed (use IH in simp)
  qed
qed simp

end

text \<open>The ports as channels: \<open>send\<close> puts, both parts of \<open>recv\<close> get.\<close>

datatype recv_way = RecvCall u64 u64 | RecvResume

definition port_put :: "nat \<Rightarrow> content \<Rightarrow> 'z thread_state_scheme \<Rightarrow> bool \<times> 'z thread_state_scheme" where
  "port_put p m s = (case m of (ident, [d0, d1, d2, d3]) \<Rightarrow> map_prod (\<lambda>r. r = 0) id (send (Some p) ident d0 d1 d2 d3 s)
     | _ \<Rightarrow> (False, s))"

definition delivered :: "recv_result \<Rightarrow> content option" where
  "delivered r = (case r of RecvDone c m \<Rightarrow> m | RecvSwitched a \<Rightarrow> None)"

definition port_get :: "recv_way \<Rightarrow> nat \<Rightarrow> 'z thread_state_scheme \<Rightarrow> content option \<times> 'z thread_state_scheme" where
  "port_get w p s = (case w of
       RecvCall ra msg_out \<Rightarrow> (case recv ra (Some p) msg_out s of None \<Rightarrow> (None, s) | Some (r, s') \<Rightarrow> (delivered r, s'))
     | RecvResume \<Rightarrow> map_prod delivered id (recv_resume p s))"

lemma port_put_cases:
  assumes "ipc_inv s" "p < MAX_PORTS"
  shows "ipc_inv (snd (port_put p m s)) \<and>
    queue (snd (port_put p m s)) p = queue s p @ (if fst (port_put p m s) then [m] else []) \<and>
    (\<forall>q<MAX_PORTS. q \<noteq> p \<longrightarrow> queue (snd (port_put p m s)) q = queue s q) \<and>
    message_pool_next (snd (port_put p m s)) = message_pool_next s + (if fst (port_put p m s) then 1 else 0)"
proof (cases "(\<exists>ident d0 d1 d2 d3. m = (ident, [d0, d1, d2, d3])) \<and> message_pool_next s < MAX_MESSAGES")
  case True
  then obtain ident d0 d1 d2 d3 where m: "m = (ident, [d0, d1, d2, d3])" by blast
  from send_ok[OF assms, where ident = ident and ?d0.0 = d0 and ?d1.0 = d1 and ?d2.0 = d2 and ?d3.0 = d3] True show ?thesis by (simp add: port_put_def m)
next
  case False
  then have "port_put p m s = (False, s)"
    by (auto simp: port_put_def send_errors split: prod.split list.split)
  with assms show ?thesis by simp
qed

lemma port_get_cases:
  assumes "ipc_inv s" "p < MAX_PORTS"
  shows "ipc_inv (snd (port_get w p s)) \<and>
    queue s p = (case fst (port_get w p s) of None \<Rightarrow> [] | Some m \<Rightarrow> [m]) @ queue (snd (port_get w p s)) p \<and>
    (\<forall>q<MAX_PORTS. q \<noteq> p \<longrightarrow> queue (snd (port_get w p s)) q = queue s q) \<and>
    message_pool_next (snd (port_get w p s)) = message_pool_next s"
proof (cases w)
  case (RecvCall ra msg_out)
  obtain r s' where "recv ra (Some p) msg_out s = Some (r, s')" "ipc_inv s'"
      "\<And>q. q < MAX_PORTS \<Longrightarrow> q \<noteq> p \<Longrightarrow> queue s' q = queue s q"
      "(no_message r \<and> queue s' p = queue s p) \<or> (\<exists>m. r = RecvDone 0 (Some m) \<and> queue s p = m # queue s' p)"
      "message_pool_next s' = message_pool_next s"
    using recv_ok[OF assms, of ra msg_out] by metis
  with RecvCall show ?thesis
    by (auto simp: port_get_def delivered_def no_message_def split: recv_result.splits option.splits)
next
  case RecvResume
  with recv_resume_ok[OF assms] recv_resume_next[of p s] assms show ?thesis
    by (cases "queue s p") (auto simp: port_get_def delivered_def)
qed

interpretation ports: channels ipc_inv "\<lambda>p. p < MAX_PORTS" queue port_put port_get
  by unfold_locales (use port_put_cases port_get_cases in blast)+

text \<open>
  C5. Ports are reliable queues. Over any sequence of sends, receives and resumed receives
  on any ports, what was in a port's queue followed by what was sent to it is exactly what
  was received from it followed by what is still in its queue: nothing is lost, duplicated,
  reordered or delivered to another port.
\<close>

theorem ports_fifo:
  assumes "ipc_inv s" "\<forall>op\<in>set ops. op_port op < MAX_PORTS" "run_ops port_put port_get ops s = (sent, rcvd, s')"
  shows "ipc_inv s' \<and> (\<forall>q<MAX_PORTS. queue s q @ msgs_on q sent = msgs_on q rcvd @ queue s' q)"
  by (rule ports.run_fifo[OF assms])

section \<open>Identifiers\<close>

text \<open>
  C24. Port identifiers: zero and every number above the size of the table name no port,
  every other identifier names a port whose identifier it is, and distinct ports have
  distinct identifiers.
\<close>

theorem port_id_roundtrip:
  "(case port_from_id ident of None \<Rightarrow> ident = 0 \<or> unat ident > MAX_PORTS
    | Some p \<Rightarrow> p < MAX_PORTS \<and> port_to_id (Some p) = ident) \<and>
   (p < MAX_PORTS \<longrightarrow> port_from_id (port_to_id (Some p)) = Some p \<and> port_to_id (Some p) \<noteq> port_to_id None)"
proof
  show "case port_from_id ident of None \<Rightarrow> ident = 0 \<or> unat ident > MAX_PORTS
    | Some p \<Rightarrow> p < MAX_PORTS \<and> port_to_id (Some p) = ident"
  proof (cases "ident = 0 \<or> 16 < ident")
    case True
    then show ?thesis by (auto simp: port_from_id_def MAX_PORTS_def word_less_nat_alt)
  next
    case False
    then have u: "0 < unat ident" "unat ident \<le> 16" by (auto simp: word_less_nat_alt unat_gt_0)
    have "1 \<le> ident" using u by (simp add: word_le_nat_alt)
    then have "unat (ident - 1) = unat ident - 1" using unat_sub[of 1 ident] by simp
    with u False show ?thesis
      by (auto simp: port_from_id_def port_to_id_def MAX_PORTS_def word_le_nat_alt Let_def)
  qed
  show "p < MAX_PORTS \<longrightarrow> port_from_id (port_to_id (Some p)) = Some p \<and> port_to_id (Some p) \<noteq> port_to_id None"
  proof
    assume p: "p < MAX_PORTS"
    then have u: "unat (of_nat p :: u32) = p" "unat (of_nat p + 1 :: u32) = Suc p"
      by (simp_all add: MAX_PORTS_def unat_of_nat unat_word_ariths)
    then have "of_nat p + 1 \<noteq> (0 :: u32)" by (metis Zero_not_Suc unat_0)
    with p u show "port_from_id (port_to_id (Some p)) = Some p \<and> port_to_id (Some p) \<noteq> port_to_id None"
      by (auto simp: port_from_id_def port_to_id_def MAX_PORTS_def word_le_nat_alt word_less_nat_alt Let_def)
  qed
qed

section \<open>The message pool\<close>

text \<open>
  C29. The pool only shrinks. Every accepted send takes one of the 64 messages of the pool
  for good, because receiving does not give it back: over any sequence of operations the
  number of accepted sends is the number of messages taken, so at most 64 sends succeed
  between two initialisations, whatever is received in between.
\<close>

theorem message_pool_only_shrinks:
  assumes "ipc_inv s" "\<forall>op\<in>set ops. op_port op < MAX_PORTS" "run_ops port_put port_get ops s = (sent, rcvd, s')"
  shows "message_pool_next s' = message_pool_next s + length sent \<and> length sent \<le> MAX_MESSAGES - message_pool_next s"
proof -
  have "ipc_inv s' \<and> message_pool_next s' = message_pool_next s + length sent"
    using assms
  proof (induction ops arbitrary: s sent rcvd s')
    case (Cons op ops)
    show ?case
    proof (cases op)
      case (Put p m)
      then have p: "p < MAX_PORTS" using Cons.prems(2) by simp
      obtain a b c where r: "run_ops port_put port_get ops (snd (port_put p m s)) = (a, b, c)" by (metis prod_cases3)
      have "ipc_inv (snd (port_put p m s))" by (rule ports.put_inv[OF Cons.prems(1) p])
      from Cons.IH[OF this _ r] Cons.prems Put r port_put_cases[OF Cons.prems(1) p, of m] show ?thesis
        by (auto simp: case_prod_unfold Let_def)
    next
      case (Get w p)
      then have p: "p < MAX_PORTS" using Cons.prems(2) by simp
      obtain a b c where r: "run_ops port_put port_get ops (snd (port_get w p s)) = (a, b, c)" by (metis prod_cases3)
      have "ipc_inv (snd (port_get w p s))" by (rule ports.get_inv[OF Cons.prems(1) p])
      from Cons.IH[OF this _ r] Cons.prems Get r port_get_cases[OF Cons.prems(1) p, of w] show ?thesis
        by (auto simp: case_prod_unfold Let_def)
    qed
  qed simp
  with ipc_invD(5)[of s'] show ?thesis by linarith
qed

section \<open>Blocking and waking\<close>

lemma recv_blocks:
  assumes inv: "ipc_inv s" and p: "p < MAX_PORTS" "msg_out \<noteq> 0" "queue s p = []"
    and c: "current s = Some c" "blocked_thread (ports s ! p) = None"
  obtains ctl s' where "thread_yield ra (blocked_on p c s) = Some (ctl, s')" "switched (blocked_on p c s) s'" "ipc_inv s'"
    "queue s' = queue s"
    "recv ra (Some p) msg_out s = Some (case ctl of Resumes rip \<Rightarrow> RecvSwitched rip | Returns \<Rightarrow> RecvDone (- 4) None, s')"
    "current s' = (case next_in_order (threads (blocked_on p c s)) (thread_count s) c of None \<Rightarrow> Some c | Some i \<Rightarrow> Some i)"
    "ctl = Returns \<longleftrightarrow> next_in_order (threads (blocked_on p c s)) (thread_count s) c \<in> {None, Some c}"
proof -
  note b = blocked_on_ok[OF inv p(1,3) c(1)]
  have fields: "current (blocked_on p c s) = Some c" "thread_count (blocked_on p c s) = thread_count s"
    using c by (simp_all add: blocked_on_def)
  obtain ctl s3 where y: "thread_yield ra (blocked_on p c s) = Some (ctl, s3)" "thread_inv s3" "switched (blocked_on p c s) s3"
      "current s3 = (case next_in_order (threads (blocked_on p c s)) (thread_count s) c of None \<Rightarrow> Some c | Some i \<Rightarrow> Some i)"
      "ctl = Returns \<longleftrightarrow> next_in_order (threads (blocked_on p c s)) (thread_count s) c \<in> {None, Some c}"
    by (rule thread_yield_total[OF ipc_invD(1)[OF b(1)], of ra]) (simp add: fields)
  note i3 = ipc_inv_cong[OF b(1) y(2) switchedD(1,2,3,4,5)[OF y(3)]]
  have q3: "queue s3 = queue s" using i3(2) b(2) by (intro ext) simp
  have "recv_resume p s3 = (RecvDone (- 4) None, s3)" using recv_resume_ok[OF i3(1) p(1)] p(3) q3 by simp
  with recv_eq[OF inv p, of ra] c y(1)
  have "recv ra (Some p) msg_out s = Some (case ctl of Resumes rip \<Rightarrow> RecvSwitched rip | Returns \<Rightarrow> RecvDone (- 4) None, s3)"
    by (cases ctl) simp_all
  with y i3(1) q3 that show thesis by blast
qed

lemma blocked_on_threads:
  assumes "ipc_inv s" "current s = Some c"
  shows "thread_status (threads (blocked_on p c s) ! i) = (if i = c then THREAD_BLOCKED else thread_status (threads s ! i))"
    "waiting_on_port (threads (blocked_on p c s) ! i) = (if i = c then Some p else waiting_on_port (threads s ! i))"
proof -
  have "c < length (threads s)" using thread_invD[OF ipc_invD(1)[OF assms(1)]] assms(2) by fastforce
  then show "thread_status (threads (blocked_on p c s) ! i) = (if i = c then THREAD_BLOCKED else thread_status (threads s ! i))"
    "waiting_on_port (threads (blocked_on p c s) ! i) = (if i = c then Some p else waiting_on_port (threads s ! i))"
    by (simp_all add: blocked_on_def nth_list_update)
qed

lemma blocked_on_port:
  assumes "ipc_inv s" "p < MAX_PORTS"
  shows "blocked_thread (ports (blocked_on p c s) ! q) = (if q = p then Some c else blocked_thread (ports s ! q))"
  using ipc_invD(2)[OF assms(1)] assms(2) by (simp add: blocked_on_def nth_list_update)

lemma woken_nth:
  assumes "\<forall>t. b = Some t \<longrightarrow> t < length ts"
  shows "thread_status (woken b ts ! i) = (if b = Some i then THREAD_RUNNING else thread_status (ts ! i))"
    "waiting_on_port (woken b ts ! i) = (if b = Some i then None else waiting_on_port (ts ! i))"
  using assms by (auto simp: woken_def nth_list_update split: option.split)

lemma blocked_thread_length:
  assumes "ipc_inv s" "p < MAX_PORTS"
  shows "\<forall>t. blocked_thread (ports s ! p) = Some t \<longrightarrow> t < length (threads s)"
  using ipc_invD(8)[OF assms] thread_invD(1,3)[OF ipc_invD(1)[OF assms(1)]] by fastforce

lemma send_threads:
  assumes "ipc_inv s" "p < MAX_PORTS" "message_pool_next s < MAX_MESSAGES"
  shows "threads (snd (send (Some p) ident d0 d1 d2 d3 s)) = woken (blocked_thread (ports s ! p)) (threads s)"
    "blocked_thread (ports (snd (send (Some p) ident d0 d1 d2 d3 s)) ! q) =
       (if q = p then None else blocked_thread (ports s ! q))"
  using assms ipc_invD(2,3)[OF assms(1)] by (simp_all add: send_eq enqueue_port_def nth_list_update)


text \<open>
  C30. When no other thread can run, a receiver on an empty port does not wait: \<^verbatim>\<open>recv\<close>
  returns \<open>-4\<close> at once, but leaves the caller marked as blocked and registered at the port.
  The caller goes on running in that state, and from then on the scheduler finds no
  thread to run.
\<close>

theorem recv_alone_returns_blocked:
  assumes "ipc_inv s" "p < MAX_PORTS" "msg_out \<noteq> 0" "queue s p = []" "current s = Some c"
    "blocked_thread (ports s ! p) = None" "\<forall>i<thread_count s. i \<noteq> c \<longrightarrow> \<not> runnable (threads s) i"
  shows "\<exists>s'. recv ra (Some p) msg_out s = Some (RecvDone (- 4) None, s') \<and> current s' = Some c \<and>
    thread_status (threads s' ! c) = THREAD_BLOCKED \<and> blocked_thread (ports s' ! p) = Some c \<and>
    find_next_runnable (threads s') c = Some None"
proof -
  let ?b = "blocked_on p c s"
  obtain ctl s1 where s1: "switched ?b s1" "ipc_inv s1"
      "recv ra (Some p) msg_out s = Some (case ctl of Resumes rip \<Rightarrow> RecvSwitched rip | Returns \<Rightarrow> RecvDone (- 4) None, s1)"
      "current s1 = (case next_in_order (threads ?b) (thread_count s) c of None \<Rightarrow> Some c | Some i \<Rightarrow> Some i)"
      "ctl = Returns \<longleftrightarrow> next_in_order (threads ?b) (thread_count s) c \<in> {None, Some c}"
    by (rule recv_blocks[OF assms(1-6)])
  have c: "c < thread_count s" using thread_invD(4)[OF ipc_invD(1)[OF assms(1)]] assms(5) by simp
  note st = blocked_on_threads(1)[OF assms(1,5), of p]
  have none: "\<forall>i<thread_count s. \<not> runnable (threads ?b) i" using assms(7) st by (simp add: runnable_def)
  have n1: "thread_count s1 = thread_count s" using switchedD(5)[OF s1(1)] by (simp add: blocked_on_def)
  have none1: "\<forall>i<thread_count s1. \<not> runnable (threads s1) i"
    using none n1 by (simp add: runnable_def switchedD(9)[OF s1(1)])
  have "next_in_order (threads ?b) (thread_count s) c = None" using next_in_order_None[OF c] none by simp
  moreover have "find_next_runnable (threads s1) c = Some None"
    using find_next_runnable_eq[OF thread_invD(2)[OF ipc_invD(1)[OF s1(2)]], of c] next_in_order_None[of c "thread_count s1"]
      c n1 none1 by simp
  ultimately show ?thesis
    using s1 st switchedD(9)[OF s1(1), of c] switchedD(1)[OF s1(1)] blocked_on_port[OF assms(1,2), of c p]
    by (cases ctl) auto
qed

section \<open>Nobody waits in vain\<close>

text \<open>
  Every blocked thread is registered at the port it waits on, and ports that were not
  created yet are unused. The first part is what makes a later send wake the thread; the
  second one is needed to keep it when a port is created.
\<close>

definition wait_ok :: "'z thread_state_scheme \<Rightarrow> bool" where
  "wait_ok s \<longleftrightarrow> (\<forall>t<thread_count s. thread_status (threads s ! t) = THREAD_BLOCKED \<longrightarrow>
     (\<exists>p<port_count s. waiting_on_port (threads s ! t) = Some p \<and> blocked_thread (ports s ! p) = Some t)) \<and>
     (\<forall>p. port_count s \<le> p \<and> p < MAX_PORTS \<longrightarrow> blocked_thread (ports s ! p) = None \<and> queue s p = [])"

lemma wait_ok_cong:
  assumes "wait_ok s" "port_count s' = port_count s" "thread_count s' = thread_count s"
    "\<And>t. thread_status (threads s' ! t) = thread_status (threads s ! t)"
    "\<And>t. waiting_on_port (threads s' ! t) = waiting_on_port (threads s ! t)"
    "\<And>p. p < MAX_PORTS \<Longrightarrow> blocked_thread (ports s' ! p) = blocked_thread (ports s ! p)"
    "\<And>p. port_count s \<le> p \<Longrightarrow> p < MAX_PORTS \<Longrightarrow> queue s' p = queue s p" "port_count s \<le> MAX_PORTS"
  shows "wait_ok s'"
  unfolding wait_ok_def assms(2,3,4,5)
proof (intro conjI allI impI)
  fix t assume "t < thread_count s" "thread_status (threads s ! t) = THREAD_BLOCKED"
  with assms(1) obtain p where "p < port_count s" "waiting_on_port (threads s ! t) = Some p" "blocked_thread (ports s ! p) = Some t"
    unfolding wait_ok_def by blast
  then show "\<exists>p<port_count s. waiting_on_port (threads s ! t) = Some p \<and> blocked_thread (ports s' ! p) = Some t"
    using assms(6)[of p] assms(8) by (intro exI[of _ p]) simp
next
  fix p assume "port_count s \<le> p \<and> p < MAX_PORTS"
  with assms(1,6,7) show "blocked_thread (ports s' ! p) = None" "queue s' p = []" by (simp_all add: wait_ok_def)
qed

text \<open>Waking the thread registered at \<open>p\<close>, if any, and clearing the registration.\<close>

lemma wait_ok_unblock:
  assumes inv: "ipc_inv s" "wait_ok s" "p < port_count s"
    and s': "threads s' = woken (blocked_thread (ports s ! p)) (threads s)"
      "\<And>q. blocked_thread (ports s' ! q) = (if q = p then None else blocked_thread (ports s ! q))"
      "port_count s' = port_count s" "thread_count s' = thread_count s"
      "\<And>q. q < MAX_PORTS \<Longrightarrow> q \<noteq> p \<Longrightarrow> queue s' q = queue s q"
  shows "wait_ok s'"
proof -
  have p: "p < MAX_PORTS" using ipc_invD(4)[OF inv(1)] inv(3) by simp
  note w = woken_nth[OF blocked_thread_length[OF inv(1) p]]
  show ?thesis
    unfolding wait_ok_def s'(1,3,4)
  proof (intro conjI allI impI)
    fix t assume t: "t < thread_count s"
      and b: "thread_status (woken (blocked_thread (ports s ! p)) (threads s) ! t) = THREAD_BLOCKED"
    then have "thread_status (threads s ! t) = THREAD_BLOCKED" "blocked_thread (ports s ! p) \<noteq> Some t"
      using w(1) by (auto split: if_splits)
    with inv(2) t obtain q where "q < port_count s" "waiting_on_port (threads s ! t) = Some q" "blocked_thread (ports s ! q) = Some t"
      unfolding wait_ok_def by blast
    with \<open>blocked_thread (ports s ! p) \<noteq> Some t\<close>
    show "\<exists>q<port_count s. waiting_on_port (woken (blocked_thread (ports s ! p)) (threads s) ! t) = Some q \<and>
        blocked_thread (ports s' ! q) = Some t"
      using w(2)[of t] s'(2) by (intro exI[of _ q]) auto
  next
    fix q assume q: "port_count s \<le> q \<and> q < MAX_PORTS"
    then have "q \<noteq> p" using inv(3) by simp
    with q inv(2) s'(2,5) show "blocked_thread (ports s' ! q) = None" "queue s' q = []"
      by (simp_all add: wait_ok_def)
  qed
qed

lemma wait_ok_send:
  assumes "ipc_inv s" "wait_ok s" "p < port_count s"
  shows "wait_ok (snd (send (Some p) ident d0 d1 d2 d3 s))"
proof (cases "message_pool_next s < MAX_MESSAGES")
  case True
  have p: "p < MAX_PORTS" using ipc_invD(4)[OF assms(1)] assms(3) by simp
  have "port_count (snd (send (Some p) ident d0 d1 d2 d3 s)) = port_count s"
      "thread_count (snd (send (Some p) ident d0 d1 d2 d3 s)) = thread_count s"
    using p True ipc_invD(2,3)[OF assms(1)] by (simp_all add: send_eq)
  with send_threads[OF assms(1) p True] send_ok(4)[OF assms(1) p True] show ?thesis
    by (intro wait_ok_unblock[OF assms]) simp_all
qed (use assms in \<open>simp add: send_errors\<close>)

lemma wait_ok_destroy:
  assumes "ipc_inv s" "wait_ok s" "p < port_count s" "port_destroy (Some p) s = Some s'"
  shows "wait_ok s'"
proof -
  have p: "p < MAX_PORTS" using ipc_invD(4)[OF assms(1)] assms(3) by simp
  obtain s1 where d: "port_destroy (Some p) s = Some s1" "\<And>q. q < MAX_PORTS \<Longrightarrow> q \<noteq> p \<Longrightarrow> queue s1 q = queue s q"
    "s1 = s\<lparr>threads := woken (blocked_thread (ports s ! p)) (threads s), ports := (ports s)[p := empty_port]\<rparr>"
    using port_destroy_ok[OF assms(1) p] by metis
  with assms(4) have eq: "s' = s1" by simp
  have "p < length (ports s)" using ipc_invD(2)[OF assms(1)] p by simp
  then show ?thesis
    unfolding eq
    by (intro wait_ok_unblock[OF assms(1-3)] d(2)) (simp_all add: d(3) empty_port_def nth_list_update)
qed

lemma wait_ok_create:
  assumes "ipc_inv s" "wait_ok s"
  shows "wait_ok (snd (port_create s))"
proof (cases "port_count s < MAX_PORTS")
  case True
  let ?s = "s\<lparr>port_count := Suc (port_count s), ports := (ports s)[port_count s := empty_port]\<rparr>"
  obtain s1 where c: "port_create s = (Some (port_count s), s1)" "s1 = ?s"
    "\<And>q. q < MAX_PORTS \<Longrightarrow> q \<noteq> port_count s \<Longrightarrow> queue s1 q = queue s q"
    using port_create_ok[OF assms(1) True] by metis
  have len: "length (ports s) = MAX_PORTS" using ipc_invD(2)[OF assms(1)] .
  have "wait_ok s1"
    unfolding wait_ok_def
  proof (intro conjI allI impI)
    fix t assume "t < thread_count s1" "thread_status (threads s1 ! t) = THREAD_BLOCKED"
    then obtain q where q: "q < port_count s" "waiting_on_port (threads s ! t) = Some q" "blocked_thread (ports s ! q) = Some t"
      using assms(2) c(2) unfolding wait_ok_def by auto
    then show "\<exists>q<port_count s1. waiting_on_port (threads s1 ! t) = Some q \<and> blocked_thread (ports s1 ! q) = Some t"
      by (intro exI[of _ q]) (simp add: c(2))
  next
    fix q assume q: "port_count s1 \<le> q \<and> q < MAX_PORTS"
    with assms(2) show "blocked_thread (ports s1 ! q) = None" by (simp add: wait_ok_def c(2))
    from q assms(2) c(3)[of q] show "queue s1 q = []" by (simp add: wait_ok_def c(2))
  qed
  with c(1) show ?thesis by simp
qed (use assms in \<open>simp add: port_create_def\<close>)

lemma wait_ok_switched:
  assumes "wait_ok s" "switched s s'" "port_count s \<le> MAX_PORTS"
  shows "wait_ok s'"
  using switchedD[OF assms(2)] assms(3)
  by (intro wait_ok_cong[OF assms(1)]) (simp_all add: queue_def queue_idx_def)

lemma wait_ok_take:
  assumes "ipc_inv s" "wait_ok s" "p < port_count s" "take_message p s = Some (m, s')"
  shows "wait_ok s'"
proof -
  have p: "p < MAX_PORTS" using ipc_invD(4)[OF assms(1)] assms(3) by simp
  have "queue s p \<noteq> []" using take_message_empty[OF assms(1) p] assms(4) by auto
  then obtain m1 ms where "queue s p = m1 # ms" by (cases "queue s p") auto
  then obtain s1 where s1: "take_message p s = Some (m1, s1)" "\<And>q. q < MAX_PORTS \<Longrightarrow> q \<noteq> p \<Longrightarrow> queue s1 q = queue s q"
      "s1 = s\<lparr>ports := ports s1\<rparr>" "\<And>q. blocked_thread (ports s1 ! q) = blocked_thread (ports s ! q)"
    using take_message_ok[OF assms(1) p] by metis
  have f: "port_count s1 = port_count s" "thread_count s1 = thread_count s" "threads s1 = threads s"
    by (subst s1(3), simp)+
  have "wait_ok s1"
    using f s1(2,4) assms(3) ipc_invD(4)[OF assms(1)] by (intro wait_ok_cong[OF assms(2)]) auto
  with s1(1) assms(4) show ?thesis by simp
qed

lemma wait_ok_blocked_on:
  assumes "ipc_inv s" "wait_ok s" "p < port_count s" "current s = Some c" "blocked_thread (ports s ! p) = None"
  shows "wait_ok (blocked_on p c s)"
proof -
  have p: "p < MAX_PORTS" using ipc_invD(4)[OF assms(1)] assms(3) by simp
  have f: "port_count (blocked_on p c s) = port_count s" "thread_count (blocked_on p c s) = thread_count s"
    by (simp_all add: blocked_on_def)
  note th = blocked_on_threads[OF assms(1,4), of p] and bp = blocked_on_port[OF assms(1) p, of c]
  have len: "p < length (ports s)" using ipc_invD(2)[OF assms(1)] p by simp
  have q: "queue (blocked_on p c s) r = queue s r" for r
    using len by (cases "r = p") (simp_all add: queue_def queue_idx_def blocked_on_def)
  show ?thesis
    unfolding wait_ok_def f
  proof (intro conjI allI impI)
    fix t assume t: "t < thread_count s" and b: "thread_status (threads (blocked_on p c s) ! t) = THREAD_BLOCKED"
    show "\<exists>q<port_count s. waiting_on_port (threads (blocked_on p c s) ! t) = Some q \<and>
        blocked_thread (ports (blocked_on p c s) ! q) = Some t"
    proof (cases "t = c")
      case True
      then show ?thesis using th(2)[of c] bp[of p] assms(3) by (intro exI[of _ p]) simp
    next
      case False
      with b th(1)[of t] have "thread_status (threads s ! t) = THREAD_BLOCKED" by simp
      with assms(2) t obtain q where "q < port_count s" "waiting_on_port (threads s ! t) = Some q"
          "blocked_thread (ports s ! q) = Some t" unfolding wait_ok_def by blast
      with assms(5) False show ?thesis using th(2)[of t] bp[of q] by (intro exI[of _ q]) auto
    qed
  next
    fix r assume "port_count s \<le> r \<and> r < MAX_PORTS"
    with assms(2,3) show "blocked_thread (ports (blocked_on p c s) ! r) = None" "queue (blocked_on p c s) r = []"
      by (auto simp: wait_ok_def bp q)
  qed
qed

lemma recv_cases:
  assumes "ipc_inv s" "p < MAX_PORTS" "recv ra (Some p) msg_out s = Some (r, s')"
  obtains "s' = s" | m where "take_message p s = Some (m, s')"
    | c ctl where "current s = Some c" "blocked_thread (ports s ! p) = None" "queue s p = []"
      "thread_yield ra (blocked_on p c s) = Some (ctl, s')" "switched (blocked_on p c s) s'"
proof (cases "msg_out \<noteq> 0 \<and> queue s p = [] \<and> (\<exists>c. current s = Some c) \<and> blocked_thread (ports s ! p) = None")
  case True
  then obtain c where c: "current s = Some c" by blast
  obtain ctl s1 where "thread_yield ra (blocked_on p c s) = Some (ctl, s1)" "switched (blocked_on p c s) s1"
      "recv ra (Some p) msg_out s = Some (case ctl of Resumes rip \<Rightarrow> RecvSwitched rip | Returns \<Rightarrow> RecvDone (- 4) None, s1)"
    using recv_blocks[OF assms(1,2) _ _ c, of msg_out ra] True by metis
  with assms(3) True c that(3) show thesis by auto
next
  case False
  show thesis
  proof (cases "take_message p s")
    case None
    have "queue s p = []"
    proof (cases "queue s p")
      case (Cons m ms)
      then show ?thesis using take_message_ok[OF assms(1,2) Cons] None by (metis option.distinct(1))
    qed simp
    with False None assms(3) that(1) show thesis by (auto simp: recv_def split: if_splits option.splits)
  next
    case (Some x)
    with assms(3) that(1,2) show thesis by (cases x) (auto simp: recv_def split: if_splits)
  qed
qed

lemma take_message_same:
  assumes "take_message p s = Some (m, s')"
  shows "port_count s' = port_count s" "current s' = current s" "threads s' = threads s" "thread_count s' = thread_count s"
  using assms by (auto simp: take_message_def set_port_def message_free_def Let_def split: option.splits)

lemma wait_ok_recv:
  assumes "ipc_inv s" "wait_ok s" "p < port_count s" "recv ra (Some p) msg_out s = Some (r, s')"
  shows "wait_ok s' \<and> port_count s' = port_count s"
proof -
  have p: "p < MAX_PORTS" using ipc_invD(4)[OF assms(1)] assms(3) by simp
  show ?thesis
  proof (rule recv_cases[OF assms(1) p assms(4)])
    fix c ctl
    assume c: "current s = Some c" "blocked_thread (ports s ! p) = None" and sw: "switched (blocked_on p c s) s'"
    have "port_count (blocked_on p c s) = port_count s" by (simp add: blocked_on_def)
    with wait_ok_switched[OF wait_ok_blocked_on[OF assms(1-3) c] sw] switchedD(4)[OF sw] ipc_invD(4)[OF assms(1)]
    show ?thesis by simp
  qed (use assms wait_ok_take[OF assms(1-3)] take_message_same in auto)
qed

text \<open>
  C31. Identifiers of ports that do not exist yet are accepted. A thread that receives on the
  next free slot blocks there; creating the port afterwards clears the registration, so the
  thread stays blocked on a port that does not know it.
\<close>

theorem port_create_strands_receiver:
  assumes "ipc_inv s" "port_count s < MAX_PORTS" "msg_out \<noteq> 0" "queue s (port_count s) = []" "current s = Some c"
    "blocked_thread (ports s ! port_count s) = None" "i < thread_count s" "i \<noteq> c" "runnable (threads s) i"
  shows "\<exists>rip s1 s2. port_from_id (of_nat (port_count s) + 1) = Some (port_count s) \<and>
    recv ra (Some (port_count s)) msg_out s = Some (RecvSwitched rip, s1) \<and>
    port_create s1 = (Some (port_count s), s2) \<and> thread_status (threads s2 ! c) = THREAD_BLOCKED \<and>
    waiting_on_port (threads s2 ! c) = Some (port_count s) \<and> blocked_thread (ports s2 ! port_count s) = None \<and> \<not> wait_ok s2"
proof -
  let ?p = "port_count s"
  let ?b = "blocked_on ?p c s"
  obtain ctl s1 where s1: "switched ?b s1" "ipc_inv s1"
      "recv ra (Some ?p) msg_out s = Some (case ctl of Resumes rip \<Rightarrow> RecvSwitched rip | Returns \<Rightarrow> RecvDone (- 4) None, s1)"
      "ctl = Returns \<longleftrightarrow> next_in_order (threads ?b) (thread_count s) c \<in> {None, Some c}"
    by (rule recv_blocks[OF assms(1-6)])
  have c: "c < thread_count s" using thread_invD(4)[OF ipc_invD(1)[OF assms(1)]] assms(5) by simp
  note st = blocked_on_threads[OF assms(1,5), of ?p]
  have "runnable (threads ?b) i" "\<not> runnable (threads ?b) c" using assms(8,9) st(1) by (simp_all add: runnable_def)
  with next_in_order_None[OF c] assms(7) obtain j where j: "next_in_order (threads ?b) (thread_count s) c = Some j"
    by (cases "next_in_order (threads ?b) (thread_count s) c") auto
  have "j \<noteq> c" using next_in_order_cases[OF j c] \<open>\<not> runnable (threads ?b) c\<close> by blast
  with j s1(3,4) obtain rip where r: "recv ra (Some ?p) msg_out s = Some (RecvSwitched rip, s1)"
    by (cases ctl) auto
  have n: "port_count s1 = ?p" "thread_count s1 = thread_count s"
    using switchedD(4,5)[OF s1(1)] by (simp_all add: blocked_on_def)
  let ?s2 = "s1\<lparr>port_count := Suc ?p, ports := (ports s1)[?p := empty_port]\<rparr>"
  have create: "port_create s1 = (Some ?p, ?s2)"
    using assms(2) n by (simp add: port_create_def set_port_def Let_def)
  have th: "thread_status (threads ?s2 ! c) = THREAD_BLOCKED" "waiting_on_port (threads ?s2 ! c) = Some ?p"
    using switchedD(9,10)[OF s1(1), of c] st by simp_all
  have none: "blocked_thread (ports ?s2 ! ?p) = None"
    using ipc_invD(2)[OF s1(2)] assms(2) by (simp add: empty_port_def)
  have "\<not> wait_ok ?s2"
  proof
    assume "wait_ok ?s2"
    with c n(2) th(1) obtain q where "waiting_on_port (threads ?s2 ! c) = Some q" "blocked_thread (ports ?s2 ! q) = Some c"
      unfolding wait_ok_def by auto
    with th(2) none show False by simp
  qed
  moreover have "port_from_id (of_nat ?p + 1) = Some ?p"
  proof -
    have "unat (of_nat ?p + 1 :: u32) = Suc ?p" using assms(2) by (simp add: MAX_PORTS_def unat_of_nat unat_word_ariths)
    then have "of_nat ?p + 1 \<noteq> (0 :: u32)" "\<not> of_nat MAX_PORTS < (of_nat ?p + 1 :: u32)"
      using assms(2) by (auto simp: MAX_PORTS_def word_less_nat_alt)
    then show ?thesis using assms(2) by (simp add: port_from_id_def MAX_PORTS_def unat_of_nat)
  qed
  ultimately show ?thesis using r create th none by blast
qed

section \<open>Initial states and concrete inputs\<close>

lemma follow_None [simp]: "follow n pool None = []"
  by (cases n) simp_all

lemma ipc_inv_no_messages:
  assumes "thread_inv s" "ports s = replicate MAX_PORTS empty_port" "length (message_pool s) = MAX_MESSAGES"
    "port_count s \<le> MAX_PORTS" "message_pool_next s \<le> MAX_MESSAGES"
  shows "ipc_inv s" "queue s p = [] \<or> p \<ge> MAX_PORTS"
  using assms by (auto simp: ipc_inv_def queue_at_def queue_idx_def queue_def empty_port_def)

lemma thread_init_ports:
  assumes "length (ports s) = MAX_PORTS"
  shows "ports (thread_init s) = replicate MAX_PORTS empty_port"
proof -
  have "map (\<lambda>p. p\<lparr>queue_head := None, queue_tail := None, message_count := 0, blocked_thread := None\<rparr>) xs =
      replicate (length xs) empty_port" for xs :: "Port list"
    by (induction xs) (simp_all add: empty_port_def)
  with assms show ?thesis by (simp add: thread_init_def)
qed

lemma thread_init_ipc:
  assumes "length (threads s) = MAX_THREADS" "length (ports s) = MAX_PORTS" "length (message_pool s) = MAX_MESSAGES"
  shows "ipc_inv (thread_init s)" "wait_ok (thread_init s)"
proof -
  note p = thread_init_ports[OF assms(2)]
  have "thread_inv (thread_init s)" using assms(1) by (simp add: thread_inv_def thread_init_def ring_def)
  then show "ipc_inv (thread_init s)"
    by (rule ipc_inv_no_messages(1)[OF _ p]) (use assms in \<open>simp_all add: thread_init_def\<close>)
  show "wait_ok (thread_init s)"
    by (simp add: wait_ok_def p queue_def queue_idx_def) (simp add: thread_init_def empty_port_def)
qed

lemma example_fields:
  "ports example_threads = replicate 16 empty_port" "message_pool_next example_threads = 0" "port_count example_threads = 0"
  "length (message_pool example_threads) = 64" "thread_count example_threads = 2" "current example_threads = Some 0"
  "runnable (threads example_threads) 1"
  by (simp_all add: example_threads_def bss_threads_def vmm_state.defs runnable_def bss_thread_def)

lemma example_ipc: "ipc_inv example_threads" "p < 16 \<Longrightarrow> queue example_threads p = []" "p < 16 \<Longrightarrow> blocked_thread (ports example_threads ! p) = None"
  using ipc_inv_no_messages(1)[of example_threads] ipc_inv_no_messages(2)[of example_threads p] sched_invD(1)[OF example_threads_inv]
  by (auto simp: example_fields MAX_PORTS_def MAX_MESSAGES_def empty_port_def)

theorem ports_fifo_witness:
  "\<exists>sent rcvd s'. run_ops port_put port_get [Put 2 (7, [1, 2, 3, 4]), Get (RecvCall 0 1) 2] example_threads = (sent, rcvd, s') \<and>
     msgs_on 2 sent = msgs_on 2 rcvd @ queue s' 2"
proof -
  obtain sent rcvd s' where r: "run_ops port_put port_get [Put 2 (7, [1, 2, 3, 4]), Get (RecvCall 0 1) 2] example_threads = (sent, rcvd, s')"
    by (metis prod_cases3)
  have "\<forall>op\<in>set [Put 2 (7 :: u32, [1, 2, 3, 4 :: u32]), Get (RecvCall 0 1) 2]. op_port op < MAX_PORTS" by (simp add: MAX_PORTS_def)
  from ports_fifo[OF example_ipc(1) this r] have "queue example_threads 2 @ msgs_on 2 sent = msgs_on 2 rcvd @ queue s' 2"
    by (simp add: MAX_PORTS_def)
  with r show ?thesis by (auto simp: example_ipc)
qed

theorem port_id_roundtrip_witness: "port_from_id (port_to_id (Some 15)) = Some 15"
  using port_id_roundtrip[of 0 15] by (simp add: MAX_PORTS_def)

theorem message_pool_only_shrinks_witness:
  "\<exists>sent rcvd s'. run_ops port_put port_get [Put 2 (7, [1, 2, 3, 4]), Get RecvResume 2] example_threads = (sent, rcvd, s') \<and>
     message_pool_next s' = length sent \<and> length sent \<le> 64"
proof -
  obtain sent rcvd s' where r: "run_ops port_put port_get [Put 2 (7, [1, 2, 3, 4]), Get RecvResume 2] example_threads = (sent, rcvd, s')"
    by (metis prod_cases3)
  have "\<forall>op\<in>set [Put 2 (7 :: u32, [1, 2, 3, 4 :: u32]), Get RecvResume 2]. op_port op < MAX_PORTS" by (simp add: MAX_PORTS_def)
  from message_pool_only_shrinks[OF example_ipc(1) this r] r show ?thesis
    by (auto simp: example_fields MAX_MESSAGES_def)
qed


theorem recv_alone_returns_blocked_witness:
  "\<exists>s'. recv 0x5000 (Some 3) 0x7000 (example_threads\<lparr>thread_count := 1, threads := (threads example_threads)[0 := bss_thread\<lparr>thread_next := Some 0\<rparr>]\<rparr>)
       = Some (RecvDone (- 4) None, s') \<and> thread_status (threads s' ! 0) = THREAD_BLOCKED"
proof -
  let ?s = "example_threads\<lparr>thread_count := 1, threads := (threads example_threads)[0 := bss_thread\<lparr>thread_next := Some 0\<rparr>]\<rparr>"
  have "thread_inv ?s" by (simp add: thread_inv_def ring_def example_threads_def MAX_THREADS_def)
  then have "ipc_inv ?s" "queue ?s 3 = []"
    using ipc_inv_no_messages(1)[of ?s] ipc_inv_no_messages(2)[of ?s 3] by (simp_all add: example_fields MAX_PORTS_def MAX_MESSAGES_def)
  then show ?thesis
    using recv_alone_returns_blocked[of ?s 3 "0x7000" 0 "0x5000"]
    by (auto simp: example_fields MAX_PORTS_def empty_port_def)
qed

theorem port_create_strands_receiver_witness:
  "\<exists>rip s1 s2. recv 0x5000 (Some 0) 0x7000 example_threads = Some (RecvSwitched rip, s1) \<and>
     port_create s1 = (Some 0, s2) \<and> \<not> wait_ok s2"
  using port_create_strands_receiver[of example_threads "0x7000" 0 1 "0x5000"]
  by (auto simp: example_fields example_fields(7)[simplified] example_ipc MAX_PORTS_def empty_port_def)

end
