(* ===== verification/Syscall.thy ===== *)
theory Syscall
  imports Ipc
begin

text \<open>
  System calls (\<^verbatim>\<open>syscall.c\<close>, \<^verbatim>\<open>syscall.h\<close>, \<^verbatim>\<open>syscall_asm.asm\<close>): the path of the arguments
  from the user's registers to the handler, the handler with every case, and the system as
  a whole, a step relation in which the running thread enters the kernel and threads that
  were switched away inside a call go on where they stopped.

  What the processor does when the kernel goes through a user pointer is a parameter, an
  \<open>mmu\<close>; \<open>paging_mmu\<close> is the one that walks the page tables of the current address space.
  A pointer to an unmapped page faults, and the exception handler stops the machine.
\<close>

unbundle bit_operations_syntax

section \<open>Registration\<close>

definition SYSCALL_VECTOR :: u8 where "SYSCALL_VECTOR = 0x80"

definition SYS_SEND :: u64 where "SYS_SEND = 1"
definition SYS_RECV :: u64 where "SYS_RECV = 2"
definition SYS_THREAD_EXIT :: u64 where "SYS_THREAD_EXIT = 3"
definition SYS_THREAD_YIELD :: u64 where "SYS_THREAD_YIELD = 4"
definition SYS_PORT_CREATE :: u64 where "SYS_PORT_CREATE = 5"
definition SYS_PORT_DESTROY :: u64 where "SYS_PORT_DESTROY = 6"
definition SYS_MAP_MEMORY :: u64 where "SYS_MAP_MEMORY = 7"
definition SYS_UNMAP_MEMORY :: u64 where "SYS_UNMAP_MEMORY = 8"
definition SYS_DEBUG_PRINT :: u64 where "SYS_DEBUG_PRINT = 9"

definition syscall_init :: "image \<Rightarrow> 'z idt_state_scheme \<Rightarrow> 'z idt_state_scheme" where
  "syscall_init img s =
     serial_print ''Syscalls: Registered interrupt 0x80 for syscalls\<newline>''
       (idt_set_gate SYSCALL_VECTOR (syscall_entry_asm img) 0x08 IDT_TYPE_USER_INTERRUPT s)"

section \<open>Arguments\<close>

text \<open>The registers at the \<^verbatim>\<open>int\<close> instruction, and what is on top of the kernel stack.\<close>

record sys_regs =
  r_rax :: u64
  r_rdi :: u64
  r_rsi :: u64
  r_rdx :: u64
  r_rcx :: u64
  r_r8 :: u64
  r_r9 :: u64
  r_r10 :: u64
  r_rsp :: u64
  r_top :: u64

definition syscall6 :: "u64 \<Rightarrow> u64 \<Rightarrow> u64 \<Rightarrow> u64 \<Rightarrow> u64 \<Rightarrow> u64 \<Rightarrow> u64 \<Rightarrow> sys_regs \<Rightarrow> sys_regs" where
  "syscall6 num arg1 arg2 arg3 arg4 arg5 arg6 r =
     r\<lparr>r_r10 := arg4, r_r8 := arg5, r_r9 := arg6, r_rax := num, r_rdi := arg1, r_rsi := arg2, r_rdx := arg3\<rparr>"

definition syscall0 :: "u64 \<Rightarrow> sys_regs \<Rightarrow> sys_regs" where
  "syscall0 num r = r\<lparr>r_rax := num\<rparr>"

definition syscall1 :: "u64 \<Rightarrow> u64 \<Rightarrow> sys_regs \<Rightarrow> sys_regs" where
  "syscall1 num arg1 r = r\<lparr>r_rax := num, r_rdi := arg1\<rparr>"

definition syscall2 :: "u64 \<Rightarrow> u64 \<Rightarrow> u64 \<Rightarrow> sys_regs \<Rightarrow> sys_regs" where
  "syscall2 num arg1 arg2 r = r\<lparr>r_rax := num, r_rdi := arg1, r_rsi := arg2\<rparr>"

text \<open>
  The interrupt aligns the stack that the TSS names and pushes five words; the entry code
  pushes six registers and the sixth argument and moves the others to where the C calling
  convention wants them.
\<close>

definition syscall_entry :: "u64 \<Rightarrow> sys_regs \<Rightarrow> sys_regs" where
  "syscall_entry ktop r =
     (let r1 = r\<lparr>r_rsp := (ktop AND NOT 0xF) - 5 * 8 - 6 * 8\<rparr>;
          r2 = r1\<lparr>r_rsp := r_rsp r1 - 8, r_top := r_r9 r1\<rparr>;
          r3 = r2\<lparr>r_r9 := r_r8 r2\<rparr>;
          r4 = r3\<lparr>r_r8 := r_r10 r3\<rparr>;
          r5 = r4\<lparr>r_rcx := r_rdx r4\<rparr>;
          r6 = r5\<lparr>r_rdx := r_rsi r5\<rparr>;
          r7 = r6\<lparr>r_rsi := r_rdi r6\<rparr>
      in r7\<lparr>r_rdi := r_rax r7\<rparr>)"

text \<open>The arguments of a C function of seven integers, at the call.\<close>

definition c_args :: "sys_regs \<Rightarrow> u64 \<times> u64 \<times> u64 \<times> u64 \<times> u64 \<times> u64 \<times> u64" where
  "c_args r = (r_rdi r, r_rsi r, r_rdx r, r_rcx r, r_r8 r, r_r9 r, r_top r)"

section \<open>The handler\<close>

record mmu =
  mmu_str :: "memory \<Rightarrow> u64 \<Rightarrow> u64 \<Rightarrow> string option"
  mmu_store :: "memory \<Rightarrow> u64 \<Rightarrow> u64 \<Rightarrow> u8 list \<Rightarrow> memory option"

partial_function (option) paged_string :: "memory \<Rightarrow> u64 \<Rightarrow> u64 \<Rightarrow> string option" where
  "paged_string m root a =
     (case translate m root a of
        None \<Rightarrow> None
      | Some pa \<Rightarrow>
          if m pa = 0 then Some []
          else Option.bind (paged_string m root (a + 1)) (\<lambda>cs. Some (char_of (unat (m pa)) # cs)))"

primrec paged_store :: "memory \<Rightarrow> u64 \<Rightarrow> u64 \<Rightarrow> u8 list \<Rightarrow> memory option" where
  "paged_store m root a [] = Some m"
| "paged_store m root a (b # bs) =
     (case translate m root a of None \<Rightarrow> None | Some pa \<Rightarrow> paged_store (m(pa := b)) root (a + 1) bs)"

definition paging_mmu :: mmu where
  "paging_mmu = \<lparr>mmu_str = (\<lambda>m cr3. paged_string m (entry_to_phys cr3)), mmu_store = (\<lambda>m cr3. paged_store m (entry_to_phys cr3))\<rparr>"

text \<open>What a thread has left to do when it is switched away inside a call.\<close>

datatype pending = PendRecv nat u64 | PendYield | PendExit

datatype sys_result = SysReturn int | SysSwitch u64 pending | SysHalt | SysFault

definition message_bytes :: "content \<Rightarrow> u8 list" where
  "message_bytes m = bytes_le 4 (fst m) @ concat (map (bytes_le 4) (snd m))"

text \<open>The end of \<open>recv\<close> in the handler: the assignments to \<^verbatim>\<open>*msg_out\<close>.\<close>

definition copy_out :: "mmu \<Rightarrow> u64 \<Rightarrow> recv_result \<Rightarrow> nat \<Rightarrow> 'z thread_state_scheme \<Rightarrow> sys_result \<times> 'z thread_state_scheme" where
  "copy_out mm msg_out r p s =
     (case r of
        RecvSwitched rip \<Rightarrow> (SysSwitch rip (PendRecv p msg_out), s)
      | RecvDone code None \<Rightarrow> (SysReturn code, s)
      | RecvDone code (Some m) \<Rightarrow>
          (case mmu_store mm (phys_mem s) (cr3_reg s) msg_out (message_bytes m) of
             None \<Rightarrow> (SysFault, s)
           | Some mem \<Rightarrow> (SysReturn code, s\<lparr>phys_mem := mem\<rparr>)))"

definition yield_in :: "u64 \<Rightarrow> pending \<Rightarrow> sys_result \<Rightarrow> 'z thread_state_scheme \<Rightarrow> (sys_result \<times> 'z thread_state_scheme) option" where
  "yield_in ra pend ret s =
     (case thread_yield ra s of
        None \<Rightarrow> None
      | Some (Returns, s') \<Rightarrow> Some (ret, s')
      | Some (Resumes rip, s') \<Rightarrow> Some (SysSwitch rip pend, s'))"

definition syscall_handler ::
    "mmu \<Rightarrow> u64 \<Rightarrow> u64 \<times> u64 \<times> u64 \<times> u64 \<times> u64 \<times> u64 \<times> u64 \<Rightarrow> 'z thread_state_scheme
     \<Rightarrow> (sys_result \<times> 'z thread_state_scheme) option" where
  "syscall_handler mm ra args s =
     (case args of (num, arg1, arg2, arg3, arg4, arg5, arg6) \<Rightarrow>
      if num = SYS_SEND then
        (case port_from_id (ucast arg1) of
           None \<Rightarrow> Some (SysReturn (- 1), s)
         | Some p \<Rightarrow> Some (map_prod SysReturn id (send (Some p) (ucast arg2) (ucast arg3) (ucast arg4) (ucast arg5) (ucast arg6) s)))
      else if num = SYS_RECV then
        (case port_from_id (ucast arg1) of
           None \<Rightarrow> Some (SysReturn (- 1), s)
         | Some p \<Rightarrow> map_option (\<lambda>(r, s'). copy_out mm arg2 r p s') (recv ra (Some p) arg2 s))
      else if num = SYS_THREAD_EXIT then
        (let s1 = serial_print ''\<newline>'' (serial_print_hex arg1 (serial_print ''Thread exiting with code: '' s));
             s2 = (case thread_current s1 of None \<Rightarrow> s1
                   | Some c \<Rightarrow> set_thread c ((threads s1 ! c)\<lparr>thread_status := THREAD_DEAD\<rparr>) s1)
         in yield_in ra PendExit SysHalt s2)
      else if num = SYS_THREAD_YIELD then yield_in ra PendYield (SysReturn 0) s
      else if num = SYS_PORT_CREATE then
        (case port_create s of
           (None, s1) \<Rightarrow> Some (SysReturn (- 1), s1)
         | (Some p, s1) \<Rightarrow> Some (SysReturn (uint (port_to_id (Some p))), s1))
      else if num = SYS_PORT_DESTROY then
        (case port_from_id (ucast arg1) of
           None \<Rightarrow> Some (SysReturn (- 1), s)
         | Some p \<Rightarrow> map_option (\<lambda>s'. (SysReturn 0, s')) (port_destroy (Some p) s))
      else if num = SYS_DEBUG_PRINT then
        (let s1 = serial_print ''[USER] '' s in
         case mmu_str mm (phys_mem s1) (cr3_reg s1) arg1 of
           None \<Rightarrow> Some (SysFault, s1)
         | Some str \<Rightarrow> Some (SysReturn 0, serial_print str s1))
      else
        Some (SysReturn (- 1), serial_print ''\<newline>'' (serial_print_hex num (serial_print ''Unknown syscall: '' s))))"

definition syscall_resume :: "mmu \<Rightarrow> pending \<Rightarrow> 'z thread_state_scheme \<Rightarrow> sys_result \<times> 'z thread_state_scheme" where
  "syscall_resume mm pend s =
     (case pend of
        PendRecv p msg_out \<Rightarrow> (case recv_resume p s of (r, s') \<Rightarrow> copy_out mm msg_out r p s')
      | PendYield \<Rightarrow> (SysReturn 0, s)
      | PendExit \<Rightarrow> (SysHalt, s))"

section \<open>Every call ends and keeps the invariant\<close>

lemmas sys_numbers = SYS_SEND_def SYS_RECV_def SYS_THREAD_EXIT_def SYS_THREAD_YIELD_def SYS_PORT_CREATE_def
  SYS_PORT_DESTROY_def SYS_MAP_MEMORY_def SYS_UNMAP_MEMORY_def SYS_DEBUG_PRINT_def

lemma not_yield:
  "SYS_SEND \<noteq> SYS_THREAD_YIELD" "SYS_RECV \<noteq> SYS_THREAD_YIELD" "SYS_PORT_CREATE \<noteq> SYS_THREAD_YIELD"
  "SYS_PORT_DESTROY \<noteq> SYS_THREAD_YIELD" "SYS_DEBUG_PRINT \<noteq> SYS_THREAD_YIELD"
  by (simp_all add: sys_numbers)

lemma port_from_id_less: "port_from_id ident = Some p \<Longrightarrow> p < MAX_PORTS"
proof -
  assume "port_from_id ident = Some p"
  then have "ident \<noteq> 0" "\<not> of_nat MAX_PORTS < ident" "p = unat (ident - 1)" by (auto simp: port_from_id_def split: if_splits)
  then have "0 < unat ident" "unat ident \<le> 16" by (auto simp: MAX_PORTS_def word_less_nat_alt unat_gt_0)
  moreover have "unat (ident - 1) = unat ident - 1"
    using calculation unat_sub[of 1 ident] by (simp add: word_le_nat_alt)
  ultimately show ?thesis using \<open>p = unat (ident - 1)\<close> by (simp add: MAX_PORTS_def)
qed

lemma ipc_inv_frame:
  assumes "ipc_inv s" "threads s' = threads s" "thread_count s' = thread_count s" "thread_list s' = thread_list s"
    "current s' = current s" "ports s' = ports s" "message_pool s' = message_pool s"
    "message_pool_next s' = message_pool_next s" "port_count s' = port_count s"
  shows "ipc_inv s'"
  by (rule ipc_inv_cong(1)[OF assms(1) thread_inv_frame[OF ipc_invD(1)[OF assms(1)]]]) (use assms in simp_all)

lemma ipc_inv_copy_out:
  assumes "ipc_inv s" "copy_out mm out r p s = (x, s')"
  shows "ipc_inv s'"
proof -
  have "ipc_inv (s\<lparr>phys_mem := m\<rparr>)" for m by (rule ipc_inv_frame[OF assms(1)]) simp_all
  with assms show ?thesis by (auto simp: copy_out_def split: recv_result.splits option.splits)
qed

lemma copy_out_frame:
  assumes "copy_out mm out r p s = (x, s')"
  shows "s' = s\<lparr>phys_mem := phys_mem s'\<rparr>"
  using assms by (auto simp: copy_out_def split: recv_result.splits option.splits)

lemma yield_in_total:
  assumes "thread_inv s"
  obtains r s' where "yield_in ra pend ret s = Some (r, s')" "thread_inv s'" "switched s s'"
    "current s' = (case current s of None \<Rightarrow> None
       | Some c \<Rightarrow> case next_in_order (threads s) (thread_count s) c of None \<Rightarrow> Some c | Some i \<Rightarrow> Some i)"
    "r = ret \<or> (\<exists>rip. r = SysSwitch rip pend)"
proof -
  obtain ctl s' where y: "thread_yield ra s = Some (ctl, s')" "thread_inv s'" "switched s s'"
    "current s' = (case current s of None \<Rightarrow> None
       | Some c \<Rightarrow> case next_in_order (threads s) (thread_count s) c of None \<Rightarrow> Some c | Some i \<Rightarrow> Some i)"
    by (rule thread_yield_total[OF assms, of ra])
  show thesis
  proof (cases ctl)
    case Returns
    with y that[of ret s'] show thesis by (simp add: yield_in_def)
  next
    case (Resumes rip)
    with y that[of "SysSwitch rip pend" s'] show thesis by (simp add: yield_in_def)
  qed
qed

lemma ipc_inv_switched: "ipc_inv s \<Longrightarrow> thread_inv s' \<Longrightarrow> switched s s' \<Longrightarrow> ipc_inv s'"
  using ipc_inv_cong(1)[of s s'] switchedD[of s s'] by simp

text \<open>The state in which a call to \<^verbatim>\<open>SYS_THREAD_EXIT\<close> yields.\<close>

definition exiting :: "u64 \<Rightarrow> 'z thread_state_scheme \<Rightarrow> 'z thread_state_scheme" where
  "exiting code s =
     (let s1 = serial_print ''\<newline>'' (serial_print_hex code (serial_print ''Thread exiting with code: '' s))
      in case thread_current s1 of None \<Rightarrow> s1
         | Some c \<Rightarrow> set_thread c ((threads s1 ! c)\<lparr>thread_status := THREAD_DEAD\<rparr>) s1)"

lemma exiting_fields:
  "threads (exiting code s) = (case current s of None \<Rightarrow> threads s
     | Some c \<Rightarrow> (threads s)[c := (threads s ! c)\<lparr>thread_status := THREAD_DEAD\<rparr>])"
  "thread_count (exiting code s) = thread_count s" "thread_list (exiting code s) = thread_list s"
  "current (exiting code s) = current s" "ports (exiting code s) = ports s"
  "message_pool (exiting code s) = message_pool s" "message_pool_next (exiting code s) = message_pool_next s"
  "port_count (exiting code s) = port_count s"
  by (simp_all add: exiting_def thread_current_def set_thread_def serial_print_hex_def Let_def split: option.split)

lemma ipc_inv_exiting:
  assumes "ipc_inv s"
  shows "ipc_inv (exiting code s)"
proof -
  have "thread_inv (exiting code s)"
  proof (cases "current s")
    case None
    then show ?thesis by (intro thread_inv_frame[OF ipc_invD(1)[OF assms]]) (simp_all add: exiting_fields)
  next
    case (Some c)
    then show ?thesis
      by (intro thread_inv_update[OF ipc_invD(1)[OF assms], of _ c "(threads s ! c)\<lparr>thread_status := THREAD_DEAD\<rparr>"])
         (simp_all add: exiting_fields)
  qed
  then show ?thesis by (intro ipc_inv_cong(1)[OF assms]) (simp_all add: exiting_fields)
qed

lemma syscall_handler_simps:
  "syscall_handler mm ra (SYS_SEND, a1, a2, a3, a4, a5, a6) s =
     (case port_from_id (ucast a1) of None \<Rightarrow> Some (SysReturn (- 1), s)
      | Some p \<Rightarrow> Some (map_prod SysReturn id (send (Some p) (ucast a2) (ucast a3) (ucast a4) (ucast a5) (ucast a6) s)))"
  "syscall_handler mm ra (SYS_RECV, a1, a2, a3, a4, a5, a6) s =
     (case port_from_id (ucast a1) of None \<Rightarrow> Some (SysReturn (- 1), s)
      | Some p \<Rightarrow> map_option (\<lambda>(r, s'). copy_out mm a2 r p s') (recv ra (Some p) a2 s))"
  "syscall_handler mm ra (SYS_THREAD_EXIT, a1, a2, a3, a4, a5, a6) s = yield_in ra PendExit SysHalt (exiting a1 s)"
  "syscall_handler mm ra (SYS_THREAD_YIELD, a1, a2, a3, a4, a5, a6) s = yield_in ra PendYield (SysReturn 0) s"
  "syscall_handler mm ra (SYS_PORT_CREATE, a1, a2, a3, a4, a5, a6) s =
     (case port_create s of (None, s1) \<Rightarrow> Some (SysReturn (- 1), s1)
      | (Some p, s1) \<Rightarrow> Some (SysReturn (uint (port_to_id (Some p))), s1))"
  "syscall_handler mm ra (SYS_PORT_DESTROY, a1, a2, a3, a4, a5, a6) s =
     (case port_from_id (ucast a1) of None \<Rightarrow> Some (SysReturn (- 1), s)
      | Some p \<Rightarrow> map_option (\<lambda>s'. (SysReturn 0, s')) (port_destroy (Some p) s))"
  "syscall_handler mm ra (SYS_DEBUG_PRINT, a1, a2, a3, a4, a5, a6) s =
     (case mmu_str mm (phys_mem s) (cr3_reg s) a1 of None \<Rightarrow> Some (SysFault, serial_print ''[USER] '' s)
      | Some str \<Rightarrow> Some (SysReturn 0, serial_print str (serial_print ''[USER] '' s)))"
  by (simp_all add: syscall_handler_def sys_numbers exiting_def Let_def split: option.split)

lemma syscall_handler_unknown:
  assumes "num \<notin> {SYS_SEND, SYS_RECV, SYS_THREAD_EXIT, SYS_THREAD_YIELD, SYS_PORT_CREATE, SYS_PORT_DESTROY, SYS_DEBUG_PRINT}"
  shows "syscall_handler mm ra (num, a1, a2, a3, a4, a5, a6) s =
    Some (SysReturn (- 1), serial_print ''\<newline>'' (serial_print_hex num (serial_print ''Unknown syscall: '' s)))"
  using assms by (simp add: syscall_handler_def)

text \<open>Calls that change neither threads nor ports.\<close>

lemma ipc_inv_console: "ipc_inv s \<Longrightarrow> ipc_inv (s\<lparr>console := x\<rparr>)"
  by (rule ipc_inv_frame) simp_all

definition pend_ok :: "pending \<Rightarrow> bool" where
  "pend_ok pd = (case pd of PendRecv p out \<Rightarrow> p < MAX_PORTS | _ \<Rightarrow> True)"

lemma handler_recv:
  assumes "ipc_inv s" "p < MAX_PORTS"
  obtains r s' where "map_option (\<lambda>(r, s'). copy_out mm out r p s') (recv ra (Some p) out s) = Some (r, s')"
    "ipc_inv s'" "\<forall>rip pd. r = SysSwitch rip pd \<longrightarrow> pend_ok pd"
proof -
  obtain r1 s1 where r1: "recv ra (Some p) out s = Some (r1, s1)" "ipc_inv s1"
    using recv_ok[OF assms, of ra out] by metis
  obtain r s' where c: "copy_out mm out r1 p s1 = (r, s')" by (cases "copy_out mm out r1 p s1")
  have "\<forall>rip pd. r = SysSwitch rip pd \<longrightarrow> pend_ok pd"
    using c assms(2) by (auto simp: copy_out_def pend_ok_def split: recv_result.splits option.splits)
  with r1 c ipc_inv_copy_out[OF r1(2) c] that show thesis by simp
qed

lemma syscall_handler_ok:
  assumes inv: "ipc_inv s"
  obtains r s' where "syscall_handler mm ra args s = Some (r, s')" "ipc_inv s'" "\<forall>rip pd. r = SysSwitch rip pd \<longrightarrow> pend_ok pd"
proof -
  obtain num a1 a2 a3 a4 a5 a6 where args: "args = (num, a1, a2, a3, a4, a5, a6)" by (cases args)
  note that' = that[unfolded args]
  consider "num = SYS_SEND" | "num = SYS_RECV" | "num = SYS_THREAD_EXIT" | "num = SYS_THREAD_YIELD" | "num = SYS_PORT_CREATE"
    | "num = SYS_PORT_DESTROY" | "num = SYS_DEBUG_PRINT"
    | "num \<notin> {SYS_SEND, SYS_RECV, SYS_THREAD_EXIT, SYS_THREAD_YIELD, SYS_PORT_CREATE, SYS_PORT_DESTROY, SYS_DEBUG_PRINT}"
    by blast
  then show thesis
  proof cases
    case 1
    show thesis
    proof (cases "port_from_id (ucast a1)")
      case (Some p)
      let ?r = "send (Some p) (ucast a2) (ucast a3) (ucast a4) (ucast a5) (ucast a6) s"
      have "ipc_inv (snd ?r)"
        using send_ok(2)[OF inv port_from_id_less[OF Some]] send_errors(2)[of s p] inv by (metis not_le snd_conv)
      with 1 Some show thesis
        by (intro that'[of "SysReturn (fst ?r)" "snd ?r"]) (simp_all add: syscall_handler_simps map_prod_def case_prod_unfold)
    qed (intro that'[of "SysReturn (- 1)" s]; use 1 inv in \<open>simp add: syscall_handler_simps\<close>)
  next
    case 2
    show thesis
    proof (cases "port_from_id (ucast a1)")
      case (Some p)
      obtain r s' where "map_option (\<lambda>(r, s'). copy_out mm a2 r p s') (recv ra (Some p) a2 s) = Some (r, s')"
        "ipc_inv s'" "\<forall>rip pd. r = SysSwitch rip pd \<longrightarrow> pend_ok pd"
        by (rule handler_recv[OF inv port_from_id_less[OF Some]])
      with 2 Some show thesis by (intro that'[of r s']) (simp_all add: syscall_handler_simps)
    qed (intro that'[of "SysReturn (- 1)" s]; use 2 inv in \<open>simp add: syscall_handler_simps\<close>)
  next
    case 3
    obtain r s' where "yield_in ra PendExit SysHalt (exiting a1 s) = Some (r, s')" "thread_inv s'" "switched (exiting a1 s) s'"
      "r = SysHalt \<or> (\<exists>rip. r = SysSwitch rip PendExit)"
      by (rule yield_in_total[OF ipc_invD(1)[OF ipc_inv_exiting[OF inv]], of ra PendExit SysHalt a1])
    with 3 ipc_inv_switched[OF ipc_inv_exiting[OF inv], of s' a1] show thesis
      by (intro that'[of r s']) (auto simp: syscall_handler_simps pend_ok_def)
  next
    case 4
    obtain r s' where "yield_in ra PendYield (SysReturn 0) s = Some (r, s')" "thread_inv s'" "switched s s'"
      "r = SysReturn 0 \<or> (\<exists>rip. r = SysSwitch rip PendYield)"
      by (rule yield_in_total[OF ipc_invD(1)[OF inv], of ra PendYield "SysReturn 0"])
    with 4 ipc_inv_switched[OF inv, of s'] show thesis
      by (intro that'[of r s']) (auto simp: syscall_handler_simps pend_ok_def)
  next
    case 5
    show thesis
    proof (cases "port_count s < MAX_PORTS")
      case True
      obtain s' where "port_create s = (Some (port_count s), s')" "ipc_inv s'" by (rule port_create_ok[OF inv True])
      with 5 show thesis
        by (intro that'[of "SysReturn (uint (port_to_id (Some (port_count s))))" s']) (simp_all add: syscall_handler_simps)
    qed (intro that'[of "SysReturn (- 1)" s]; use 5 inv in \<open>simp add: syscall_handler_simps port_create_def\<close>)
  next
    case 6
    show thesis
    proof (cases "port_from_id (ucast a1)")
      case (Some p)
      obtain s' where "port_destroy (Some p) s = Some s'" "ipc_inv s'" by (rule port_destroy_ok[OF inv port_from_id_less[OF Some]])
      with 6 Some show thesis by (intro that'[of "SysReturn 0" s']) (simp_all add: syscall_handler_simps)
    qed (intro that'[of "SysReturn (- 1)" s]; use 6 inv in \<open>simp add: syscall_handler_simps\<close>)
  next
    case 7
    let ?s = "serial_print ''[USER] '' s"
    from 7 inv show thesis
      by (cases "mmu_str mm (phys_mem s) (cr3_reg s) a1")
         (intro that'[of SysFault ?s] that'[of "SysReturn 0" "serial_print _ ?s"]; simp add: syscall_handler_simps ipc_inv_console)+
  next
    case 8
    with inv show thesis
      by (intro that'[OF syscall_handler_unknown]) (simp_all add: serial_print_hex_def ipc_inv_console)
  qed
qed

lemma wait_ok_frame:
  assumes "wait_ok s" "ipc_inv s" "threads s' = threads s" "thread_count s' = thread_count s" "ports s' = ports s"
    "message_pool s' = message_pool s" "port_count s' = port_count s"
  shows "wait_ok s'"
  using assms ipc_invD(4)[OF assms(2)]
  by (intro wait_ok_cong[OF assms(1)]) (simp_all add: queue_def queue_idx_def)

lemma wait_ok_exiting:
  assumes "wait_ok s" "ipc_inv s"
  shows "wait_ok (exiting code s)"
proof (cases "current s")
  case None
  with assms show ?thesis by (intro wait_ok_frame[OF assms]) (simp_all add: exiting_fields)
next
  case (Some c)
  have "c < length (threads s)" using Some thread_invD[OF ipc_invD(1)[OF assms(2)]] by fastforce
  then have nth: "threads (exiting code s) ! t = (if t = c then (threads s ! c)\<lparr>thread_status := THREAD_DEAD\<rparr> else threads s ! t)" for t
    by (simp add: exiting_fields Some nth_list_update)
  have q: "queue (exiting code s) p = queue s p" for p by (simp add: queue_def queue_idx_def exiting_fields)
  show ?thesis
    using assms(1) unfolding wait_ok_def q exiting_fields(2,5,8) by (auto simp: nth)
qed

text \<open>A call that names a port names one that was created.\<close>

definition uses_created :: "u64 \<times> u64 \<times> u64 \<times> u64 \<times> u64 \<times> u64 \<times> u64 \<Rightarrow> 'z thread_state_scheme \<Rightarrow> bool" where
  "uses_created args s =
     (case args of (num, arg1, _) \<Rightarrow> num \<in> {SYS_SEND, SYS_RECV, SYS_PORT_DESTROY} \<longrightarrow>
        (case port_from_id (ucast arg1) of None \<Rightarrow> True | Some p \<Rightarrow> p < port_count s))"

lemma wait_ok_yield_in:
  assumes "wait_ok s" "ipc_inv s" "yield_in ra pend ret s = Some (r, s')"
  shows "wait_ok s' \<and> port_count s' = port_count s \<and> (r = ret \<or> (\<exists>rip. r = SysSwitch rip pend))"
proof -
  obtain r1 s1 where y: "yield_in ra pend ret s = Some (r1, s1)" "switched s s1" "r1 = ret \<or> (\<exists>rip. r1 = SysSwitch rip pend)"
    using yield_in_total[OF ipc_invD(1)[OF assms(2)], of ra pend ret] by metis
  with assms show ?thesis
    using wait_ok_switched[OF assms(1) y(2) ipc_invD(4)[OF assms(2)]] switchedD(4)[OF y(2)] by simp
qed

lemma send_same:
  assumes "ipc_inv s" "p < MAX_PORTS"
  shows "port_count (snd (send (Some p) ident d0 d1 d2 d3 s)) = port_count s"
    "current (snd (send (Some p) ident d0 d1 d2 d3 s)) = current s"
    "thread_count (snd (send (Some p) ident d0 d1 d2 d3 s)) = thread_count s"
  using assms ipc_invD(2,3)[OF assms(1)]
  by (cases "message_pool_next s < MAX_MESSAGES"; simp add: send_eq send_errors)+

lemma wait_ok_copy_out:
  assumes "wait_ok s" "ipc_inv s" "copy_out mm out r p s = (x, s')"
  shows "wait_ok s'"
proof -
  note f = copy_out_frame[OF assms(3)]
  show ?thesis by (rule wait_ok_frame[OF assms(1,2)]) (subst f, simp)+
qed

lemma port_destroy_same:
  assumes "ipc_inv s" "p < MAX_PORTS"
  shows "\<exists>s'. port_destroy (Some p) s = Some s' \<and> port_count s' = port_count s \<and> current s' = current s \<and>
    thread_count s' = thread_count s"
proof (rule port_destroy_ok[OF assms])
  fix s'
  assume "port_destroy (Some p) s = Some s'"
    "s' = s\<lparr>threads := woken (blocked_thread (ports s ! p)) (threads s), ports := (ports s)[p := empty_port]\<rparr>"
  then show ?thesis by (intro exI[of _ s']) simp
qed

lemma syscall_handler_wait:
  assumes "ipc_inv s" "wait_ok s" "uses_created args s" "syscall_handler mm ra args s = Some (r, s')"
  shows "wait_ok s' \<and> port_count s \<le> port_count s' \<and>
    (\<forall>rip p out. r = SysSwitch rip (PendRecv p out) \<longrightarrow> p < port_count s')"
proof -
  obtain num a1 a2 a3 a4 a5 a6 where args: "args = (num, a1, a2, a3, a4, a5, a6)" by (cases args)
  note eq = assms(4)[unfolded args]
  have created: "p < port_count s" if "port_from_id (ucast a1) = Some p" "num \<in> {SYS_SEND, SYS_RECV, SYS_PORT_DESTROY}" for p
    using assms(3) that by (auto simp: uses_created_def args)
  consider "num = SYS_SEND" | "num = SYS_RECV" | "num = SYS_THREAD_EXIT" | "num = SYS_THREAD_YIELD" | "num = SYS_PORT_CREATE"
    | "num = SYS_PORT_DESTROY" | "num = SYS_DEBUG_PRINT"
    | "num \<notin> {SYS_SEND, SYS_RECV, SYS_THREAD_EXIT, SYS_THREAD_YIELD, SYS_PORT_CREATE, SYS_PORT_DESTROY, SYS_DEBUG_PRINT}"
    by blast
  then show ?thesis
  proof cases
    case 1
    show ?thesis
    proof (cases "port_from_id (ucast a1 :: u32)")
      case (Some p)
      note p = created[OF Some]
      from 1 eq Some wait_ok_send[OF assms(1,2) p] send_same[OF assms(1) port_from_id_less[OF Some]] show ?thesis
        by (auto simp: syscall_handler_simps map_prod_def case_prod_unfold)
    qed (use eq 1 assms in \<open>auto simp: syscall_handler_simps\<close>)
  next
    case 2
    show ?thesis
    proof (cases "port_from_id (ucast a1 :: u32)")
      case (Some p)
      have p: "p < port_count s" using created[OF Some] 2 by simp
      obtain r1 s1 where r1: "recv ra (Some p) a2 s = Some (r1, s1)" "copy_out mm a2 r1 p s1 = (r, s')"
        using eq 2 Some by (auto simp: syscall_handler_simps)
      have "ipc_inv s1" using recv_ok[OF assms(1) port_from_id_less[OF Some], of ra a2] r1(1) by auto
      then have "wait_ok s'" "port_count s' = port_count s"
        using wait_ok_recv[OF assms(1,2) p r1(1)] wait_ok_copy_out[OF _ _ r1(2)] copy_out_frame[OF r1(2), THEN arg_cong, of port_count]
        by simp_all
      moreover have "\<forall>rip q out. r = SysSwitch rip (PendRecv q out) \<longrightarrow> q = p"
        using r1(2) by (auto simp: copy_out_def split: recv_result.splits option.splits)
      ultimately show ?thesis using p by auto
    qed (use eq 2 assms in \<open>auto simp: syscall_handler_simps\<close>)
  next
    case 3
    then have "yield_in ra PendExit SysHalt (exiting a1 s) = Some (r, s')" using eq by (simp add: syscall_handler_simps)
    from wait_ok_yield_in[OF wait_ok_exiting[OF assms(2,1)] ipc_inv_exiting[OF assms(1)] this] show ?thesis
      by (auto simp: exiting_fields)
  next
    case 4
    then have "yield_in ra PendYield (SysReturn 0) s = Some (r, s')" using eq by (simp add: syscall_handler_simps)
    from wait_ok_yield_in[OF assms(2,1) this] show ?thesis by auto
  next
    case 5
    with eq wait_ok_create[OF assms(1,2)] show ?thesis
      by (auto simp: syscall_handler_simps port_create_def set_port_def Let_def split: if_splits)
  next
    case 6
    show ?thesis
    proof (cases "port_from_id (ucast a1 :: u32)")
      case (Some p)
      note p = created[OF Some]
      obtain s1 where "port_destroy (Some p) s = Some s1" "port_count s1 = port_count s"
        using port_destroy_same[OF assms(1) port_from_id_less[OF Some]] by blast
      with 6 eq Some wait_ok_destroy[OF assms(1,2) p] show ?thesis by (auto simp: syscall_handler_simps)
    qed (use eq 6 assms in \<open>auto simp: syscall_handler_simps\<close>)
  next
    case 7
    with eq show ?thesis
      by (cases "mmu_str mm (phys_mem s) (cr3_reg s) a1")
         (auto simp: syscall_handler_simps intro!: wait_ok_frame[OF assms(2,1)])
  next
    case 8
    with eq show ?thesis
      by (auto simp: syscall_handler_unknown serial_print_hex_def intro!: wait_ok_frame[OF assms(2,1)])
  qed
qed

section \<open>The system\<close>

type_synonym 'z sys_state = "'z thread_state_scheme \<times> (nat \<Rightarrow> pending option)"

definition note_pending :: "nat \<Rightarrow> sys_result \<Rightarrow> (nat \<Rightarrow> pending option) \<Rightarrow> (nat \<Rightarrow> pending option)" where
  "note_pending c r pend = (case r of SysSwitch rip pd \<Rightarrow> pend(c := Some pd) | _ \<Rightarrow> pend)"

lemma note_pendingD: "note_pending c r pend c' = Some pd \<Longrightarrow> pend c' = Some pd \<or> (\<exists>rip. r = SysSwitch rip pd)"
  by (auto simp: note_pending_def split: sys_result.splits if_splits)

text \<open>
  One step: the running thread makes a call that the guard allows, or goes on with a call in
  which it was switched away, or computes, which may change registers, its stack and
  memory. A call that stops the machine is not a step.
\<close>

inductive sys_step ::
    "mmu \<Rightarrow> (u64 \<times> u64 \<times> u64 \<times> u64 \<times> u64 \<times> u64 \<times> u64 \<Rightarrow> 'z thread_state_scheme \<Rightarrow> bool) \<Rightarrow> 'z sys_state \<Rightarrow> 'z sys_state \<Rightarrow> bool"
  for mm guard where
  sys_call: "\<lbrakk>current s = Some c; pend c = None; guard args s; syscall_handler mm ra args s = Some (r, s');
      r \<noteq> SysHalt; r \<noteq> SysFault\<rbrakk> \<Longrightarrow> sys_step mm guard (s, pend) (s', note_pending c r pend)"
| sys_resume: "\<lbrakk>current s = Some c; pend c = Some pd; syscall_resume mm pd s = (SysReturn v, s')\<rbrakk>
    \<Longrightarrow> sys_step mm guard (s, pend) (s', pend(c := None))"
| sys_compute: "sys_step mm guard (s, pend) (s\<lparr>cpu := c, kstack := k, phys_mem := m\<rparr>, pend)"

inductive_cases sys_stepE: "sys_step mm guard (s, pend) t"

definition sys_inv :: "'z sys_state \<Rightarrow> bool" where
  "sys_inv \<sigma> \<longleftrightarrow> ipc_inv (fst \<sigma>) \<and> (\<forall>c pd. snd \<sigma> c = Some pd \<longrightarrow> pend_ok pd)"

lemma syscall_resume_inv:
  assumes "ipc_inv s" "pend_ok pd" "syscall_resume mm pd s = (r, s')"
  shows "ipc_inv s'"
proof (cases pd)
  case (PendRecv p out)
  then have p: "p < MAX_PORTS" using assms(2) by (simp add: pend_ok_def)
  obtain r1 s1 where r1: "recv_resume p s = (r1, s1)" "copy_out mm out r1 p s1 = (r, s')"
    using assms(3) PendRecv by (auto simp: syscall_resume_def split: prod.splits)
  have "ipc_inv s1"
    using recv_resume_ok[OF assms(1) p] r1(1) assms(1) by (cases "queue s p") auto
  then show ?thesis by (rule ipc_inv_copy_out[OF _ r1(2)])
qed (use assms in \<open>auto simp: syscall_resume_def\<close>)

lemma sys_step_inv:
  assumes "sys_step mm guard \<sigma> \<sigma>'" "sys_inv \<sigma>"
  shows "sys_inv \<sigma>'"
  using assms
proof cases
  case (sys_call s c pend args ra r s')
  obtain r1 s1 where "syscall_handler mm ra args s = Some (r1, s1)" "ipc_inv s1" "\<forall>rip pd. r1 = SysSwitch rip pd \<longrightarrow> pend_ok pd"
    using syscall_handler_ok[of s mm ra args] assms(2) sys_call(1) by (auto simp: sys_inv_def)
  with sys_call assms(2) show ?thesis by (auto simp: sys_inv_def note_pending_def split: sys_result.splits if_splits)
next
  case (sys_resume s c pend pd v s')
  with assms(2) syscall_resume_inv[of s pd mm "SysReturn v" s'] show ?thesis
    by (auto simp: sys_inv_def split: if_splits)
next
  case (sys_compute s pend m k c)
  have "ipc_inv (s\<lparr>cpu := c, kstack := k, phys_mem := m\<rparr>)" if "ipc_inv s"
    by (rule ipc_inv_frame[OF that]) simp_all
  with sys_compute assms(2) show ?thesis by (simp add: sys_inv_def)
qed

lemma sys_steps_inv: "(sys_step mm guard)\<^sup>*\<^sup>* \<sigma> \<sigma>' \<Longrightarrow> sys_inv \<sigma> \<Longrightarrow> sys_inv \<sigma>'"
  by (induction rule: rtranclp_induct) (auto intro: sys_step_inv)

section \<open>Properties of the system\<close>

text \<open>
  C23. The seven arguments of a system call reach the handler in their order: what the stub
  \<^verbatim>\<open>syscall6\<close> loads into the registers is what the C function gets from the entry code, and
  the stack is aligned as the calling convention demands at the call.
\<close>

theorem syscall_arguments_arrive:
  "c_args (syscall_entry ktop (syscall6 num a1 a2 a3 a4 a5 a6 r)) = (num, a1, a2, a3, a4, a5, a6) \<and>
   r_rsp (syscall_entry ktop (syscall6 num a1 a2 a3 a4 a5 a6 r)) AND 0xF = 0"
proof
  let ?r = "syscall6 num a1 a2 a3 a4 a5 a6 r"
  show "c_args (syscall_entry ktop ?r) = (num, a1, a2, a3, a4, a5, a6)"
    by (simp add: c_args_def syscall_entry_def syscall6_def Let_def)
  have "(x AND NOT 0xF) - 96 = push_bit 4 (drop_bit 4 x - 6)" for x :: u64
  proof -
    have m: "(0xF :: u64) = mask 4" by (simp add: mask_eq_exp_minus_1)
    have "x AND NOT 0xF = push_bit 4 (drop_bit 4 x)"
      unfolding m by (rule bit_word_eqI) (auto simp: bit_simps)
    then show ?thesis by (simp add: push_bit_eq_mult algebra_simps)
  qed
  moreover have "push_bit 4 y AND 0xF = 0" for y :: u64
  proof -
    have m: "(0xF :: u64) = mask 4" by (simp add: mask_eq_exp_minus_1)
    show ?thesis unfolding m by (rule bit_word_eqI) (auto simp: bit_simps)
  qed
  ultimately show "r_rsp (syscall_entry ktop ?r) AND 0xF = 0"
    by (simp add: syscall_entry_def syscall6_def Let_def)
qed

text \<open>
  After \<^verbatim>\<open>syscall_init\<close>, vector 128 leads to the entry code, may be raised from user mode
  and disables interrupts; no other vector changes.
\<close>

theorem syscall_init_gate:
  assumes "length (idt s) = IDT_ENTRIES"
  shows "gate_present (idt (syscall_init img s) ! 128) \<and> gate_dpl (idt (syscall_init img s) ! 128) = 3 \<and>
    gate_offset (idt (syscall_init img s) ! 128) = syscall_entry_asm img \<and>
    selector (idt (syscall_init img s) ! 128) = KERNEL_CS \<and>
    (\<forall>j. j \<noteq> 128 \<longrightarrow> idt (syscall_init img s) ! j = idt s ! j)"
  using assms
  by (simp add: syscall_init_def idt_set_gate_def SYSCALL_VECTOR_def IDT_ENTRIES_def gate_present_def gate_dpl_def
      gate_offset_packed KERNEL_CS_def gdt_index_defs IDT_TYPE_USER_INTERRUPT_def bit_simps)



lemma syscall_resume_wait:
  assumes "ipc_inv s" "wait_ok s" "pend_ok pd" "case pd of PendRecv p out \<Rightarrow> p < port_count s | _ \<Rightarrow> True"
    "syscall_resume mm pd s = (r, s')"
  shows "wait_ok s' \<and> port_count s' = port_count s"
proof (cases pd)
  case (PendRecv p out)
  obtain r1 s1 where r1: "recv_resume p s = (r1, s1)" "copy_out mm out r1 p s1 = (r, s')"
    using assms(5) PendRecv by (auto simp: syscall_resume_def split: prod.splits)
  have p: "p < MAX_PORTS" "p < port_count s" using assms(3,4) PendRecv by (simp_all add: pend_ok_def)
  have i1: "ipc_inv s1" using recv_resume_ok[OF assms(1) p(1)] r1(1) assms(1) by (cases "queue s p") auto
  have w1: "wait_ok s1 \<and> port_count s1 = port_count s"
    using r1(1) wait_ok_take[OF assms(1,2) p(2)] assms(2)
    by (auto simp: recv_resume_def take_message_def set_port_def message_free_def Let_def split: option.splits)
  have "port_count s' = port_count s1" by (subst copy_out_frame[OF r1(2)]) simp
  with w1 wait_ok_copy_out[OF _ i1 r1(2)] show ?thesis by simp
qed (use assms in \<open>auto simp: syscall_resume_def\<close>)

definition wait_inv :: "'z sys_state \<Rightarrow> bool" where
  "wait_inv \<sigma> \<longleftrightarrow> sys_inv \<sigma> \<and> wait_ok (fst \<sigma>) \<and>
     (\<forall>c p out. snd \<sigma> c = Some (PendRecv p out) \<longrightarrow> p < port_count (fst \<sigma>))"

lemma wait_invD:
  assumes "wait_inv (s, pend)"
  shows "ipc_inv s" "wait_ok s" "pend c = Some pd \<Longrightarrow> pend_ok pd" "pend c = Some (PendRecv p out) \<Longrightarrow> p < port_count s"
  using assms unfolding wait_inv_def sys_inv_def fst_conv snd_conv by blast+

lemma wait_inv_step:
  assumes "sys_step mm uses_created \<sigma> \<sigma>'" "wait_inv \<sigma>"
  shows "wait_inv \<sigma>'"
proof -
  have inv': "sys_inv \<sigma>'" using sys_step_inv[OF assms(1)] assms(2) by (simp add: wait_inv_def)
  from assms(1) show ?thesis
  proof cases
    case (sys_call s c pend args ra r s')
    note d = wait_invD[OF assms(2)[unfolded sys_call(1)]]
    note w = syscall_handler_wait[OF d(1,2) sys_call(5,6)]
    have "p < port_count s'" if "note_pending c r pend c' = Some (PendRecv p out)" for c' p out
    proof -
      from note_pendingD[OF that] consider "pend c' = Some (PendRecv p out)" | rip where "r = SysSwitch rip (PendRecv p out)"
        by blast
      then show ?thesis
      proof cases
        case 1
        then have "p < port_count s" by (rule d(4))
        with w show ?thesis by linarith
      qed (use w in blast)
    qed
    with w inv' sys_call(2) show ?thesis unfolding wait_inv_def by simp
  next
    case (sys_resume s c pend pd v s')
    note d = wait_invD[OF assms(2)[unfolded sys_resume(1)]]
    have "case pd of PendRecv p out \<Rightarrow> p < port_count s | _ \<Rightarrow> True"
      using d(4)[of c] sys_resume(4) by (cases pd) simp_all
    from syscall_resume_wait[OF d(1,2) d(3)[OF sys_resume(4)] this sys_resume(5)]
    have w: "wait_ok s'" "port_count s' = port_count s" by simp_all
    have "p < port_count s" if "(pend(c := None)) c' = Some (PendRecv p out)" for c' p out
      using that d(4)[of c' p out] by (simp split: if_splits)
    with w inv' sys_resume(2) show ?thesis unfolding wait_inv_def by simp
  next
    case (sys_compute s pend m k c)
    note d = wait_invD[OF assms(2)[unfolded sys_compute(1)]]
    have "wait_ok (s\<lparr>cpu := c, kstack := k, phys_mem := m\<rparr>)" by (rule wait_ok_frame[OF d(2,1)]) simp_all
    with inv' d(4) sys_compute(2) show ?thesis unfolding wait_inv_def by simp
  qed
qed


section \<open>Fairness\<close>

lemma next_turn:
  assumes "thread_inv s" "current s = Some c" "j < thread_count s" "runnable (threads s) j"
    and "current s' = (case next_in_order (threads s) (thread_count s) c of None \<Rightarrow> Some c | Some i \<Rightarrow> Some i)"
    and "current s' = Some d" "d \<noteq> j"
  shows "turns d j < turns c j"
proof -
  have c: "c < thread_count s" using thread_invD(4)[OF assms(1,2)] .
  obtain i where i: "next_in_order (threads s) (thread_count s) c = Some i"
    using next_in_order_None[OF c] assms(3,4) by (cases "next_in_order (threads s) (thread_count s) c") auto
  with assms(5-7) have "i = d" by simp
  with turns_decrease[OF i c thread_invD(3)[OF assms(1)] assms(3,4)] assms(7) show ?thesis by simp
qed

lemma recv_turn:
  assumes inv: "ipc_inv s" and c: "current s = Some c" "j \<noteq> c" "j < thread_count s" "runnable (threads s) j"
    and p: "p < MAX_PORTS" "recv ra (Some p) out s = Some (r, s')"
  shows "\<exists>d. current s' = Some d \<and> thread_count s' = thread_count s \<and> (d \<noteq> j \<longrightarrow> turns d j \<le> turns c j)"
proof (rule recv_cases[OF inv p])
  fix c' ctl
  assume b: "current s = Some c'" "queue s p = []" "thread_yield ra (blocked_on p c' s) = Some (ctl, s')"
  have eq: "c' = c" using b(1) c(1) by simp
  let ?b = "blocked_on p c s"
  have f: "current ?b = Some c" "thread_count ?b = thread_count s" using c by (simp_all add: blocked_on_def)
  have rj: "runnable (threads ?b) j" using c blocked_on_threads(1)[OF inv c(1), of p j] by (simp add: runnable_def)
  have t: "thread_inv ?b" by (rule ipc_invD(1)[OF blocked_on_ok(1)[OF inv p(1) b(2) c(1)]])
  obtain ctl2 s2 where "thread_yield ra ?b = Some (ctl2, s2)" "thread_inv s2" "switched ?b s2"
      "current s2 = (case current ?b of None \<Rightarrow> None
         | Some c \<Rightarrow> case next_in_order (threads ?b) (thread_count ?b) c of None \<Rightarrow> Some c | Some i \<Rightarrow> Some i)"
    by (rule thread_yield_total[OF t, of ra])
  with b(3) have y: "switched ?b s'"
      "current s' = (case next_in_order (threads ?b) (thread_count ?b) c of None \<Rightarrow> Some c | Some i \<Rightarrow> Some i)"
    unfolding eq f(1) by simp_all
  obtain d where d: "current s' = Some d" using y(2) by (cases "next_in_order (threads ?b) (thread_count ?b) c") simp_all
  have "j < thread_count ?b" using c(3) f(2) by simp
  from next_turn[OF t f(1) this rj y(2) d] d switchedD(5)[OF y(1)] f(2) show ?thesis by (intro exI[of _ d]) auto
next
  fix m assume "take_message p s = Some (m, s')"
  from take_message_same[OF this] c show ?thesis by (intro exI[of _ c]) simp
next
  assume "s' = s"
  with c show ?thesis by (intro exI[of _ c]) simp
qed

text \<open>A call made by another thread brings \<open>j\<close>'s turn nearer, or leaves it where it is.\<close>

lemma handler_turn:
  assumes inv: "ipc_inv s" and c: "current s = Some c" "j \<noteq> c" "j < thread_count s" "runnable (threads s) j"
    and h: "syscall_handler mm ra (num, a1, a2, a3, a4, a5, a6) s = Some (r, s')"
  shows "\<exists>d. current s' = Some d \<and> thread_count s' = thread_count s \<and>
    (d \<noteq> j \<longrightarrow> turns d j \<le> turns c j \<and> (num = SYS_THREAD_YIELD \<longrightarrow> turns d j < turns c j))"
proof -
  have yield: "\<exists>d. current s' = Some d \<and> thread_count s' = thread_count s \<and> (d \<noteq> j \<longrightarrow> turns d j < turns c j)"
    if y: "yield_in ra pend ret s1 = Some (r, s')" and s1: "ipc_inv s1" "current s1 = Some c" "thread_count s1 = thread_count s"
      "runnable (threads s1) j" for pend ret s1
  proof -
    obtain r2 s2 where "yield_in ra pend ret s1 = Some (r2, s2)" "thread_inv s2" "switched s1 s2"
      "current s2 = (case current s1 of None \<Rightarrow> None
         | Some c \<Rightarrow> case next_in_order (threads s1) (thread_count s1) c of None \<Rightarrow> Some c | Some i \<Rightarrow> Some i)"
      by (rule yield_in_total[OF ipc_invD(1)[OF s1(1)], of ra pend ret])
    with y s1(2) have sw: "switched s1 s'"
        and cur: "current s' = (case next_in_order (threads s1) (thread_count s1) c of None \<Rightarrow> Some c | Some i \<Rightarrow> Some i)"
      by simp_all
    obtain d where d: "current s' = Some d" using cur by (cases "next_in_order (threads s1) (thread_count s1) c") simp_all
    have "j < thread_count s1" using c(3) s1(3) by simp
    from next_turn[OF ipc_invD(1)[OF s1(1)] s1(2) this s1(4) cur d] d switchedD(5)[OF sw] s1(3) show ?thesis by simp
  qed
  have len: "c < length (threads s)" using thread_invD[OF ipc_invD(1)[OF inv]] c(1) by fastforce
  consider "num = SYS_SEND" | "num = SYS_RECV" | "num = SYS_THREAD_EXIT" | "num = SYS_THREAD_YIELD" | "num = SYS_PORT_CREATE"
    | "num = SYS_PORT_DESTROY" | "num = SYS_DEBUG_PRINT"
    | "num \<notin> {SYS_SEND, SYS_RECV, SYS_THREAD_EXIT, SYS_THREAD_YIELD, SYS_PORT_CREATE, SYS_PORT_DESTROY, SYS_DEBUG_PRINT}"
    by blast
  then show ?thesis
  proof cases
    case 3
    have "runnable (threads (exiting a1 s)) j" using c len by (simp add: runnable_def exiting_fields nth_list_update)
    moreover have "yield_in ra PendExit SysHalt (exiting a1 s) = Some (r, s')" using 3 h by (simp add: syscall_handler_simps)
    ultimately obtain d where "current s' = Some d" "thread_count s' = thread_count s" "d \<noteq> j \<longrightarrow> turns d j < turns c j"
      using yield[of PendExit SysHalt "exiting a1 s"] ipc_inv_exiting[OF inv, of a1] c(1) exiting_fields(2,4)[of a1 s]
      by auto
    then show ?thesis by (intro exI[of _ d]) auto
  next
    case 4
    then have "yield_in ra PendYield (SysReturn 0) s = Some (r, s')" using h by (simp add: syscall_handler_simps)
    from yield[OF this inv c(1) refl c(4)] obtain d
      where "current s' = Some d" "thread_count s' = thread_count s" "d \<noteq> j \<longrightarrow> turns d j < turns c j" by blast
    then show ?thesis by (intro exI[of _ d]) auto
  next
    case 1
    then have "current s' = current s \<and> thread_count s' = thread_count s"
      using h send_same(2,3)[OF inv port_from_id_less]
      by (auto simp: syscall_handler_simps map_prod_def case_prod_unfold split: option.splits)
    with 1 c show ?thesis by (simp add: not_yield)
  next
    case 2
    show ?thesis
    proof (cases "port_from_id (ucast a1 :: u32)")
      case None
      with 2 h c show ?thesis by (simp add: syscall_handler_simps not_yield)
    next
      case (Some p)
      obtain r1 s1 where r1: "recv ra (Some p) a2 s = Some (r1, s1)" "copy_out mm a2 r1 p s1 = (r, s')"
        using h 2 Some by (auto simp: syscall_handler_simps)
      have f: "current s' = current s1" "thread_count s' = thread_count s1" by (subst copy_out_frame[OF r1(2)], simp)+
      have "\<exists>d. current s1 = Some d \<and> thread_count s1 = thread_count s \<and> (d \<noteq> j \<longrightarrow> turns d j \<le> turns c j)"
        by (rule recv_turn[OF inv c port_from_id_less[OF Some] r1(1)])
      with f 2 show ?thesis by (simp add: not_yield)
    qed
  next
    case 5
    with h c show ?thesis
      by (auto simp: syscall_handler_simps port_create_def set_port_def Let_def not_yield split: if_splits)
  next
    case 6
    show ?thesis
    proof (cases "port_from_id (ucast a1 :: u32)")
      case (Some p)
      obtain s1 where "port_destroy (Some p) s = Some s1" "current s1 = current s" "thread_count s1 = thread_count s"
        using port_destroy_same[OF inv port_from_id_less[OF Some]] by blast
      with 6 h Some c show ?thesis by (auto simp: syscall_handler_simps not_yield)
    qed (use 6 h c in \<open>simp add: syscall_handler_simps not_yield\<close>)
  next
    case 7
    with h c show ?thesis by (auto simp: syscall_handler_simps not_yield split: option.splits)
  next
    case 8
    with h c show ?thesis by (auto simp: syscall_handler_unknown serial_print_hex_def)
  qed
qed

lemma resume_turn:
  assumes "ipc_inv s" "pend_ok pd" "syscall_resume mm pd s = (r, s')"
  shows "current s' = current s \<and> thread_count s' = thread_count s"
proof (cases pd)
  case (PendRecv p out)
  obtain r1 s1 where r1: "recv_resume p s = (r1, s1)" "copy_out mm out r1 p s1 = (r, s')"
    using assms(3) PendRecv by (auto simp: syscall_resume_def split: prod.splits)
  have "current s' = current s1 \<and> thread_count s' = thread_count s1" by (subst (1 2) copy_out_frame[OF r1(2)]) simp
  moreover have "current s1 = current s \<and> thread_count s1 = thread_count s"
    using r1(1) take_message_same by (auto simp: recv_resume_def split: option.splits)
  ultimately show ?thesis by simp
qed (use assms in \<open>auto simp: syscall_resume_def\<close>)

text \<open>
  \<open>passed_over mm j n \<sigma> \<sigma>'\<close>: the system runs from \<open>\<sigma>\<close> to \<open>\<sigma>'\<close>, thread \<open>j\<close> is runnable all
  the time but never gets the processor, and the other threads call
  \<^verbatim>\<open>SYS_THREAD_YIELD\<close> at least \<open>n\<close> times.
\<close>

inductive passed_over :: "mmu \<Rightarrow> nat \<Rightarrow> nat \<Rightarrow> 'z sys_state \<Rightarrow> 'z sys_state \<Rightarrow> bool" for mm j where
  over_start: "\<lbrakk>runnable (threads s) j; current s \<noteq> Some j\<rbrakk> \<Longrightarrow> passed_over mm j 0 (s, pend) (s, pend)"
| over_step: "\<lbrakk>passed_over mm j n \<sigma> \<sigma>1; sys_step mm (\<lambda>_ _. True) \<sigma>1 (s2, pend2); runnable (threads s2) j; current s2 \<noteq> Some j\<rbrakk>
    \<Longrightarrow> passed_over mm j n \<sigma> (s2, pend2)"
| over_yield: "\<lbrakk>passed_over mm j n \<sigma> (s1, pend1); current s1 = Some c; pend1 c = None;
      syscall_handler mm ra (SYS_THREAD_YIELD, a1, a2, a3, a4, a5, a6) s1 = Some (r, s2);
      runnable (threads s2) j; current s2 \<noteq> Some j\<rbrakk>
    \<Longrightarrow> passed_over mm j (Suc n) \<sigma> (s2, note_pending c r pend1)"

definition turn_of :: "'z thread_state_scheme \<Rightarrow> nat \<Rightarrow> nat" where
  "turn_of s j = (case current s of None \<Rightarrow> 0 | Some c \<Rightarrow> turns c j)"

lemma step_turn:
  assumes "sys_step mm guard (s1, pend1) (s2, pend2)" "sys_inv (s1, pend1)" "current s1 = Some c" "c \<noteq> j"
    "j < thread_count s1" "runnable (threads s1) j" "current s2 \<noteq> Some j"
  shows "(\<exists>d. current s2 = Some d) \<and> thread_count s2 = thread_count s1 \<and> turn_of s2 j \<le> turn_of s1 j"
proof -
  have inv: "ipc_inv s1" "\<And>c pd. pend1 c = Some pd \<Longrightarrow> pend_ok pd" using assms(2) by (auto simp: sys_inv_def)
  from assms(1) show ?thesis
  proof cases
    case (sys_call c' args ra r)
    obtain num a1 a2 a3 a4 a5 a6 where args: "args = (num, a1, a2, a3, a4, a5, a6)" by (cases args)
    from handler_turn[OF inv(1) assms(3) assms(4)[symmetric] assms(5,6), of mm ra num a1 a2 a3 a4 a5 a6 r s2] sys_call(5) args
    obtain d where "current s2 = Some d" "thread_count s2 = thread_count s1" "d \<noteq> j \<longrightarrow> turns d j \<le> turns c j" by blast
    with assms(3,7) show ?thesis by (simp add: turn_of_def)
  next
    case (sys_resume c' pd v)
    from resume_turn[OF inv(1) inv(2)[OF sys_resume(3)] sys_resume(4)] assms(3) show ?thesis by (simp add: turn_of_def)
  next
    case (sys_compute m k x)
    then show ?thesis using assms(3) by (simp add: turn_of_def)
  qed
qed

lemma turns_le: "j < MAX_THREADS \<Longrightarrow> turns c j \<le> MAX_THREADS" if "c \<noteq> j" for c j
  using that by (auto simp: turns_def)

lemma turns_pos: "c < MAX_THREADS \<Longrightarrow> 0 < turns c j"
  by (auto simp: turns_def)

lemma passed_over_turn:
  assumes "passed_over mm j n \<sigma> \<sigma>'" "sys_inv \<sigma>" "j < thread_count (fst \<sigma>)" "current (fst \<sigma>) \<noteq> None"
  shows "sys_inv \<sigma>' \<and> j < thread_count (fst \<sigma>') \<and> runnable (threads (fst \<sigma>')) j \<and> current (fst \<sigma>') \<notin> {None, Some j} \<and>
    n + turn_of (fst \<sigma>') j \<le> turn_of (fst \<sigma>) j"
  using assms
proof (induction rule: passed_over.induct)
  case (over_start s pend)
  then show ?case by simp
next
  case (over_step n \<sigma> \<sigma>1 s2 pend2)
  obtain s1 pend1 where eq: "\<sigma>1 = (s1, pend1)" by (cases \<sigma>1)
  from over_step have IH: "sys_inv (s1, pend1)" "j < thread_count s1" "runnable (threads s1) j" "current s1 \<notin> {None, Some j}"
      "n + turn_of s1 j \<le> turn_of (fst \<sigma>) j" by (simp_all add: eq)
  then obtain c where c: "current s1 = Some c" "c \<noteq> j" by auto
  note st = step_turn[OF over_step.hyps(2)[unfolded eq] IH(1) c IH(2,3) over_step.hyps(4)]
  have "sys_inv (s2, pend2)" using sys_step_inv[OF over_step.hyps(2)] IH(1) eq by simp
  with st IH over_step.hyps(3,4) show ?case by auto
next
  case (over_yield n \<sigma> s1 pend1 c ra a1 a2 a3 a4 a5 a6 r s2)
  from over_yield have IH: "sys_inv (s1, pend1)" "j < thread_count s1" "runnable (threads s1) j" "current s1 \<notin> {None, Some j}"
      "n + turn_of s1 j \<le> turn_of (fst \<sigma>) j" by simp_all
  have inv: "ipc_inv s1" "\<forall>c pd. pend1 c = Some pd \<longrightarrow> pend_ok pd" using IH(1) by (simp_all add: sys_inv_def)
  have cj: "j \<noteq> c" using IH(4) over_yield.hyps(2) by auto
  from handler_turn[OF inv(1) over_yield.hyps(2) cj IH(2,3) over_yield.hyps(4)] over_yield.hyps(6)
  obtain d where d: "current s2 = Some d" "d \<noteq> j" "thread_count s2 = thread_count s1" "turns d j < turns c j" by auto
  obtain r2 s3 where h: "syscall_handler mm ra (SYS_THREAD_YIELD, a1, a2, a3, a4, a5, a6) s1 = Some (r2, s3)" "ipc_inv s3"
      "\<forall>rip pd. r2 = SysSwitch rip pd \<longrightarrow> pend_ok pd"
    by (rule syscall_handler_ok[OF inv(1)])
  then have "ipc_inv s2" "\<forall>rip pd. r = SysSwitch rip pd \<longrightarrow> pend_ok pd" using over_yield.hyps(4) by simp_all
  then have "sys_inv (s2, note_pending c r pend1)"
    using inv(2) note_pendingD[of c r pend1] unfolding sys_inv_def fst_conv snd_conv by blast
  with d IH over_yield.hyps(2,5) show ?case by (simp add: turn_of_def)
qed


section \<open>Error paths and exit\<close>

text \<open>
  C21. The error paths of the handler. Numbers without a case, among them those of
  \<^verbatim>\<open>SYS_MAP_MEMORY\<close> and \<^verbatim>\<open>SYS_UNMAP_MEMORY\<close>, are reported on the console and rejected with
  \<open>-1\<close>, as is every identifier outside \<open>1..16\<close>; an exhausted message pool gives \<open>-2\<close> and an
  exhausted port table \<open>-1\<close>. None of these changes anything but the console.
\<close>

theorem syscall_errors:
  "(num \<notin> {1, 2, 3, 4, 5, 6, 9} \<longrightarrow>
      (\<exists>msg. syscall_handler mm ra (num, a1, a2, a3, a4, a5, a6) s = Some (SysReturn (- 1), s\<lparr>console := console s @ msg\<rparr>))) \<and>
   (num \<in> {SYS_SEND, SYS_RECV, SYS_PORT_DESTROY} \<and> unat (ucast a1 :: u32) \<notin> {1..16} \<longrightarrow>
      syscall_handler mm ra (num, a1, a2, a3, a4, a5, a6) s = Some (SysReturn (- 1), s)) \<and>
   (message_pool_next s \<ge> MAX_MESSAGES \<and> unat (ucast a1 :: u32) \<in> {1..16} \<longrightarrow>
      syscall_handler mm ra (SYS_SEND, a1, a2, a3, a4, a5, a6) s = Some (SysReturn (- 2), s)) \<and>
   (port_count s \<ge> MAX_PORTS \<longrightarrow> syscall_handler mm ra (SYS_PORT_CREATE, a1, a2, a3, a4, a5, a6) s = Some (SysReturn (- 1), s))"
proof -
  have ids: "port_from_id ident = None \<longleftrightarrow> unat ident \<notin> {1..16}" for ident
  proof -
    have "unat ident = 0 \<longleftrightarrow> ident = 0" by (simp add: unat_eq_zero)
    then show ?thesis by (auto simp: port_from_id_def MAX_PORTS_def word_less_nat_alt)
  qed
  have "syscall_handler mm ra (num, a1, a2, a3, a4, a5, a6) s =
      Some (SysReturn (- 1), s\<lparr>console := console s @ ''Unknown syscall: '' @ ''0x'' @ c_string (hex_buffer num) @ ''\<newline>''\<rparr>)"
    if "num \<notin> {1, 2, 3, 4, 5, 6, 9}"
    using that by (subst syscall_handler_unknown) (simp_all add: sys_numbers serial_print_hex_def)
  moreover have "syscall_handler mm ra (num, a1, a2, a3, a4, a5, a6) s = Some (SysReturn (- 1), s)"
    if "num \<in> {SYS_SEND, SYS_RECV, SYS_PORT_DESTROY}" "port_from_id (ucast a1) = None"
    using that by (elim insertE) (simp_all add: syscall_handler_simps)
  moreover have "syscall_handler mm ra (SYS_SEND, a1, a2, a3, a4, a5, a6) s = Some (SysReturn (- 2), s)"
    if "message_pool_next s \<ge> MAX_MESSAGES" "port_from_id (ucast a1) \<noteq> None"
    using that by (auto simp: syscall_handler_simps send_errors)
  moreover have "syscall_handler mm ra (SYS_PORT_CREATE, a1, a2, a3, a4, a5, a6) s = Some (SysReturn (- 1), s)"
    if "port_count s \<ge> MAX_PORTS"
    using that by (simp add: syscall_handler_simps port_create_def)
  ultimately show ?thesis unfolding ids by blast
qed

text \<open>
  C22. \<^verbatim>\<open>SYS_THREAD_EXIT\<close> does not return to its caller: the thread is marked dead, and either
  another runnable thread gets the processor, with the caller parked in the halt loop, or
  the machine halts because no thread is left.
\<close>

theorem thread_exit_never_returns:
  assumes "ipc_inv s" "current s = Some c" "syscall_handler mm ra (SYS_THREAD_EXIT, a1, a2, a3, a4, a5, a6) s = Some (r, s')"
  shows "thread_status (threads s' ! c) = THREAD_DEAD \<and>
    (if \<exists>i<thread_count s. i \<noteq> c \<and> runnable (threads s) i
     then (\<exists>rip d. r = SysSwitch rip PendExit \<and> current s' = Some d \<and> d \<noteq> c \<and> runnable (threads s') d) \<and>
       (\<forall>t. syscall_resume mm PendExit t = (SysHalt, t))
     else r = SysHalt)"
proof -
  let ?e = "exiting a1 s"
  have y: "yield_in ra PendExit SysHalt ?e = Some (r, s')" using assms(3) by (simp add: syscall_handler_simps)
  have len: "c < length (threads s)" and c: "c < thread_count s"
    using thread_invD[OF ipc_invD(1)[OF assms(1)]] assms(2) by fastforce+
  have st: "thread_status (threads ?e ! i) = (if i = c then THREAD_DEAD else thread_status (threads s ! i))" for i
    using len assms(2) by (simp add: exiting_fields nth_list_update)
  have t: "thread_inv ?e" by (rule ipc_invD(1)[OF ipc_inv_exiting[OF assms(1)]])
  have e: "current ?e = Some c" "thread_count ?e = thread_count s" using assms(2) by (simp_all add: exiting_fields)
  obtain ctl s2 where y2: "thread_yield ra ?e = Some (ctl, s2)" "thread_inv s2" "switched ?e s2"
    "current s2 = (case next_in_order (threads ?e) (thread_count s) c of None \<Rightarrow> Some c | Some i \<Rightarrow> Some i)"
    "ctl = Returns \<longleftrightarrow> next_in_order (threads ?e) (thread_count s) c \<in> {None, Some c}"
    by (rule thread_yield_total[OF t, of ra]) (simp add: e)
  have s2: "s' = s2" using y y2(1) by (cases ctl) (simp_all add: yield_in_def)
  have dead: "thread_status (threads s' ! c) = THREAD_DEAD" using switchedD(9)[OF y2(3), of c] st[of c] s2 by simp
  have run: "runnable (threads s') i \<longleftrightarrow> i \<noteq> c \<and> runnable (threads s) i" for i
    using switchedD(9)[OF y2(3), of i] st[of i] s2 by (simp add: runnable_def)
  have rune: "runnable (threads ?e) i \<longleftrightarrow> i \<noteq> c \<and> runnable (threads s) i" for i
    using st[of i] by (simp add: runnable_def)
  show ?thesis
  proof (cases "\<exists>i<thread_count s. i \<noteq> c \<and> runnable (threads s) i")
    case True
    then obtain d where d: "next_in_order (threads ?e) (thread_count s) c = Some d"
      using next_in_order_None[OF c, of "threads ?e"] rune by (cases "next_in_order (threads ?e) (thread_count s) c") auto
    have "runnable (threads ?e) d" by (rule next_in_order_cases[OF d c])
    then have "d \<noteq> c" "runnable (threads s') d" using rune run by auto
    moreover have "current s' = Some d" using y2(4) s2 e d by simp
    moreover have "\<exists>rip. r = SysSwitch rip PendExit"
      using y y2(1) y2(5) e(2) d \<open>d \<noteq> c\<close> by (cases ctl) (auto simp: yield_in_def)
    ultimately show ?thesis using True dead by (auto simp: syscall_resume_def)
  next
    case False
    then have "next_in_order (threads ?e) (thread_count s) c = None"
      using next_in_order_None[OF c, of "threads ?e"] rune by auto
    then have "r = SysHalt" using y y2(1) y2(5) e(2) by (cases ctl) (auto simp: yield_in_def)
    with False dead show ?thesis by auto
  qed
qed

section \<open>Concrete inputs\<close>

theorem syscall_init_gate_witness:
  "gate_dpl (idt (syscall_init example_image bss_idt) ! 128) = 3 \<and> idt (syscall_init example_image bss_idt) ! 14 = idt bss_idt ! 14"
proof -
  have "length (idt bss_idt) = IDT_ENTRIES" by (simp add: bss_idt_def pit_state.defs)
  from syscall_init_gate[OF this, of example_image] show ?thesis by simp
qed


lemma example_wait: "wait_ok (example_threads\<lparr>port_count := n\<rparr>)"
proof -
  have "thread_status (threads example_threads ! t) \<noteq> THREAD_BLOCKED" if "t < 2" for t
    using that by (auto simp: example_threads_def bss_thread_def nth_Cons split: nat.split)
  moreover have "queue (example_threads\<lparr>port_count := n\<rparr>) p = queue example_threads p" for p
    by (simp add: queue_def queue_idx_def)
  ultimately show ?thesis by (auto simp: wait_ok_def example_fields example_ipc(2,3) MAX_PORTS_def empty_port_def)
qed

definition example_blocked :: thread_state where
  "example_blocked = blocked_on 0 0 (example_threads\<lparr>port_count := 1\<rparr>)"

lemma example_blocked_inv: "wait_inv (example_blocked, [0 \<mapsto> PendRecv 0 0x7000])"
proof -
  let ?s = "example_threads\<lparr>port_count := 1\<rparr>"
  have "thread_inv ?s" by (rule thread_inv_frame[OF ipc_invD(1)[OF example_ipc(1)]]) simp_all
  then have i: "ipc_inv ?s" "queue ?s 0 = []"
    using ipc_inv_no_messages(1)[of ?s] ipc_inv_no_messages(2)[of ?s 0] by (simp_all add: example_fields MAX_PORTS_def MAX_MESSAGES_def)
  have c: "current ?s = Some 0" "blocked_thread (ports ?s ! 0) = None" by (simp_all add: example_fields empty_port_def)
  have "ipc_inv example_blocked" "wait_ok example_blocked"
    using blocked_on_ok(1)[OF i(1) _ i(2) c(1)] wait_ok_blocked_on[OF i(1) example_wait _ c]
    by (simp_all add: example_blocked_def MAX_PORTS_def)
  then show ?thesis
    by (simp add: wait_inv_def sys_inv_def pend_ok_def MAX_PORTS_def) (simp add: example_blocked_def blocked_on_def)
qed

lemma example_blocked_fields:
  "blocked_thread (ports example_blocked ! 0) = Some 0" "thread_status (threads example_blocked ! 0) = THREAD_BLOCKED"
  "thread_count example_blocked = 2"
  by (simp_all add: example_blocked_def blocked_on_def example_fields) (simp add: example_threads_def)




theorem syscall_errors_witness:
  "syscall_handler paging_mmu 0 (SYS_SEND, 17, 0, 0, 0, 0, 0) example_threads = Some (SysReturn (- 1), example_threads)"
  using syscall_errors[of SYS_SEND paging_mmu 0 17 0 0 0 0 0 example_threads] by simp

theorem thread_exit_never_returns_witness:
  "\<exists>r s' rip. syscall_handler paging_mmu 0 (SYS_THREAD_EXIT, 0, 0, 0, 0, 0, 0) example_threads = Some (r, s') \<and>
     thread_status (threads s' ! 0) = THREAD_DEAD \<and> r = SysSwitch rip PendExit"
proof -
  obtain r s' where h: "syscall_handler paging_mmu 0 (SYS_THREAD_EXIT, 0, 0, 0, 0, 0, 0) example_threads = Some (r, s')"
    using syscall_handler_ok[OF example_ipc(1)] by metis
  have "\<exists>i<thread_count example_threads. i \<noteq> 0 \<and> runnable (threads example_threads) i"
    by (intro exI[of _ 1]) (simp add: example_fields example_fields(7)[simplified])
  with thread_exit_never_returns[OF example_ipc(1) _ h, of 0] h show ?thesis by (auto simp: example_fields)
qed

end
