(* ===== verification/Vmm_Map.thy ===== *)
theory Vmm_Map
  imports Vmm
begin

text \<open>
  What \<open>vmm_map_page\<close> and \<open>vmm_unmap_page\<close> do to the page walk. Each of the three calls of
  \<open>get_or_create_table\<close> is one step of the relation \<open>levels\<close>, which keeps the tree of tables
  well-formed and changes no leaf; the entry written at the end then changes exactly one
  page.
\<close>

unbundle bit_operations_syntax

section \<open>One level of the mapping loop\<close>

lemma entry_to_phys_frame:
  assumes "aligned q" "unat q < 2 ^ 52"
  shows "entry_to_phys q = q"
proof (rule bit_word_eqI)
  fix n
  have "unat (take_bit 12 q) = take_bit 12 (unat q)" by (rule unsigned_take_bit_eq)
  also have "\<dots> = 0" using assms(1) by (simp add: take_bit_eq_mod)
  finally have low: "take_bit 12 q = 0" by (simp add: unat_eq_0)
  have "unat (take_bit 52 q) = take_bit 52 (unat q)" by (rule unsigned_take_bit_eq)
  also have "\<dots> = unat q" using assms(2) by (rule take_bit_nat_eq_self)
  finally have high: "take_bit 52 q = q" by (rule word_unat_eq_iff[THEN iffD2])
  have "bit q n \<Longrightarrow> 12 \<le> n \<and> n < 52"
    using bit_take_bit_iff[of 12 q n] bit_take_bit_iff[of 52 q n] low high by auto
  then show "bit (entry_to_phys q) n = bit q n" by (auto simp: bit_entry_to_phys)
qed

lemma fold_kstore_frame:
  "\<exists>m. fold (\<lambda>i. kstore64 (a i) (v i)) is s = s\<lparr>phys_mem := m\<rparr>"
proof (induction "is" arbitrary: s)
  case Nil
  show ?case by (rule exI[of _ "phys_mem s"]) simp
next
  case (Cons i "is")
  obtain m where "fold (\<lambda>i. kstore64 (a i) (v i)) is (kstore64 (a i) (v i) s) = (kstore64 (a i) (v i) s)\<lparr>phys_mem := m\<rparr>"
    using Cons.IH by blast
  moreover have "(kstore64 (a i) (v i) s)\<lparr>phys_mem := m\<rparr> = s\<lparr>phys_mem := m\<rparr>" by (simp add: kstore64_def)
  ultimately show ?case by (intro exI[of _ m]) simp
qed

lemma clear_table_frame: "\<exists>m. clear_table t s = s\<lparr>phys_mem := m\<rparr>"
  unfolding clear_table_def by (rule fold_kstore_frame)

text \<open>What an operation that only allocates and writes tables may change.\<close>

definition alloc_only :: "'z pmm_state_scheme \<Rightarrow> 'z pmm_state_scheme \<Rightarrow> bool" where
  "alloc_only s s' \<longleftrightarrow> s' = s\<lparr>console := console s', phys_mem := phys_mem s',
     page_stack_top := page_stack_top s', free_pages := free_pages s'\<rparr>"

lemma alloc_onlyE:
  assumes "alloc_only s s'"
  obtains con m n f where "s' = s\<lparr>console := con, phys_mem := m, page_stack_top := n, free_pages := f\<rparr>"
  using assms unfolding alloc_only_def by blast

lemma alloc_only_refl: "alloc_only s s"
  by (simp add: alloc_only_def)

lemma alloc_only_trans: "alloc_only s t \<Longrightarrow> alloc_only t u \<Longrightarrow> alloc_only s u"
  by (elim alloc_onlyE) (simp add: alloc_only_def)

lemma alloc_only_mem: "alloc_only s t \<Longrightarrow> alloc_only s (t\<lparr>phys_mem := m\<rparr>)"
  by (elim alloc_onlyE) (simp add: alloc_only_def)

lemma alloc_only_alloc: "alloc_only s (snd (pmm_alloc_page s))"
  by (simp add: alloc_only_def pmm_alloc_page_def Let_def)

lemma alloc_only_clear: "alloc_only s t \<Longrightarrow> alloc_only s (clear_table a t)"
  using clear_table_frame[of a t] alloc_only_mem by metis

lemma alloc_only_goc: "alloc_only s (snd (get_or_create_table e f s))"
  unfolding get_or_create_table_def kstore64_def
  by (simp add: Let_def case_prod_beta alloc_only_mem alloc_only_clear alloc_only_alloc alloc_only_refl)

lemma alloc_only_fields:
  assumes "alloc_only s s'"
  shows "hhdm_offset s' = hhdm_offset s" "cr3_reg s' = cr3_reg s" "if_flag s' = if_flag s"
    "io_log s' = io_log s" "total_pages s' = total_pages s" "page_stack s' = page_stack s"
  using assms by (auto elim: alloc_onlyE)

lemma alloc_only_vmm:
  assumes "alloc_only s s'"
  shows "kas_pml4 s' = kas_pml4 s" "kas_cr3 s' = kas_cr3 s" "tlb_log s' = tlb_log s"
  using assms by (auto elim: alloc_onlyE)

lemmas goc_frame = alloc_only_fields[OF alloc_only_goc] alloc_only_vmm[OF alloc_only_goc]

text \<open>
  What holds of an address space with root table \<open>root\<close>, together with the allocator.
\<close>

definition vm_inv :: "'z pmm_state_scheme \<Rightarrow> u64 \<Rightarrow> bool" where
  "vm_inv s root \<longleftrightarrow> pmm_inv s \<and> (\<forall>p\<in>set (free_list s). frame_ok (hhdm_offset s) p)
     \<and> pt_wf (hhdm_offset s) (phys_mem s) root (set (free_list s))"

abbreviation table_flags :: "u64 \<Rightarrow> u64" where
  "table_flags flags \<equiv> PAGE_PRESENT OR PAGE_WRITE OR (flags AND PAGE_USER)"

lemma goc_present:
  assumes "hhdm_covers (hhdm_offset s) t" "aligned t" "i < 512" "bit (pte (phys_mem s) t i) 0"
  shows "get_or_create_table (entry_at (phys_to_virt (hhdm_offset s) t) i) fl s =
     (phys_to_virt (hhdm_offset s) (entry_to_phys (pte (phys_mem s) t i)),
      s\<lparr>phys_mem := store64 (phys_mem s) (entry_at t i) (pte (phys_mem s) t i OR (fl AND PAGE_USER))\<rparr>)"
proof -
  let ?v = "pte (phys_mem s) t i OR (fl AND PAGE_USER)"
  let ?s = "s\<lparr>phys_mem := store64 (phys_mem s) (entry_at t i) ?v\<rparr>"
  have "kload64 (entry_at (phys_to_virt (hhdm_offset s) t) i) ?s = ?v"
    using kload_entry[of ?s t i] assms pte_store[OF assms(2,2,3,3)] by simp
  moreover have "entry_to_phys ?v = entry_to_phys (pte (phys_mem s) t i)"
    by (rule entry_to_phys_or) (simp add: bit_simps bit_page_flags)
  ultimately show ?thesis using assms
    by (simp add: get_or_create_table_def kload_entry kstore_entry page_flag_bits Let_def)
qed

lemma goc_full:
  assumes "hhdm_covers (hhdm_offset s) t" "i < 512" "\<not> bit (pte (phys_mem s) t i) 0" "free_list s = []"
  shows "get_or_create_table (entry_at (phys_to_virt (hhdm_offset s) t) i) fl s =
     (0, serial_print ''PMM: Error: Out of memory!\<newline>'' s)"
  using assms by (simp add: get_or_create_table_def kload_entry page_flag_bits pmm_alloc_empty)

lemma vm_invD:
  assumes "vm_inv s root"
  shows "pmm_inv s" "pt_wf (hhdm_offset s) (phys_mem s) root (set (free_list s))"
    and "p \<in> set (free_list s) \<Longrightarrow> frame_ok (hhdm_offset s) p"
  using assms by (auto simp: vm_inv_def)

lemma goc_absent:
  assumes t: "frame_ok (hhdm_offset s) t" "i < 512" "\<not> bit (pte (phys_mem s) t i) 0"
    and ne: "free_list s \<noteq> []" and q: "q = last (free_list s)" "frame_ok (hhdm_offset s) q" "t \<noteq> q"
    and r: "get_or_create_table (entry_at (phys_to_virt (hhdm_offset s) t) i) fl s = (r, s')"
  shows "r = phys_to_virt (hhdm_offset s) q" "free_list s' = butlast (free_list s)"
    and "pmm_inv s \<Longrightarrow> pmm_inv s'"
    and "aligned u \<Longrightarrow> j < 512 \<Longrightarrow> pte (phys_mem s') u j =
       (if u = t \<and> j = i then q OR fl else if u = q then 0 else pte (phys_mem s) u j)"
proof -
  let ?h = "hhdm_offset s" and ?s1 = "snd (pmm_alloc_page s)"
  note a = alloc_nonempty[OF ne]
  have q0: "q \<noteq> 0" "fst (pmm_alloc_page s) = q" using q(1,2) by (simp_all add: a(1) frame_ok_def)
  have h1: "hhdm_offset ?s1 = ?h" by (simp add: a(1))
  have m1: "phys_mem ?s1 = store_bytes (phys_mem s) q (replicate 4096 0)"
    using q by (simp add: a(1) kcopy_direct_map frame_ok_def)
  obtain m2 where m2: "clear_table (phys_to_virt ?h q) ?s1 = ?s1\<lparr>phys_mem := m2\<rparr>"
    "\<And>u j. aligned u \<Longrightarrow> j < 512 \<Longrightarrow> pte m2 u j = (if u = q then 0 else pte (phys_mem ?s1) u j)"
    using clear_table_view[of ?s1 q] q(2) h1 by metis
  let ?s' = "?s1\<lparr>phys_mem := store64 m2 (entry_at t i) (q OR fl)\<rparr>"
  have "kstore64 (entry_at (phys_to_virt ?h t) i) (q OR fl) (?s1\<lparr>phys_mem := m2\<rparr>) = ?s'"
    using kstore_entry[of "?s1\<lparr>phys_mem := m2\<rparr>" t i] t h1 by (simp add: frame_ok_def)
  then have "get_or_create_table (entry_at (phys_to_virt ?h t) i) fl s = (phys_to_virt ?h q, ?s')"
    using t q0 m2(1) h1 frame_okD(2)[OF t(1)]
    by (simp add: get_or_create_table_def kload_entry page_flag_bits case_prod_beta)
  with r have *: "r = phys_to_virt ?h q" "s' = ?s'" by simp_all
  show "r = phys_to_virt ?h q" by (rule *(1))
  show "free_list s' = butlast (free_list s)" using a(2) by (simp add: *(2) free_list_def)
  show "pmm_inv s \<Longrightarrow> pmm_inv s'"
    using pmm_alloc_invariant[of s] by (simp add: *(2) pmm_inv_def free_list_def)
  show "aligned u \<Longrightarrow> j < 512 \<Longrightarrow> pte (phys_mem s') u j =
       (if u = t \<and> j = i then q OR fl else if u = q then 0 else pte (phys_mem s) u j)"
    using pte_store[OF frame_okD(1)[OF t(1)], of u i j m2] t(2) m2(2)[of u j]
      pte_fill[OF frame_okD(1)[OF q(2)], of u j "phys_mem s"] m1
    by (auto simp: *(2))
qed

text \<open>
  What one level of the loop achieves, with \<open>c\<close> the table at the end of the longer path:
  the tree stays well-formed, no leaf changes, the entry allows user access when asked to,
  and outside the free pages only that entry changes.
\<close>

definition level_done ::
    "u64 \<Rightarrow> u64 list \<Rightarrow> u64 \<Rightarrow> u64 \<Rightarrow> u64 \<Rightarrow> 'z pmm_state_scheme \<Rightarrow> 'z pmm_state_scheme \<Rightarrow> u64 \<Rightarrow> bool" where
  "level_done root p0 t i f s s' c \<longleftrightarrow>
     vm_inv s' root \<and> hhdm_offset s' = hhdm_offset s \<and> table_at (phys_mem s') root (p0 @ [i]) = Some c
   \<and> set (free_list s') \<subseteq> set (free_list s) \<and> length (free_list s) \<le> Suc (length (free_list s'))
   \<and> (\<forall>is. length is = 4 \<longrightarrow> (\<forall>j\<in>set is. j < 512) \<longrightarrow> leaf (phys_mem s') root is = leaf (phys_mem s) root is)
   \<and> entry_update (set (free_list s)) (phys_mem s) (phys_mem s') t i
       (if bit (pte (phys_mem s) t i) 0 then pte (phys_mem s) t i OR (f AND PAGE_USER) else c OR table_flags f)
   \<and> (\<forall>p. path p \<longrightarrow> table_at (phys_mem s') root p =
       (if \<not> bit (pte (phys_mem s) t i) 0 \<and> p = p0 @ [i] then Some c else table_at (phys_mem s) root p))
   \<and> (if bit (pte (phys_mem s) t i) 0
      then subtable (phys_mem s) t i = Some c \<and> c \<notin> set (free_list s)
      else c \<in> set (free_list s) \<and> c \<notin> set (free_list s') \<and> (\<forall>j<512. pte (phys_mem s') c j = 0))"

lemma goc_level_present:
  assumes inv: "vm_inv s root" and p0: "path p0" "length p0 < 3" "table_at (phys_mem s) root p0 = Some t" "i < 512"
    and e: "bit (pte (phys_mem s) t i) 0" "\<not> bit (pte (phys_mem s) t i) 7"
    and r: "get_or_create_table (entry_at (phys_to_virt (hhdm_offset s) t) i) (table_flags f) s = (r, s')"
  shows "\<exists>c. r = phys_to_virt (hhdm_offset s) c \<and> frame_ok (hhdm_offset s) c \<and> level_done root p0 t i f s s' c"
proof -
  let ?h = "hhdm_offset s" and ?m = "phys_mem s" and ?av = "set (free_list s)"
  let ?c = "entry_to_phys (pte ?m t i)" and ?v = "pte ?m t i OR (f AND PAGE_USER)"
  note wf = vm_invD(2)[OF inv]
  note t = pt_wfD[OF wf p0(1,3)]
  have uf: "table_flags f AND PAGE_USER = f AND PAGE_USER"
    by (rule bit_word_eqI) (auto simp: bit_simps bit_page_flags)
  have eq: "r = phys_to_virt ?h ?c" "s' = s\<lparr>phys_mem := store64 ?m (entry_at t i) ?v\<rparr>"
    using goc_present[OF frame_okD(2)[OF t(1)] t(2) p0(4) e(1), of "table_flags f"] r uf by simp_all
  have upd: "entry_update ?av ?m (phys_mem s') t i ?v"
    using pte_store[OF t(2)] p0(4) by (simp add: entry_update_def eq(2))
  have sub: "subtable ?m t i = Some ?c" using e by (simp add: subtable_def)
  note u = user_bit_update[OF wf p0 sub upd]
  have "path (p0 @ [i])" using p0 by auto
  then have c: "frame_ok ?h ?c" "?c \<notin> ?av" using pt_wfD(1,3)[OF u(1) _ u(2)] by auto
  have fl: "free_list s' = free_list s" by (simp add: eq(2) free_list_def)
  have inv': "vm_inv s' root" using inv u(1) fl by (simp add: vm_inv_def pmm_inv_def eq(2))
  have "level_done root p0 t i f s s' ?c"
    unfolding level_done_def using inv' u(2,3,4) fl upd sub c(2) e(1) by (simp add: eq(2))
  with eq(1) c(1) show ?thesis by blast
qed

lemma goc_level_absent:
  assumes inv: "vm_inv s root" and p0: "path p0" "length p0 < 3" "table_at (phys_mem s) root p0 = Some t" "i < 512"
    and e: "\<not> bit (pte (phys_mem s) t i) 0" and ne: "free_list s \<noteq> []"
    and r: "get_or_create_table (entry_at (phys_to_virt (hhdm_offset s) t) i) (table_flags f) s = (r, s')"
  shows "\<exists>c. r = phys_to_virt (hhdm_offset s) c \<and> frame_ok (hhdm_offset s) c \<and> level_done root p0 t i f s s' c"
proof -
  let ?h = "hhdm_offset s" and ?m = "phys_mem s" and ?av = "set (free_list s)"
  note wf = vm_invD(2)[OF inv]
  note t = pt_wfD[OF wf p0(1,3)]
  define q where q: "q = last (free_list s)"
  let ?v = "q OR table_flags f"
  have qav: "q \<in> ?av" using ne q by simp
  have qok: "frame_ok ?h q" "t \<noteq> q" using vm_invD(3)[OF inv qav] t(3) qav by auto
  note g = goc_absent[OF t(1) p0(4) e ne q qok r]
  have h': "hhdm_offset s' = ?h" using goc_frame(1)[of "entry_at (phys_to_virt ?h t) i" "table_flags f" s] r by simp
  have upd: "entry_update ?av ?m (phys_mem s') t i ?v"
    using g(4) qav by (auto simp: entry_update_def)
  have q7: "entry_to_phys q = q" using qok(1) by (simp add: frame_ok_def entry_to_phys_frame)
  then have "\<not> bit q 7" using bit_entry_to_phys[of q 7] by simp
  then have v: "bit ?v 0" "\<not> bit ?v 7" by (simp_all add: bit_simps bit_page_flags)
  have v2: "entry_to_phys ?v = q"
    using q7 entry_to_phys_or[of "table_flags f" q] by (simp add: bit_simps bit_page_flags)
  have zero: "pte (phys_mem s') q j = 0" if "j < 512" for j
    using g(4)[OF frame_okD(1)[OF qok(1)] that] qok(2) by simp
  note n = new_table_update[OF wf p0 e upd v v2 qav qok(1) zero]
  have "distinct (free_list s)" using vm_invD(1)[OF inv] by (simp add: pmm_inv_def)
  moreover have split: "free_list s = free_list s' @ [q]" using g(2) ne q by simp
  ultimately have av': "set (free_list s') = ?av - {q}" by auto
  have inv': "vm_inv s' root"
    unfolding vm_inv_def h' av' using g(3)[OF vm_invD(1)[OF inv]] vm_invD(3)[OF inv] n(1) by blast
  have len: "length (free_list s) = Suc (length (free_list s'))" by (simp add: split)
  have leaf: "\<forall>is. length is = 4 \<longrightarrow> (\<forall>j\<in>set is. j < 512) \<longrightarrow> leaf (phys_mem s') root is = leaf ?m root is"
    using n(4) by blast
  have "level_done root p0 t i f s s' q"
    unfolding level_done_def using inv' h' n(2,3) av' len leaf upd e qav zero by simp
  with g(1) qok(1) show ?thesis by blast
qed

text \<open>One level: it runs out of memory, or it is done.\<close>

lemma goc_level:
  assumes inv: "vm_inv s root" and p0: "path p0" "length p0 < 3" "table_at (phys_mem s) root p0 = Some t" "i < 512"
    and small: "bit (pte (phys_mem s) t i) 0 \<Longrightarrow> \<not> bit (pte (phys_mem s) t i) 7"
    and r: "get_or_create_table (entry_at (phys_to_virt (hhdm_offset s) t) i) (table_flags f) s = (r, s')"
  obtains (full) "r = 0" "free_list s = []" "s' = serial_print ''PMM: Error: Out of memory!\<newline>'' s"
  | (table) c where "r = phys_to_virt (hhdm_offset s) c" "r \<noteq> 0" "level_done root p0 t i f s s' c"
proof (cases "bit (pte (phys_mem s) t i) 0")
  case True
  with goc_level_present[OF inv p0 True small r] table phys_to_virt_not_null show thesis by blast
next
  case False
  show thesis
  proof (cases "free_list s = []")
    case True
    have "hhdm_covers (hhdm_offset s) t" using pt_wfD(1)[OF vm_invD(2)[OF inv] p0(1,3)] by (rule frame_okD)
    from goc_full[OF this p0(4) False True] r True show thesis by (intro full) simp_all
  next
    case ne: False
    with goc_level_absent[OF inv p0 False ne r] table phys_to_virt_not_null show thesis by blast
  qed
qed

section \<open>Consequences of a level\<close>

lemma level_doneD:
  assumes "level_done root p0 t i f s s' c"
  shows "vm_inv s' root" "hhdm_offset s' = hhdm_offset s" "table_at (phys_mem s') root (p0 @ [i]) = Some c"
    and "set (free_list s') \<subseteq> set (free_list s)" "length (free_list s) \<le> Suc (length (free_list s'))"
    and "length is = 4 \<Longrightarrow> \<forall>j\<in>set is. j < 512 \<Longrightarrow> leaf (phys_mem s') root is = leaf (phys_mem s) root is"
    and "entry_update (set (free_list s)) (phys_mem s) (phys_mem s') t i
       (if bit (pte (phys_mem s) t i) 0 then pte (phys_mem s) t i OR (f AND PAGE_USER) else c OR table_flags f)"
    and "path p \<Longrightarrow> table_at (phys_mem s') root p =
       (if \<not> bit (pte (phys_mem s) t i) 0 \<and> p = p0 @ [i] then Some c else table_at (phys_mem s) root p)"
    and "\<not> bit (pte (phys_mem s) t i) 0 \<Longrightarrow> c \<in> set (free_list s) \<and> c \<notin> set (free_list s')
       \<and> (\<forall>j<512. pte (phys_mem s') c j = 0)"
  using assms by (simp_all add: level_done_def)

lemma path_entries_append:
  "table_at m t p = Some u \<Longrightarrow> path_entries m t (p @ q) = path_entries m t p @ path_entries m u q"
  by (induction p arbitrary: t) (auto simp: subtable_def Let_def split: Option.bind_splits if_splits)

text \<open>The new entry on the path; it allows what was asked for and what was allowed before.\<close>

lemma level_entries:
  assumes "vm_inv s root" "path p0" "table_at (phys_mem s) root p0 = Some t" "i < 512"
    "level_done root p0 t i f s s' c"
  obtains v where "path_entries (phys_mem s') root (p0 @ [i]) = path_entries (phys_mem s) root p0 @ [v]"
    "bit f 2 \<Longrightarrow> bit v 2" "(bit (pte (phys_mem s) t i) 0 \<Longrightarrow> bit (pte (phys_mem s) t i) 1) \<Longrightarrow> bit v 1"
proof -
  let ?v = "if bit (pte (phys_mem s) t i) 0 then pte (phys_mem s) t i OR (f AND PAGE_USER) else c OR table_flags f"
  note wf = vm_invD(2)[OF assms(1)] and upd = level_doneD(7)[OF assms(5)]
  note here = table_at_update_here[OF wf assms(2,3) upd assms(4)]
  have "\<not> prefix (p0 @ [i]) p0" by (auto dest: prefix_length_le)
  then have "path_entries (phys_mem s') root p0 = path_entries (phys_mem s) root p0"
    using path_entries_update_other[OF wf assms(2,3) upd, of "[]" p0 root] assms(2,3) by simp
  moreover have "pte (phys_mem s') t i = ?v"
    using entry_update_pte[OF upd pt_wfD(2,3)[OF wf assms(2,3)] assms(4)] by simp
  ultimately have "path_entries (phys_mem s') root (p0 @ [i]) = path_entries (phys_mem s) root p0 @ [?v]"
    by (simp add: path_entries_append[OF here(1)])
  then show thesis by (rule that) (auto simp: bit_simps bit_page_flags)
qed

text \<open>The tables that are on the way already allow writing.\<close>

definition rw_path :: "memory \<Rightarrow> u64 \<Rightarrow> u64 list \<Rightarrow> u64 list \<Rightarrow> bool" where
  "rw_path m root p r \<longleftrightarrow> (\<forall>q j r' t. r = q @ j # r' \<longrightarrow> r' \<noteq> [] \<longrightarrow> table_at m root (p @ q) = Some t \<longrightarrow>
     bit (pte m t j) 0 \<longrightarrow> bit (pte m t j) 1)"

lemma rw_path_head:
  assumes "rw_path m root p (i # r)" "r \<noteq> []" "table_at m root p = Some t" "bit (pte m t i) 0"
  shows "bit (pte m t i) 1"
  using assms unfolding rw_path_def by (metis append_Nil append_Nil2)

lemma level_rw_path:
  assumes inv: "vm_inv s root" and p0: "path p0" "length p0 < 3" "table_at (phys_mem s) root p0 = Some t" "i < 512"
    and lv: "level_done root p0 t i f s s' c" and rw: "rw_path (phys_mem s) root p0 (i # r)"
    and r: "length (p0 @ i # r) = 4" "\<forall>j\<in>set r. j < 512"
  shows "rw_path (phys_mem s') root (p0 @ [i]) r"
  unfolding rw_path_def
proof (intro allI impI)
  fix q j r' u
  assume a: "r = q @ j # r'" "r' \<noteq> []" "table_at (phys_mem s') root ((p0 @ [i]) @ q) = Some u"
    "bit (pte (phys_mem s') u j) 0"
  have p: "path ((p0 @ [i]) @ q)" "j < 512"
    using p0 r a(1,2) by (auto simp: le_Suc_eq)
  note tab = level_doneD(8)[OF lv p(1)] and wf = vm_invD(2)[OF inv]
  have new: "table_at (phys_mem s) root ((p0 @ [i]) @ q) = Some u"
  proof (cases "\<not> bit (pte (phys_mem s) t i) 0 \<and> (p0 @ [i]) @ q = p0 @ [i]")
    case True
    with a(3) tab have "u = c" by simp
    with level_doneD(9)[OF lv] True p(2) a(4) show ?thesis by simp
  next
    case False
    with tab a(3) show ?thesis by (simp split: if_splits)
  qed
  note u = pt_wfD[OF wf p(1) new]
  have "u \<noteq> t" using u(4)[OF p0(1)] p0(3) by auto
  with entry_update_pte[OF level_doneD(7)[OF lv] u(2,3) p(2)]
  have "pte (phys_mem s') u j = pte (phys_mem s) u j" by simp
  moreover have "bit (pte (phys_mem s) u j) 0 \<longrightarrow> bit (pte (phys_mem s) u j) 1"
    using rw[unfolded rw_path_def, rule_format, of "i # q" j r' u] a(1,2) new by simp
  ultimately show "bit (pte (phys_mem s') u j) 1" using a(4) by simp
qed

text \<open>A tree that does not contain the changed page.\<close>

lemma foreign_page:
  assumes wf: "pt_wf h m root av" and same: "\<And>u j. aligned u \<Longrightarrow> u \<notin> av \<Longrightarrow> u \<noteq> t \<Longrightarrow> j < 512 \<Longrightarrow> pte m' u j = pte m u j"
    and foreign: "\<And>p. path p \<Longrightarrow> table_at m root p \<noteq> Some t"
  shows "path p \<Longrightarrow> table_at m' root p = table_at m root p" "pt_wf h m' root av"
    and "length is = 4 \<Longrightarrow> \<forall>j\<in>set is. j < 512 \<Longrightarrow> walk m' root is = walk m root is"
proof -
  have pte: "pte m' u j = pte m u j" if "path p" "table_at m root p = Some u" "j < 512" for p u j
    using same[OF pt_wfD(2,3)[OF wf that(1,2)] _ that(3)] foreign[OF that(1)] that(2) by auto
  have tabs: "table_at m' root p = table_at m root p" if "path p" for p
    using that
  proof (induction p rule: rev_induct)
    case (snoc j p)
    then have p: "path p" "j < 512" by auto
    with snoc.IH pte[of p _ j] show ?case
      by (cases "table_at m root p") (simp_all add: table_at_snoc subtable_def)
  qed simp
  then show "path p \<Longrightarrow> table_at m' root p = table_at m root p" .
  show "pt_wf h m' root av" using pte[of "[]" root] by (intro pt_wf_cong[OF wf tabs]) auto
  have "walk m' u r = walk m u r"
    if "length (p @ r) = 4" "\<forall>j\<in>set (p @ r). j < 512" "table_at m root p = Some u" for p r u
    using that
  proof (induction r arbitrary: p u)
    case (Cons j r)
    have "path p" "j < 512" using Cons.prems(1,2) by auto
    note e = pte[OF this(1) Cons.prems(3) this(2)]
    have "walk m' w r = walk m w r" if "subtable m u j = Some w" for w
      using Cons.IH[of "p @ [j]" w] Cons.prems that by (simp add: table_at_snoc)
    then show ?case using e by (auto simp: subtable_def Let_def)
  qed simp
  from this[of "[]" "is" root]
  show "length is = 4 \<Longrightarrow> \<forall>j\<in>set is. j < 512 \<Longrightarrow> walk m' root is = walk m root is" by simp
qed

lemma foreign_update:
  assumes "pt_wf h m root av" "entry_update av m m' t i v" "\<And>p. path p \<Longrightarrow> table_at m root p \<noteq> Some t"
  shows "path p \<Longrightarrow> table_at m' root p = table_at m root p" "pt_wf h m' root av"
    and "length is = 4 \<Longrightarrow> \<forall>j\<in>set is. j < 512 \<Longrightarrow> walk m' root is = walk m root is"
proof -
  have "pte m' u j = pte m u j" if "aligned u" "u \<notin> av" "u \<noteq> t" "j < 512" for u j
    using entry_update_pte[OF assms(2) that(1,2,4)] that(3) by simp
  note f = foreign_page[OF assms(1) this assms(3)]
  show "path p \<Longrightarrow> table_at m' root p = table_at m root p" "pt_wf h m' root av"
    "length is = 4 \<Longrightarrow> \<forall>j\<in>set is. j < 512 \<Longrightarrow> walk m' root is = walk m root is"
    by (rule f; assumption)+
qed

section \<open>The mapping loop\<close>

inductive levels :: "u64 \<Rightarrow> u64 \<Rightarrow> 'z pmm_state_scheme \<Rightarrow> u64 list \<Rightarrow> 'z pmm_state_scheme \<Rightarrow> bool"
  for root f s where
  top: "levels root f s [] s"
| level: "levels root f s p s1 \<Longrightarrow> table_at (phys_mem s1) root p = Some t \<Longrightarrow> length p < 3 \<Longrightarrow> i < 512 \<Longrightarrow>
    level_done root p t i f s1 s2 c \<Longrightarrow> levels root f s (p @ [i]) s2"

lemma levels_props:
  assumes "levels root f s p s'" "vm_inv s root"
  shows "vm_inv s' root \<and> hhdm_offset s' = hhdm_offset s \<and> path p \<and> table_at (phys_mem s') root p \<noteq> None
     \<and> set (free_list s') \<subseteq> set (free_list s) \<and> length (free_list s) \<le> length p + length (free_list s')
     \<and> (\<forall>is. length is = 4 \<longrightarrow> (\<forall>j\<in>set is. j < 512) \<longrightarrow> leaf (phys_mem s') root is = leaf (phys_mem s) root is)
     \<and> (bit f 2 \<longrightarrow> (\<forall>e\<in>set (path_entries (phys_mem s') root p). bit e 2))"
  using assms
proof (induction rule: levels.induct)
  case (level p s1 t i s2 c)
  have IH: "vm_inv s1 root" "path p" "bit f 2 \<longrightarrow> (\<forall>e\<in>set (path_entries (phys_mem s1) root p). bit e 2)"
    using level.IH level.prems by blast+
  obtain v where v: "path_entries (phys_mem s2) root (p @ [i]) = path_entries (phys_mem s1) root p @ [v]"
    "bit f 2 \<Longrightarrow> bit v 2"
    using level_entries[OF IH(1,2) level.hyps(2,4,5)] by metis
  have "path (p @ [i])" using IH(2) level.hyps(3,4) by auto
  then show ?case using level.IH level.prems level_doneD(1-6)[OF level.hyps(5)] v IH(3) by fastforce
qed simp

text \<open>Every table was there before or is a page that was free.\<close>

lemma levels_tables:
  assumes "levels root f s p s'" "vm_inv s root" "path q" "table_at (phys_mem s') root q = Some u"
  shows "table_at (phys_mem s) root q = Some u \<or> u \<in> set (free_list s)"
  using assms
proof (induction arbitrary: u rule: levels.induct)
  case (level p s1 t i s2 c)
  have sub: "set (free_list s1) \<subseteq> set (free_list s)" using levels_props[OF level.hyps(1) level.prems(1)] by blast
  note tab = level_doneD(8)[OF level.hyps(5) level.prems(2)]
  show ?case
  proof (cases "\<not> bit (pte (phys_mem s1) t i) 0 \<and> q = p @ [i]")
    case True
    then have "u \<in> set (free_list s1)"
      using tab level_doneD(9)[OF level.hyps(5)] level.prems(3) by simp
    with sub show ?thesis by blast
  next
    case False
    then have "table_at (phys_mem s1) root q = Some u" using tab level.prems(3) by (simp only: if_False)
    with level.IH[OF level.prems(1,2)] show ?thesis .
  qed
qed simp

lemma levels_rw:
  assumes "levels root f s p s'" "vm_inv s root" "length (p @ r) = 4" "\<forall>j\<in>set r. j < 512"
    "rw_path (phys_mem s) root [] (p @ r)"
  shows "rw_path (phys_mem s') root p r \<and> (\<forall>e\<in>set (path_entries (phys_mem s') root p). bit e 1)"
  using assms
proof (induction arbitrary: r rule: levels.induct)
  case (level p s1 t i s2 c)
  have P: "vm_inv s1 root" "path p" using levels_props[OF level.hyps(1) level.prems(1)] by blast+
  have IH: "rw_path (phys_mem s1) root p (i # r)" "\<forall>e\<in>set (path_entries (phys_mem s1) root p). bit e 1"
    using level.IH[of "i # r"] level.prems level.hyps(4) by auto
  have r: "r \<noteq> []" using level.prems(2) level.hyps(3) by auto
  obtain v where v: "path_entries (phys_mem s2) root (p @ [i]) = path_entries (phys_mem s1) root p @ [v]"
    "(bit (pte (phys_mem s1) t i) 0 \<Longrightarrow> bit (pte (phys_mem s1) t i) 1) \<Longrightarrow> bit v 1"
    using level_entries[OF P level.hyps(2,4,5)] by metis
  have "bit v 1" using v(2) rw_path_head[OF IH(1) r level.hyps(2)] by blast
  moreover have "rw_path (phys_mem s2) root (p @ [i]) r"
    using level_rw_path[OF P(1,2) level.hyps(3,2,4,5) IH(1)] level.prems(2,3) by simp
  ultimately show ?case using v(1) IH(2) by simp
qed simp

lemma levels_small:
  assumes lv: "levels root f s p s1" and inv: "vm_inv s root" and t: "table_at (phys_mem s1) root p = Some t"
    and "is": "is = p @ i # r" "length is = 4" "\<forall>j\<in>set is. j < 512"
    and large: "\<And>es. walk (phys_mem s) root is = Some es \<Longrightarrow> length p + 1 < length es"
    and e: "bit (pte (phys_mem s1) t i) 0"
  shows "\<not> bit (pte (phys_mem s1) t i) 7"
proof
  assume h: "bit (pte (phys_mem s1) t i) 7"
  note P = levels_props[OF lv inv]
  show False
  proof (cases "p = []")
    case True
    with P t "is" e h show False
      using pt_wf_root(4)[OF vm_invD(2), of s1 root i] by simp
  next
    case False
    then have "length r \<noteq> 3" using "is" by (cases p) auto
    then have "leaf (phys_mem s1) root is = Some (pte (phys_mem s1) t i, length p + 1)"
      using leaf_through[OF t, of "i # r"] "is" e h by (auto simp: Let_def)
    moreover have "leaf (phys_mem s1) root is = leaf (phys_mem s) root is" using P "is" by blast
    ultimately obtain es where "walk (phys_mem s) root is = Some es" "length es = length p + 1"
      by auto
    with large show False by fastforce
  qed
qed

text \<open>Where \<open>vmm_map_page\<close> puts the entry: the number of tables above it and the size of the page.\<close>

definition map_depth :: "u64 \<Rightarrow> u64 \<Rightarrow> nat" where
  "map_depth v flags = (if \<not> bit flags 7 then 3 else if pd_index v = 0 \<and> pt_index v = 0 then 1 else 2)"

definition map_shift :: "u64 \<Rightarrow> u64 \<Rightarrow> nat" where
  "map_shift v flags = 12 + 9 * (3 - map_depth v flags)"

lemma index_less:
  "pml4_index v < 512" "pdpt_index v < 512" "pd_index v < 512" "pt_index v < 512"
proof -
  have *: "(x AND 0x1FF :: u64) < 512" for x :: u64
  proof -
    have "x AND 0x1FF = take_bit 9 x" by (simp add: take_bit_eq_mask mask_eq_exp_minus_1)
    moreover have "unat (take_bit 9 x) = take_bit 9 (unat x)" by (rule unsigned_take_bit_eq)
    moreover have "take_bit 9 (unat x) < 2 ^ 9" by (rule take_bit_nat_less_exp)
    ultimately show ?thesis by (simp add: word_less_nat_alt)
  qed
  show "pml4_index v < 512" "pdpt_index v < 512" "pd_index v < 512" "pt_index v < 512"
    by (simp_all only: pml4_index_def pdpt_index_def pd_index_def pt_index_def *)
qed

lemma indices_ok [simp]: "length (indices v) = 4" "\<forall>j\<in>set (indices v). j < 512"
  by (simp_all add: indices_def index_less)

lemma levels_next:
  assumes lv: "levels root f s p s1" and inv: "vm_inv s root" and t: "table_at (phys_mem s1) root p = Some t"
    and "is": "is = p @ i # r" "length is = 4" "\<forall>j\<in>set is. j < 512" "length p < 3"
    and large: "\<And>es. walk (phys_mem s) root is = Some es \<Longrightarrow> length p + 1 < length es"
    and g: "get_or_create_table (entry_at (phys_to_virt (hhdm_offset s) t) i) (table_flags f) s1 = (x, s2)"
  shows "(x = 0 \<and> free_list s1 = [] \<and> s2 = serial_print ''PMM: Error: Out of memory!\<newline>'' s1)
     \<or> (\<exists>c. x = phys_to_virt (hhdm_offset s) c \<and> x \<noteq> 0 \<and> levels root f s (p @ [i]) s2
          \<and> table_at (phys_mem s2) root (p @ [i]) = Some c)"
proof -
  have P: "vm_inv s1 root" "path p" "hhdm_offset s1 = hhdm_offset s" using levels_props[OF lv inv] by blast+
  have i: "i < 512" using "is" by simp
  note small = levels_small[OF lv inv t "is"(1-3) large]
  note lev = goc_level[OF P(1,2) "is"(4) t i small g[folded P(3)]]
  show ?thesis
  proof (rule lev)
    fix c assume c: "x = phys_to_virt (hhdm_offset s1) c" "x \<noteq> 0" "level_done root p t i f s1 s2 c"
    show ?thesis using c(1,2) levels.level[OF lv t "is"(4) i c(3)] level_doneD(3)[OF c(3)] P(3) by simp
  qed blast+
qed

lemma levels_store:
  assumes "levels root f s p s1" "vm_inv s root" "table_at (phys_mem s1) root p = Some t" "i < 512"
  shows "kstore64 (entry_at (phys_to_virt (hhdm_offset s) t) i) e s1
    = s1\<lparr>phys_mem := store64 (phys_mem s1) (entry_at t i) e\<rparr>"
proof -
  have "hhdm_offset s1 = hhdm_offset s" "frame_ok (hhdm_offset s) t"
    using levels_props[OF assms(1,2)] pt_wfD(1)[OF vm_invD(2), of s1 root p t] assms(3) by auto
  with kstore_entry[of s1 t i] assms(4) show ?thesis by (simp add: frame_ok_def)
qed

abbreviation oom :: "'z machine_scheme \<Rightarrow> 'z machine_scheme" where
  "oom s \<equiv> serial_print ''PMM: Error: Out of memory!\<newline>'' s"

lemma map_level:
  assumes lv: "levels root flags s (take n (indices v)) s1" and inv: "vm_inv s root"
    and t: "table_at (phys_mem s1) root (take n (indices v)) = Some t"
    and large: "\<And>es. page_walk (phys_mem s) root v = Some es \<Longrightarrow> map_depth v flags < length es"
    and n: "n < map_depth v flags"
    and g: "get_or_create_table (entry_at (phys_to_virt (hhdm_offset s) t) (indices v ! n)) (table_flags flags) s1 = (x, s2)"
  shows "(x = 0 \<and> free_list s1 = [] \<and> s2 = oom s1)
     \<or> (\<exists>c. x = phys_to_virt (hhdm_offset s) c \<and> x \<noteq> 0 \<and> levels root flags s (take (Suc n) (indices v)) s2
          \<and> table_at (phys_mem s2) root (take (Suc n) (indices v)) = Some c)"
proof -
  have n3: "n < 3" "map_depth v flags \<le> 3" using n by (auto simp: map_depth_def split: if_splits)
  then have split: "indices v = take n (indices v) @ indices v ! n # drop (Suc n) (indices v)"
    by (simp add: id_take_nth_drop[symmetric])
  have l: "length (take n (indices v)) + 1 < length es" if "walk (phys_mem s) root (indices v) = Some es" for es
    using large[of es] that n n3 by (simp add: page_walk_def)
  have "length (take n (indices v)) < 3" using n3 by simp
  from levels_next[OF lv inv t split indices_ok this l g] n3 show ?thesis
    by (simp add: take_Suc_conv_app_nth)
qed

lemma map_page_run:
  assumes "as \<noteq> NullAS" "as_pml4 as s = p4" "p4 \<noteq> 0"
    and "get_or_create_table (entry_at p4 (pml4_index v)) (table_flags flags) s = (x1, s1)"
    and "get_or_create_table (entry_at x1 (pdpt_index v)) (table_flags flags) s1 = (x2, s2)"
    and "get_or_create_table (entry_at x2 (pd_index v)) (table_flags flags) s2 = (x3, s3)"
  shows "vmm_map_page as v phys flags s = (if x1 = 0 then (-1, s1)
      else if map_depth v flags = 1 then (0, kstore64 (entry_at x1 (pdpt_index v)) (phys OR flags) s1)
      else if x2 = 0 then (-1, s2)
      else if map_depth v flags = 2 then (0, kstore64 (entry_at x2 (pd_index v)) (phys OR flags) s2)
      else if x3 = 0 then (-1, s3)
      else (0, invlpg v (kstore64 (entry_at x3 (pt_index v)) (phys OR flags) s3)))"
  using assms by (simp add: vmm_map_page_def Let_def page_flag_bits map_depth_def)

text \<open>
  \<open>vmm_map_page\<close> runs out of pages on the way, or it writes the entry at its depth.
\<close>

lemma map_page_cases:
  assumes inv: "vm_inv s root" and as: "as \<noteq> NullAS" "as_pml4 as s = phys_to_virt (hhdm_offset s) root"
    and large: "\<And>es. page_walk (phys_mem s) root v = Some es \<Longrightarrow> map_depth v flags < length es"
    and r: "vmm_map_page as v phys flags s = (x, s')"
  obtains (full) n s1 where "x = -1" "levels root flags s (take n (indices v)) s1" "n < map_depth v flags"
      "free_list s1 = []" "s' = oom s1"
  | (mapped) s1 t where "x = 0" "levels root flags s (take (map_depth v flags) (indices v)) s1"
      "table_at (phys_mem s1) root (take (map_depth v flags) (indices v)) = Some t"
      "s' = (if bit flags 7 then id else invlpg v)
         (s1\<lparr>phys_mem := store64 (phys_mem s1) (entry_at t (indices v ! map_depth v flags)) (phys OR flags)\<rparr>)"
proof -
  let ?h = "hhdm_offset s" and ?d = "map_depth v flags" and ?f = "table_flags flags" and ?I = "\<lambda>n. take n (indices v)"
  have nz: "phys_to_virt ?h root \<noteq> 0"
    using pt_wf_root(1)[OF vm_invD(2)[OF inv]] by (rule phys_to_virt_not_null)
  obtain x1 s1 where g1: "get_or_create_table (entry_at (phys_to_virt ?h root) (pml4_index v)) ?f s = (x1, s1)" by force
  obtain x2 s2 where g2: "get_or_create_table (entry_at x1 (pdpt_index v)) ?f s1 = (x2, s2)" by force
  obtain x3 s3 where g3: "get_or_create_table (entry_at x2 (pd_index v)) ?f s2 = (x3, s3)" by force
  note run = r[unfolded map_page_run[OF as nz g1 g2 g3]]
  have step: "(y = 0 \<and> free_list u = [] \<and> u' = oom u) \<or> (\<exists>c. y = phys_to_virt ?h c \<and> y \<noteq> 0
      \<and> levels root flags s (?I (Suc n)) u' \<and> table_at (phys_mem u') root (?I (Suc n)) = Some c)"
    if "levels root flags s (?I n) u" "table_at (phys_mem u) root (?I n) = Some t" "n < ?d"
      "get_or_create_table (entry_at (phys_to_virt ?h t) (indices v ! n)) ?f u = (y, u')" for n u t y u'
    using that(1) inv that(2) large that(3,4) by (rule map_level)
  have i: "indices v ! 0 = pml4_index v" "indices v ! 1 = pdpt_index v" "indices v ! 2 = pd_index v"
    "indices v ! 3 = pt_index v" by (simp_all add: indices_def)
  have d: "?d = 1 \<or> ?d = 2 \<or> ?d = 3" "bit flags 7 \<longleftrightarrow> ?d \<noteq> 3" by (simp_all add: map_depth_def)
  then have "0 < ?d" by auto
  have c1: "(x1 = 0 \<and> free_list s = [] \<and> s1 = oom s) \<or> (\<exists>c. x1 = phys_to_virt ?h c \<and> x1 \<noteq> 0
      \<and> levels root flags s (?I 1) s1 \<and> table_at (phys_mem s1) root (?I 1) = Some c)"
    using step[of 0 s root x1 s1] g1 levels.top[of root flags s] \<open>0 < ?d\<close> by (simp add: i)
  have c2: "(x2 = 0 \<and> free_list s1 = [] \<and> s2 = oom s1) \<or> (\<exists>c. x2 = phys_to_virt ?h c \<and> x2 \<noteq> 0
      \<and> levels root flags s (?I 2) s2 \<and> table_at (phys_mem s2) root (?I 2) = Some c)"
    if "x1 \<noteq> 0" "1 < ?d"
    using step[of 1 s1 _ x2 s2] c1 g2 that by (auto simp only: i Suc_1)
  have c3: "(x3 = 0 \<and> free_list s2 = [] \<and> s3 = oom s2) \<or> (\<exists>c. x3 = phys_to_virt ?h c \<and> x3 \<noteq> 0
      \<and> levels root flags s (?I 3) s3 \<and> table_at (phys_mem s3) root (?I 3) = Some c)"
    if "x1 \<noteq> 0" "x2 \<noteq> 0" "2 < ?d"
  proof -
    have "Suc 2 = 3" "1 < ?d" using that by simp_all
    with step[of 2 s2 _ x3 s3] c2 g3 that show ?thesis by (auto simp only: i)
  qed
  have fin: thesis
    if "levels root flags s (?I ?d) u" "table_at (phys_mem u) root (?I ?d) = Some c" "x = 0"
      "s' = (if bit flags 7 then id else invlpg v) (kstore64 (entry_at (phys_to_virt ?h c) (indices v ! ?d)) (phys OR flags) u)"
    for u c
  proof -
    have "indices v ! ?d < 512" using d(1) by (auto simp: indices_def index_less numeral_3_eq_3)
    from levels_store[OF that(1) inv that(2) this] that show thesis by (intro mapped) simp_all
  qed
  have full': thesis if "levels root flags s (?I n) u" "n < ?d" "free_list u = []" "s' = oom u" "x = -1" for n u
    using that(5,1-4) by (rule full)
  consider "x1 = 0" | "x1 \<noteq> 0" "?d = 1" | "x1 \<noteq> 0" "1 < ?d" "x2 = 0" | "x1 \<noteq> 0" "?d = 2" "x2 \<noteq> 0"
    | "x1 \<noteq> 0" "?d = 3" "x2 \<noteq> 0" "x3 = 0" | "x1 \<noteq> 0" "?d = 3" "x2 \<noteq> 0" "x3 \<noteq> 0"
    using d(1) by fastforce
  then show thesis
  proof cases
    case 1
    with c1 run d(1) show thesis by (intro full'[of 0 s]) (auto simp: levels.top)
  next
    case 2
    with c1 run d(2) show thesis by (auto intro!: fin simp: i[unfolded One_nat_def])
  next
    case 3
    with c1 c2 run show thesis by (intro full'[of 1 s1]) auto
  next
    case 4
    with c2 run d(2) show thesis by (auto intro!: fin simp: i)
  next
    case 5
    with c2 c3 run show thesis by (intro full'[of 2 s2]) auto
  next
    case 6
    with c3 run d(2) show thesis by (auto intro!: fin simp: i)
  qed
qed

section \<open>Pages\<close>

definition same_page :: "nat \<Rightarrow> u64 \<Rightarrow> u64 \<Rightarrow> bool" where
  "same_page sh v w \<longleftrightarrow> drop_bit sh (take_bit 48 v) = drop_bit sh (take_bit 48 w)"

text \<open>The entry that maps a virtual address, and the size of its page.\<close>

definition page_leaf :: "memory \<Rightarrow> u64 \<Rightarrow> u64 \<Rightarrow> (u64 \<times> nat) option" where
  "page_leaf m root v = map_option (\<lambda>es. (last es, page_shift es)) (page_walk m root v)"

lemma page_leaf_leaf:
  "page_leaf m root v = map_option (\<lambda>(e, n). (e, 12 + 9 * (4 - n))) (leaf m root (indices v))"
  by (simp add: page_leaf_def page_walk_def page_shift_def option.map_comp comp_def)

lemma translate_leaf:
  "translate m root v = map_option (\<lambda>(e, sh). push_bit sh (drop_bit sh (entry_to_phys e)) OR take_bit sh v)
     (page_leaf m root v)"
  by (simp add: translate_def page_leaf_def option.map_comp comp_def)

abbreviation same_bits :: "nat \<Rightarrow> nat \<Rightarrow> u64 \<Rightarrow> u64 \<Rightarrow> bool" where
  "same_bits a b v w \<equiv> \<forall>n. a \<le> n \<and> n < b \<longrightarrow> bit v n = bit w n"

lemma same_bits_shift: "same_bits k (k + l) v w \<longleftrightarrow> (\<forall>n<l. bit v (k + n) = bit w (k + n))"
  by (metis add_less_cancel_left le_add1 le_add_diff_inverse)

lemma same_bits_join:
  assumes "a \<le> b" "b \<le> c"
  shows "same_bits b c v w \<and> same_bits a b v w \<longleftrightarrow> same_bits a c v w"
  using assms by (meson le_less_trans less_le_trans not_le)

lemma word_eq_bits: "(x :: u64) = y \<longleftrightarrow> (\<forall>n. bit x n = bit y n)"
  by (auto intro: bit_word_eqI)

lemma index_eq_iff:
  "drop_bit k v AND 0x1FF = drop_bit k w AND 0x1FF \<longleftrightarrow> same_bits k (k + 9) v w"
proof -
  have *: "(0x1FF :: u64) = mask 9" by (simp add: mask_eq_exp_minus_1)
  have b: "bit (drop_bit k x AND 0x1FF) n \<longleftrightarrow> n < 9 \<and> bit x (k + n)" for x :: u64 and n
    unfolding * by (auto simp: bit_simps)
  have "drop_bit k v AND 0x1FF = drop_bit k w AND 0x1FF \<longleftrightarrow> (\<forall>n<9. bit v (k + n) = bit w (k + n))"
    unfolding word_eq_bits b by auto
  then show ?thesis by (simp only: same_bits_shift)
qed

lemma same_page_iff:
  assumes "sh \<le> 48"
  shows "same_page sh v w \<longleftrightarrow> same_bits sh 48 v w"
proof -
  have b: "bit (drop_bit sh (take_bit 48 x)) n \<longleftrightarrow> n < 48 - sh \<and> bit x (sh + n)" for x :: u64 and n
    by (auto simp: bit_simps)
  have "same_page sh v w \<longleftrightarrow> (\<forall>n<48 - sh. bit v (sh + n) = bit w (sh + n))"
    unfolding same_page_def word_eq_bits b by auto
  with assms show ?thesis using same_bits_shift[of sh "48 - sh" v w] by simp
qed

lemma indices_same_page:
  assumes "d = 1 \<or> d = 2 \<or> d = 3"
  shows "prefix (take (Suc d) (indices v)) (indices w) \<longleftrightarrow> same_page (12 + 9 * (3 - d)) v w"
proof -
  have e: "pml4_index v = pml4_index w \<longleftrightarrow> same_bits 39 48 v w" "pdpt_index v = pdpt_index w \<longleftrightarrow> same_bits 30 39 v w"
    "pd_index v = pd_index w \<longleftrightarrow> same_bits 21 30 v w" "pt_index v = pt_index w \<longleftrightarrow> same_bits 12 21 v w"
    by (simp_all only: pml4_index_def pdpt_index_def pd_index_def pt_index_def index_eq_iff add_numeral_left numeral_plus_numeral semiring_norm)
  have p: "prefix (take 2 (indices v)) (indices w) \<longleftrightarrow> same_bits 30 48 v w"
    "prefix (take 3 (indices v)) (indices w) \<longleftrightarrow> same_bits 21 48 v w"
    "prefix (take 4 (indices v)) (indices w) \<longleftrightarrow> same_bits 12 48 v w"
    using same_bits_join[of 30 39 48 v w] same_bits_join[of 21 30 48 v w] same_bits_join[of 12 21 48 v w]
    unfolding e[symmetric] by (simp_all add: indices_def) argo+
  from assms show ?thesis
  proof (elim disjE)
    assume "d = 1"
    with p(1) show ?thesis by (simp add: same_page_iff numeral_2_eq_2)
  next
    assume "d = 2"
    with p(2) show ?thesis by (simp add: same_page_iff)
  next
    assume "d = 3"
    with p(3) show ?thesis by (simp add: same_page_iff)
  qed
qed

lemma map_depth_cases: "map_depth v flags = 1 \<or> map_depth v flags = 2 \<or> map_depth v flags = 3"
  by (simp add: map_depth_def)

lemma take_depth:
  "take (map_depth v flags) (indices v) @ [indices v ! map_depth v flags] = take (Suc (map_depth v flags)) (indices v)"
  using map_depth_cases[of v flags] by (auto simp: indices_def numeral_3_eq_3 numeral_2_eq_2)

section \<open>What mapping a page does\<close>

lemma vm_inv_leaf_store:
  assumes inv: "vm_inv s root" and p0: "path p0" "p0 \<noteq> []" "table_at (phys_mem s) root p0 = Some t" "i < 512"
    and v: "length p0 < 3 \<longrightarrow> \<not> bit e 0 \<or> bit e 7"
    and s': "s' = s\<lparr>phys_mem := store64 (phys_mem s) (entry_at t i) e\<rparr>"
  shows "vm_inv s' root" "entry_update (set (free_list s)) (phys_mem s) (phys_mem s') t i e"
proof -
  note wf = vm_invD(2)[OF inv]
  have fl: "free_list s' = free_list s" by (simp add: s' free_list_def)
  show upd: "entry_update (set (free_list s)) (phys_mem s) (phys_mem s') t i e"
    using pte_store[OF pt_wfD(2)[OF wf p0(1,3)]] p0(4) by (simp add: entry_update_def s')
  show "vm_inv s' root"
    using inv leaf_update(1)[OF wf p0 v upd] fl by (simp add: vm_inv_def pmm_inv_def s')
qed

lemma invlpg_mem [simp]: "phys_mem (invlpg v s) = phys_mem s" "free_list (invlpg v s) = free_list s"
  by (simp_all add: invlpg_def free_list_def)

lemma invlpg_log: "tlb_log (invlpg v s) = Invlpg v # tlb_log s"
  by (simp add: invlpg_def)

lemma vm_inv_invlpg [simp]: "vm_inv (invlpg v s) root = vm_inv s root"
  by (simp add: vm_inv_def invlpg_def pmm_inv_def free_list_def)

lemma vm_inv_console [simp]: "vm_inv (s\<lparr>console := c\<rparr>) root = vm_inv s root"
  by (simp add: vm_inv_def pmm_inv_def free_list_def)

text \<open>The last step of a successful call: the entry is written at the end of the path.\<close>

lemma map_entry_written:
  assumes inv: "vm_inv s root" and lv: "levels root flags s (take (map_depth v flags) (indices v)) s1"
    and t: "table_at (phys_mem s1) root (take (map_depth v flags) (indices v)) = Some t"
    and e: "bit e 0" "bit flags 7 \<longrightarrow> bit e 7"
    and s2: "s2 = s1\<lparr>phys_mem := store64 (phys_mem s1) (entry_at t (indices v ! map_depth v flags)) e\<rparr>"
  shows "vm_inv s2 root"
    and "walk (phys_mem s2) root (indices w) = (if same_page (map_shift v flags) v w
       then Some (path_entries (phys_mem s1) root (take (map_depth v flags) (indices v)) @ [e])
       else walk (phys_mem s1) root (indices w))"
    and "page_leaf (phys_mem s2) root w = (if same_page (map_shift v flags) v w
       then Some (e, map_shift v flags) else page_leaf (phys_mem s) root w)"
    and "path p \<Longrightarrow> table_at (phys_mem s2) root p = Some u \<Longrightarrow> table_at (phys_mem s1) root p = Some u"
proof -
  let ?d = "map_depth v flags" let ?p = "take ?d (indices v)" and ?i = "indices v ! ?d"
  note P = levels_props[OF lv inv] and d = map_depth_cases[of v flags]
  have inv1: "vm_inv s1 root" and path: "path ?p" using P by blast+
  have p: "?p \<noteq> []" "length ?p = ?d" "?i < 512"
    using d by (auto simp: indices_def index_less numeral_3_eq_3 numeral_2_eq_2)
  have e': "length ?p < 3 \<longrightarrow> \<not> bit e 0 \<or> bit e 7"
    using p(2) e by (auto simp: map_depth_def split: if_splits)
  note st = vm_inv_leaf_store[OF inv1 path p(1) t p(3) e' s2]
  note upd = leaf_update[OF vm_invD(2)[OF inv1] path p(1) t p(3) e' st(2)]
  show "vm_inv s2 root" by (rule st)
  show "path p \<Longrightarrow> table_at (phys_mem s2) root p = Some u \<Longrightarrow> table_at (phys_mem s1) root p = Some u"
    using upd(2)[of p] by (auto split: if_splits)
  have same: "prefix (?p @ [?i]) (indices w) \<longleftrightarrow> same_page (map_shift v flags) v w"
    using indices_same_page[OF d] by (simp add: take_depth map_shift_def)
  show walk: "walk (phys_mem s2) root (indices w) = (if same_page (map_shift v flags) v w
       then Some (path_entries (phys_mem s1) root ?p @ [e]) else walk (phys_mem s1) root (indices w))"
    using upd(3,4)[of "indices w"] e(1) by (simp add: same)
  have "length (path_entries m u q) = length q" for m u q by (induction q arbitrary: u) simp_all
  then show "page_leaf (phys_mem s2) root w = (if same_page (map_shift v flags) v w
       then Some (e, map_shift v flags) else page_leaf (phys_mem s) root w)"
    using walk P p(2) by (simp add: page_leaf_leaf map_shift_def)
qed

lemma map_page_leaf:
  assumes inv: "vm_inv s root" and as: "as \<noteq> NullAS" "as_pml4 as s = phys_to_virt (hhdm_offset s) root"
    and large: "\<And>es. page_walk (phys_mem s) root v = Some es \<Longrightarrow> map_depth v flags < length es"
    and present: "bit flags 0"
    and r: "vmm_map_page as v phys flags s = (x, s')"
  obtains (nomem) "x = -1" "length (free_list s) < 3" "vm_inv s' root"
      "\<And>w. page_leaf (phys_mem s') root w = page_leaf (phys_mem s) root w"
  | (leaf) es where "x = 0" "vm_inv s' root"
      "\<And>w. page_leaf (phys_mem s') root w = (if same_page (map_shift v flags) v w
         then Some (phys OR flags, map_shift v flags) else page_leaf (phys_mem s) root w)"
      "page_walk (phys_mem s') root v = Some (es @ [phys OR flags])"
      "bit flags 2 \<Longrightarrow> \<forall>e\<in>set es. bit e 2"
      "rw_path (phys_mem s) root [] (indices v) \<Longrightarrow> \<forall>e\<in>set es. bit e 1"
      "\<And>p t. path p \<Longrightarrow> table_at (phys_mem s') root p = Some t \<Longrightarrow>
         table_at (phys_mem s) root p = Some t \<or> t \<in> set (free_list s)"
proof (rule map_page_cases[OF inv as _ r])
  fix es assume "page_walk (phys_mem s) root v = Some es"
  then show "map_depth v flags < length es" by (rule large)
next
  fix n s1
  assume 1: "x = -1" "levels root flags s (take n (indices v)) s1" "n < map_depth v flags" "free_list s1 = []" "s' = oom s1"
  note P = levels_props[OF 1(2) inv]
  have "length (free_list s) < 3" using P 1(3,4) map_depth_cases[of v flags] by auto
  with 1 P show thesis by (intro nomem) (simp_all add: page_leaf_leaf)
next
  fix s1 t
  let ?I = "take (map_depth v flags) (indices v)"
  assume 2: "x = 0" "levels root flags s ?I s1" "table_at (phys_mem s1) root ?I = Some t"
    "s' = (if bit flags 7 then id else invlpg v)
       (s1\<lparr>phys_mem := store64 (phys_mem s1) (entry_at t (indices v ! map_depth v flags)) (phys OR flags)\<rparr>)"
  note P = levels_props[OF 2(2) inv]
  have e: "bit (phys OR flags) 0" "bit flags 7 \<longrightarrow> bit (phys OR flags) 7" using present by (simp_all add: bit_simps)
  note w = map_entry_written[OF inv 2(2,3) e refl]
  have "page_walk (phys_mem s') root v = Some (path_entries (phys_mem s1) root ?I @ [phys OR flags])"
    using w(2)[of v] 2(4) by (auto simp: page_walk_def same_page_def invlpg_def)
  moreover have "\<forall>j\<in>set (drop (map_depth v flags) (indices v)). j < 512"
    using indices_ok(2)[of v] by (blast dest: in_set_dropD)
  then have "rw_path (phys_mem s) root [] (indices v) \<Longrightarrow> \<forall>e\<in>set (path_entries (phys_mem s1) root ?I). bit e 1"
    using levels_rw[OF 2(2) inv, of "drop (map_depth v flags) (indices v)"] by simp
  moreover have "table_at (phys_mem s) root p = Some u \<or> u \<in> set (free_list s)"
    if "path p" "table_at (phys_mem s') root p = Some u" for p u
    using levels_tables[OF 2(2) inv that(1)] w(4)[OF that(1)] that(2) 2(4) by (auto split: if_splits)
  ultimately show thesis using 2(1,4) w(1,3) P
    by (intro leaf[of "path_entries (phys_mem s1) root ?I"]) auto
qed

lemma low_bits_clear:
  assumes "2 ^ k dvd unat (p :: u64)" "n < k"
  shows "\<not> bit p n"
proof -
  have "unat (take_bit k p) = take_bit k (unat p)" by (rule unsigned_take_bit_eq)
  also have "\<dots> = 0" using assms(1) by (simp add: take_bit_eq_mod)
  finally have "take_bit k p = 0" by (simp add: unat_eq_0)
  then have "\<not> bit (take_bit k p) n" by simp
  with assms(2) show ?thesis by (simp add: bit_take_bit_iff)
qed

lemma frame_of_entry:
  assumes "2 ^ sh dvd unat phys" "12 \<le> sh" "unat phys < 2 ^ 52" "\<forall>n. 12 \<le> n \<and> n < 52 \<longrightarrow> \<not> bit flags n"
  shows "push_bit sh (drop_bit sh (entry_to_phys (phys OR flags))) = phys"
    and "phys OR take_bit sh w = phys + take_bit sh w"
proof -
  have "(4096 :: nat) dvd 2 ^ sh" using le_imp_power_dvd[of 12 sh "2 :: nat"] assms(2) by simp
  then have "aligned phys" using assms(1) dvd_trans by blast
  then have "entry_to_phys (phys OR flags) = phys"
    using entry_to_phys_frame[of phys] entry_to_phys_or[of flags phys] assms(3,4) by simp
  moreover have "push_bit sh (drop_bit sh phys) = phys"
  proof (rule bit_word_eqI)
    fix n
    show "bit (push_bit sh (drop_bit sh phys)) n = bit phys n"
      using low_bits_clear[OF assms(1), of n] by (cases "n < sh") (auto simp: bit_simps dest: bit_imp_le_length)
  qed
  ultimately show "push_bit sh (drop_bit sh (entry_to_phys (phys OR flags))) = phys" by simp
  have "phys AND take_bit sh w = 0"
    by (rule bit_word_eqI) (use low_bits_clear[OF assms(1)] in \<open>auto simp: bit_simps\<close>)
  then show "phys OR take_bit sh w = phys + take_bit sh w" by (simp add: disjunctive_add_eq_or)
qed

text \<open>The addresses inside a page.\<close>

lemma page_offset:
  assumes "aligned v" "n < 4096"
  shows "same_page 12 v (v + of_nat n)" "take_bit 12 (v + of_nat n) = of_nat n" "indices (v + of_nat n) = indices v"
proof -
  have n: "take_bit 12 (of_nat n :: u64) = of_nat n"
    using assms(2) by (simp add: take_bit_of_nat take_bit_nat_eq_self)
  have or: "v + of_nat n = v OR of_nat n"
  proof -
    have "v AND take_bit 12 (of_nat n) = 0"
      by (rule bit_word_eqI) (use low_bits_clear[of 12 v] assms(1) in \<open>auto simp: bit_simps\<close>)
    then show ?thesis unfolding n by (simp add: disjunctive_add_eq_or)
  qed
  have hi: "\<not> bit (of_nat n :: u64) k" if "12 \<le> k" for k
    using that by (subst n[symmetric]) (simp add: bit_take_bit_iff)
  show same: "same_page 12 v (v + of_nat n)"
    unfolding same_page_iff[of 12, simplified] or by (simp add: bit_or_iff hi)
  have "bit (take_bit 12 (v OR of_nat n)) k = bit (of_nat n :: u64) k" for k
    using low_bits_clear[of 12 v k] hi[of k] assms(1) by (auto simp: bit_take_bit_iff bit_or_iff)
  then show "take_bit 12 (v + of_nat n) = of_nat n" unfolding or by (intro bit_word_eqI) simp
  show "indices (v + of_nat n) = indices v"
    using indices_same_page[of 3 v "v + of_nat n"] same by (auto simp: indices_def)
qed

lemma shift_depth:
  "page_shift es \<le> map_shift v flags \<longleftrightarrow> map_depth v flags < length es"
  using map_depth_cases[of v flags] by (auto simp: page_shift_def map_shift_def)

text \<open>
  C2. Mapping works: with three free pages and no larger page in the way, \<open>vmm_map_page\<close>
  returns 0, every address of the page then translates to the frame, every address outside
  keeps the entry it had, and the tables above allow user access when the flags ask for
  it, and write access when the tables that were there before do.
\<close>

theorem vmm_map_page_maps:
  assumes "vm_inv s root" "as \<noteq> NullAS" "as_pml4 as s = phys_to_virt (hhdm_offset s) root"
    and "\<forall>es. page_walk (phys_mem s) root v = Some es \<longrightarrow> page_shift es \<le> map_shift v flags"
    and "3 \<le> length (free_list s)" "bit flags 0" "\<forall>n. 12 \<le> n \<and> n < 52 \<longrightarrow> \<not> bit flags n"
    and "2 ^ map_shift v flags dvd unat phys" "unat phys < 2 ^ 52"
    and "vmm_map_page as v phys flags s = (r, s')"
  shows "r = 0 \<and> vm_inv s' root
    \<and> (\<forall>w. page_leaf (phys_mem s') root w = (if same_page (map_shift v flags) v w
         then Some (phys OR flags, map_shift v flags) else page_leaf (phys_mem s) root w))
    \<and> (\<forall>w. same_page (map_shift v flags) v w \<longrightarrow>
         translate (phys_mem s') root w = Some (phys + take_bit (map_shift v flags) w))
    \<and> (bit flags 2 \<longrightarrow> user_access (phys_mem s') root v)
    \<and> (bit flags 1 \<and> rw_path (phys_mem s) root [] (indices v) \<longrightarrow> write_access (phys_mem s') root v)"
proof (rule map_page_leaf[OF assms(1-3) _ assms(6,10)])
  fix es
  assume es: "r = 0" "vm_inv s' root" "page_walk (phys_mem s') root v = Some (es @ [phys OR flags])"
    "bit flags 2 \<Longrightarrow> \<forall>e\<in>set es. bit e 2" "rw_path (phys_mem s) root [] (indices v) \<Longrightarrow> \<forall>e\<in>set es. bit e 1"
    and leaf: "\<And>w. page_leaf (phys_mem s') root w = (if same_page (map_shift v flags) v w
         then Some (phys OR flags, map_shift v flags) else page_leaf (phys_mem s) root w)"
  have "translate (phys_mem s') root w = Some (phys + take_bit (map_shift v flags) w)"
    if "same_page (map_shift v flags) v w" for w
  proof -
    have "12 \<le> map_shift v flags" by (simp add: map_shift_def)
    note f = frame_of_entry[OF assms(8) this assms(9,7)]
    show ?thesis using f(1) f(2)[of w] leaf[of w] that by (simp add: translate_leaf)
  qed
  then show ?thesis using es leaf
    by (auto simp: user_access_def write_access_def list_all_iff bit_simps)
qed (use assms(4,5) shift_depth in auto)

section \<open>A first address space\<close>

lemma pte_zero_mem: "pte (\<lambda>_. 0) t i = 0"
proof -
  have "load_bytes (\<lambda>_. 0) a 8 = replicate 8 0" for a by (intro nth_equalityI) (simp_all add: nth_load_bytes)
  then show ?thesis by (simp only: pte_def load64_def word_of_zero_bytes)
qed

lemma pt_wf_empty:
  assumes "frame_ok h root" "root \<notin> av" "\<And>i. i < 512 \<Longrightarrow> pte m root i = 0"
  shows "pt_wf h m root av"
proof -
  have "table_at m root p = (if p = [] then Some root else None)" if "path p" for p
    using empty_table_walk(2)[of m root p] assms(3) that by auto
  then show ?thesis using assms by (simp add: pt_wf_def)
qed

text \<open>Three free pages and an empty root table at \<^verbatim>\<open>0x20000\<close>.\<close>

definition example_vmm :: vmm_state where
  "example_vmm = pmm_state.extend example_pmm
     \<lparr>kas_pml4 = 0xFFFF800000020000, kas_cr3 = 0x20000, tlb_log = []\<rparr>"

lemma example_vmm_fields:
  "phys_mem example_vmm = (\<lambda>_. 0)" "hhdm_offset example_vmm = 0xFFFF800000000000"
  "free_list example_vmm = [0x10000, 0x11000, 0x12000]"
proof -
  show "phys_mem example_vmm = (\<lambda>_. 0)" "hhdm_offset example_vmm = 0xFFFF800000000000"
    by (simp_all add: example_vmm_def pmm_state.defs example_pmm_def bss_pmm_def bss_idt_def bss_pit_def bss_gdt_def
        bss_machine_def idt_state.defs pit_state.defs gdt_state.defs machine.defs)
  have "free_list example_vmm = free_list example_pmm"
    by (rule free_list_cong) (simp_all add: example_vmm_def pmm_state.defs)
  then show "free_list example_vmm = [0x10000, 0x11000, 0x12000]" by (simp add: example_pmm_free)
qed

lemma example_vmm_inv: "vm_inv example_vmm 0x20000"
  unfolding vm_inv_def example_vmm_fields
proof (intro conjI)
  show "pmm_inv example_vmm"
    using example_pmm_inv unfolding pmm_inv_def example_vmm_fields example_pmm_free
    by (simp add: example_vmm_def pmm_state.defs)
  show "\<forall>p\<in>set [0x10000, 0x11000, 0x12000]. frame_ok 0xFFFF800000000000 p"
    by (simp add: frame_ok_def hhdm_covers_def)
  show "pt_wf 0xFFFF800000000000 (\<lambda>_. 0) 0x20000 (set [0x10000, 0x11000, 0x12000])"
    by (rule pt_wf_empty) (simp_all add: frame_ok_def hhdm_covers_def pte_zero_mem)
qed

lemma flags7: "bit (7 :: u64) n \<longleftrightarrow> n < 3"
proof -
  have *: "(7 :: u64) = mask 3" by (simp add: mask_eq_exp_minus_1)
  show ?thesis unfolding * by (auto simp: bit_mask_iff)
qed

theorem vmm_map_page_maps_witness:
  "\<exists>s'. vmm_map_page KernelAS 0x400000 0x200000 7 example_vmm = (0, s')
     \<and> translate (phys_mem s') 0x20000 0x400123 = Some 0x200123 \<and> user_access (phys_mem s') 0x20000 0x400000"
proof -
  obtain r s' where r: "vmm_map_page KernelAS 0x400000 0x200000 7 example_vmm = (r, s')" by force
  have sh: "map_shift 0x400000 7 = 12" by (simp add: map_shift_def map_depth_def flags7)
  have as: "KernelAS \<noteq> NullAS" "as_pml4 KernelAS example_vmm = phys_to_virt (hhdm_offset example_vmm) 0x20000"
    unfolding example_vmm_fields by (simp_all add: as_pml4_def example_vmm_def pmm_state.defs phys_to_virt_def)
  have walk: "\<forall>es. page_walk (phys_mem example_vmm) 0x20000 0x400000 = Some es \<longrightarrow> page_shift es \<le> map_shift 0x400000 7"
    unfolding example_vmm_fields by (simp add: page_walk_def indices_def pte_zero_mem)
  have flags: "bit (7 :: u64) 0" "\<forall>n. 12 \<le> n \<and> n < 52 \<longrightarrow> \<not> bit (7 :: u64) n" unfolding flags7 by auto
  have "3 \<le> length (free_list example_vmm)" unfolding example_vmm_fields by simp
  from vmm_map_page_maps[OF example_vmm_inv as walk this flags _ _ r, unfolded sh]
  have m: "r = 0" "same_page 12 0x400000 w \<longrightarrow> translate (phys_mem s') 0x20000 w = Some (0x200000 + take_bit 12 w)"
    "user_access (phys_mem s') 0x20000 0x400000" for w by (simp_all add: flags7)
  have "same_page 12 0x400000 0x400123" "take_bit 12 (0x400123 :: u64) = 0x123" by (simp_all add: same_page_def)
  with m(2)[of "0x400123"] have "translate (phys_mem s') 0x20000 0x400123 = Some 0x200123" by simp
  with r m(1,3) show ?thesis by blast
qed


lemma as_of_example: "as_pml4 KernelAS example_vmm = phys_to_virt 0xFFFF800000000000 0x20000"
  by (simp add: as_pml4_def example_vmm_def pmm_state.defs phys_to_virt_def)

definition example_full :: vmm_state where
  "example_full = example_vmm\<lparr>page_stack_top := 0, free_pages := 0\<rparr>"

lemma example_full_fields:
  "phys_mem example_full = (\<lambda>_. 0)" "hhdm_offset example_full = 0xFFFF800000000000" "free_list example_full = []"
  using example_vmm_fields by (simp_all add: example_full_def free_list_def)

lemma example_full_inv: "vm_inv example_full 0x20000"
  using pt_wf_mono[OF vm_invD(2)[OF example_vmm_inv], of "{}"]
  unfolding vm_inv_def example_full_fields example_vmm_fields
  by (simp add: pmm_inv_def example_full_fields) (simp add: example_full_def)


section \<open>What unmapping a page does\<close>

text \<open>The step that clears the entry at the end of the path of \<open>v\<close>.\<close>

lemma entry_cleared:
  assumes inv: "vm_inv s root" and d: "d = 1 \<or> d = 2 \<or> d = 3"
    and t: "table_at (phys_mem s) root (take d (indices v)) = Some t"
    and s': "s' = s\<lparr>phys_mem := store64 (phys_mem s) (entry_at t (indices v ! d)) 0\<rparr>"
  shows "vm_inv s' root"
    and "page_leaf (phys_mem s') root w = (if same_page (12 + 9 * (3 - d)) v w then None else page_leaf (phys_mem s) root w)"
proof -
  let ?p = "take d (indices v)" and ?i = "indices v ! d"
  have p: "path ?p" "?p \<noteq> []" "?i < 512" "?p @ [?i] = take (Suc d) (indices v)"
    using d by (auto simp: indices_def index_less numeral_3_eq_3 numeral_2_eq_2)
  note st = vm_inv_leaf_store[OF inv p(1,2) t p(3) _ s']
  show "vm_inv s' root" by (rule st) simp
  note upd = leaf_update(3,4)[OF vm_invD(2)[OF inv] p(1,2) t p(3) _ st(2), of "indices w"]
  show "page_leaf (phys_mem s') root w = (if same_page (12 + 9 * (3 - d)) v w then None else page_leaf (phys_mem s) root w)"
    using upd indices_same_page[OF d, of v w] by (simp add: p(4) page_leaf_leaf)
qed

lemma unmap_load:
  assumes "vm_inv s root" "path p" "table_at (phys_mem s) root p = Some t" "i < 512"
  shows "kload64 (entry_at (phys_to_virt (hhdm_offset s) t) i) s = pte (phys_mem s) t i"
    and "kstore64 (entry_at (phys_to_virt (hhdm_offset s) t) i) e s = s\<lparr>phys_mem := store64 (phys_mem s) (entry_at t i) e\<rparr>"
  using pt_wfD(1)[OF vm_invD(2)[OF assms(1)] assms(2,3)] assms(4) by (simp_all add: kload_entry kstore_entry frame_ok_def)

text \<open>The entries that \<open>vmm_unmap_page\<close> reads are those of the walk.\<close>

lemma unmap_run:
  fixes s :: "'z vmm_state_scheme"
  assumes inv: "vm_inv s root" and as: "as \<noteq> NullAS" "as_pml4 as s = phys_to_virt (hhdm_offset s) root"
    and e4: "e4 = pte (phys_mem s) root (pml4_index v)"
    and t3: "t3 = entry_to_phys e4" and e3: "e3 = pte (phys_mem s) t3 (pdpt_index v)"
    and t2: "t2 = entry_to_phys e3" and e2: "e2 = pte (phys_mem s) t2 (pd_index v)"
    and t1: "t1 = entry_to_phys e2"
  shows "bit e4 0 \<Longrightarrow> table_at (phys_mem s) root [pml4_index v] = Some t3"
    and "bit e4 0 \<Longrightarrow> bit e3 0 \<Longrightarrow> \<not> bit e3 7 \<Longrightarrow> table_at (phys_mem s) root [pml4_index v, pdpt_index v] = Some t2"
    and "bit e4 0 \<Longrightarrow> bit e3 0 \<Longrightarrow> \<not> bit e3 7 \<Longrightarrow> bit e2 0 \<Longrightarrow> \<not> bit e2 7 \<Longrightarrow>
      table_at (phys_mem s) root [pml4_index v, pdpt_index v, pd_index v] = Some t1"
    and "vmm_unmap_page as v s = (if \<not> bit e4 0 \<or> \<not> bit e3 0 then s
      else if bit e3 7 then invlpg v (s\<lparr>phys_mem := store64 (phys_mem s) (entry_at t3 (pdpt_index v)) 0\<rparr>)
      else if \<not> bit e2 0 then s
      else if bit e2 7 then invlpg v (s\<lparr>phys_mem := store64 (phys_mem s) (entry_at t2 (pd_index v)) 0\<rparr>)
      else invlpg v (s\<lparr>phys_mem := store64 (phys_mem s) (entry_at t1 (pt_index v)) 0\<rparr>))"
    and "page_walk (phys_mem s) root v = (if \<not> bit e4 0 \<or> \<not> bit e3 0 then None else if bit e3 7 then Some [e4, e3]
      else if \<not> bit e2 0 then None else if bit e2 7 then Some [e4, e3, e2]
      else if bit (pte (phys_mem s) t1 (pt_index v)) 0 then Some [e4, e3, e2, pte (phys_mem s) t1 (pt_index v)] else None)"
proof -
  let ?h = "hhdm_offset s" and ?m = "phys_mem s"
  note wf = vm_invD(2)[OF inv] and il = index_less[of v]
  have nz: "phys_to_virt ?h root \<noteq> 0" using pt_wf_root(1)[OF wf] by (rule phys_to_virt_not_null)
  have l4: "bit e4 0 \<Longrightarrow> \<not> bit e4 7" using pt_wf_root(4)[OF wf il(1)] e4 by simp
  show T3: "table_at ?m root [pml4_index v] = Some t3" if "bit e4 0"
    using that l4 by (simp add: subtable_def e4 t3)
  show T2: "table_at ?m root [pml4_index v, pdpt_index v] = Some t2" if "bit e4 0" "bit e3 0" "\<not> bit e3 7"
    using that T3[OF that(1)] table_at_snoc[of ?m root "[pml4_index v]" "pdpt_index v"]
    by (simp add: subtable_def e3 t2 del: table_at.simps(2))
  show T1: "table_at ?m root [pml4_index v, pdpt_index v, pd_index v] = Some t1"
    if "bit e4 0" "bit e3 0" "\<not> bit e3 7" "bit e2 0" "\<not> bit e2 7"
    using that T2[OF that(1-3)] table_at_snoc[of ?m root "[pml4_index v, pdpt_index v]" "pd_index v"]
    by (simp add: subtable_def e2 t1 del: table_at.simps(2))
  have k4: "kload64 (entry_at (phys_to_virt ?h root) (pml4_index v)) s = e4"
    using unmap_load(1)[OF inv, of "[]" root] il by (simp add: e4)
  have k3: "kload64 (entry_at (phys_to_virt ?h t3) (pdpt_index v)) s = e3"
    "kstore64 (entry_at (phys_to_virt ?h t3) (pdpt_index v)) 0 s = s\<lparr>phys_mem := store64 ?m (entry_at t3 (pdpt_index v)) 0\<rparr>"
    if "bit e4 0"
    using unmap_load[OF inv _ T3[OF that] il(2)] il by (simp_all add: e3)
  have k2: "kload64 (entry_at (phys_to_virt ?h t2) (pd_index v)) s = e2"
    "kstore64 (entry_at (phys_to_virt ?h t2) (pd_index v)) 0 s = s\<lparr>phys_mem := store64 ?m (entry_at t2 (pd_index v)) 0\<rparr>"
    if "bit e4 0" "bit e3 0" "\<not> bit e3 7"
    using unmap_load[OF inv _ T2[OF that] il(3)] il by (simp_all add: e2)
  have k1: "kstore64 (entry_at (phys_to_virt ?h t1) (pt_index v)) 0 s = s\<lparr>phys_mem := store64 ?m (entry_at t1 (pt_index v)) 0\<rparr>"
    if "bit e4 0" "bit e3 0" "\<not> bit e3 7" "bit e2 0" "\<not> bit e2 7"
    using unmap_load(2)[OF inv _ T1[OF that] il(4)] il by simp
  show "vmm_unmap_page as v s = (if \<not> bit e4 0 \<or> \<not> bit e3 0 then s
      else if bit e3 7 then invlpg v (s\<lparr>phys_mem := store64 ?m (entry_at t3 (pdpt_index v)) 0\<rparr>)
      else if \<not> bit e2 0 then s
      else if bit e2 7 then invlpg v (s\<lparr>phys_mem := store64 ?m (entry_at t2 (pd_index v)) 0\<rparr>)
      else invlpg v (s\<lparr>phys_mem := store64 ?m (entry_at t1 (pt_index v)) 0\<rparr>))"
    using as nz by (simp add: vmm_unmap_page_def page_flag_bits Let_def k4 t3[symmetric] k3 t2[symmetric] k2 t1[symmetric] k1 cong: if_cong)
  show "page_walk ?m root v = (if \<not> bit e4 0 \<or> \<not> bit e3 0 then None else if bit e3 7 then Some [e4, e3]
      else if \<not> bit e2 0 then None else if bit e2 7 then Some [e4, e3, e2]
      else if bit (pte ?m t1 (pt_index v)) 0 then Some [e4, e3, e2, pte ?m t1 (pt_index v)] else None)"
    using l4 by (simp add: page_walk_def indices_def Let_def e4 t3 e3 t2 e2 t1)
qed

text \<open>
  \<open>vmm_unmap_page\<close> finds the walk of \<open>v\<close> broken off above the last table, and does nothing,
  or it clears the entry that ends the walk.
\<close>

lemma unmap_cases:
  assumes inv: "vm_inv s root" and as: "as \<noteq> NullAS" "as_pml4 as s = phys_to_virt (hhdm_offset s) root"
  obtains (broken) "vmm_unmap_page as v s = s" "page_walk (phys_mem s) root v = None"
  | (clear) d t where "d = 1 \<or> d = 2 \<or> d = 3" "table_at (phys_mem s) root (take d (indices v)) = Some t"
      "vmm_unmap_page as v s = invlpg v (s\<lparr>phys_mem := store64 (phys_mem s) (entry_at t (indices v ! d)) 0\<rparr>)"
      "page_leaf (phys_mem s) root v = Some (pte (phys_mem s) t (indices v ! d), 12 + 9 * (3 - d))
         \<or> d = 3 \<and> page_leaf (phys_mem s) root v = None"
proof -
  let ?m = "phys_mem s"
  let ?e4 = "pte ?m root (pml4_index v)"
  let ?t3 = "entry_to_phys ?e4" let ?e3 = "pte ?m ?t3 (pdpt_index v)"
  let ?t2 = "entry_to_phys ?e3" let ?e2 = "pte ?m ?t2 (pd_index v)" let ?t1 = "entry_to_phys ?e2"
  note run = unmap_run[OF inv as refl refl refl refl refl refl, of v]
  consider "\<not> bit ?e4 0 \<or> \<not> bit ?e3 0 \<or> \<not> bit ?e3 7 \<and> \<not> bit ?e2 0" | "bit ?e4 0" "bit ?e3 0" "bit ?e3 7"
    | "bit ?e4 0" "bit ?e3 0" "\<not> bit ?e3 7" "bit ?e2 0" "bit ?e2 7"
    | "bit ?e4 0" "bit ?e3 0" "\<not> bit ?e3 7" "bit ?e2 0" "\<not> bit ?e2 7" by blast
  then show thesis
  proof cases
    case 1
    with run(4,5) show thesis by (intro broken) auto
  next
    case 2
    with run(1,4,5) show thesis
      by (intro clear[of 1 ?t3]) (simp_all add: indices_def page_leaf_def page_shift_def del: table_at.simps(2))
  next
    case 3
    with run(2,4,5) show thesis
      by (intro clear[of 2 ?t2]) (simp_all add: indices_def page_leaf_def page_shift_def del: table_at.simps(2))
  next
    case 4
    with run(3,4,5) show thesis
      by (intro clear[of 3 ?t1]) (simp_all add: indices_def page_leaf_def page_shift_def del: table_at.simps(2))
  qed
qed

text \<open>
  C32. Unmapping works: after \<open>vmm_unmap_page\<close> no address of the page that mapped \<open>v\<close>, of
  whatever size, is mapped; every other address keeps its entry, and if \<open>v\<close> was mapped, the
  translation cache has been told.
\<close>

theorem vmm_unmap_page_unmaps:
  assumes "vm_inv s root" "as \<noteq> NullAS" "as_pml4 as s = phys_to_virt (hhdm_offset s) root"
    and "sh = (case page_leaf (phys_mem s) root v of None \<Rightarrow> 12 | Some (e, k) \<Rightarrow> k)"
  shows "vm_inv (vmm_unmap_page as v s) root
    \<and> (\<forall>w. page_leaf (phys_mem (vmm_unmap_page as v s)) root w =
         (if same_page sh v w then None else page_leaf (phys_mem s) root w))
    \<and> (page_leaf (phys_mem s) root v \<noteq> None \<longrightarrow> tlb_log (vmm_unmap_page as v s) = Invlpg v # tlb_log s)"
proof (rule unmap_cases[OF assms(1-3), of v])
  assume b: "vmm_unmap_page as v s = s" "page_walk (phys_mem s) root v = None"
  have "page_leaf (phys_mem s) root w = None" if "same_page 12 v w" for w
  proof -
    have "indices v = indices w" using indices_same_page[of 3 v w] that by (simp add: indices_def)
    with b(2) show ?thesis by (simp add: page_leaf_def page_walk_def)
  qed
  with b assms(1,4) show ?thesis by (simp add: page_leaf_def)
next
  fix d t
  assume c: "d = 1 \<or> d = 2 \<or> d = 3" "table_at (phys_mem s) root (take d (indices v)) = Some t"
    "vmm_unmap_page as v s = invlpg v (s\<lparr>phys_mem := store64 (phys_mem s) (entry_at t (indices v ! d)) 0\<rparr>)"
    "page_leaf (phys_mem s) root v = Some (pte (phys_mem s) t (indices v ! d), 12 + 9 * (3 - d))
      \<or> d = 3 \<and> page_leaf (phys_mem s) root v = None"
  have "sh = 12 + 9 * (3 - d)" using c(4) assms(4) by auto
  with entry_cleared[OF assms(1) c(1,2) refl] c(3) show ?thesis by (simp add: invlpg_log)
qed

lemma kstore64_frame [frame_simps]:
  "hhdm_offset (kstore64 p v s) = hhdm_offset s" "cr3_reg (kstore64 p v s) = cr3_reg s"
  by (simp_all add: kstore64_def)

lemma kstore64_frame_vmm [frame_simps]:
  "kas_pml4 (kstore64 p v s) = kas_pml4 s" "kas_cr3 (kstore64 p v s) = kas_cr3 s" "tlb_log (kstore64 p v s) = tlb_log s"
  by (simp_all add: kstore64_def)

lemma map_frame:
  "hhdm_offset (snd (vmm_map_page as v p f s)) = hhdm_offset s"
  "kas_pml4 (snd (vmm_map_page as v p f s)) = kas_pml4 s"
  "kas_cr3 (snd (vmm_map_page as v p f s)) = kas_cr3 s"
  "cr3_reg (snd (vmm_map_page as v p f s)) = cr3_reg s"
  by (simp_all add: vmm_map_page_def Let_def case_prod_beta goc_frame frame_simps invlpg_def)

lemma map_frame_eq:
  assumes "vmm_map_page as v p f s = (r, s')"
  shows "hhdm_offset s' = hhdm_offset s" "kas_pml4 s' = kas_pml4 s" "kas_cr3 s' = kas_cr3 s" "cr3_reg s' = cr3_reg s"
  using map_frame[of as v p f s] assms by simp_all

theorem vmm_unmap_page_unmaps_witness:
  "\<exists>s. page_leaf (phys_mem s) 0x20000 0x400000 = Some (0x200000 OR 7, 12)
     \<and> page_leaf (phys_mem (vmm_unmap_page KernelAS 0x400123 s)) 0x20000 0x400000 = None
     \<and> tlb_log (vmm_unmap_page KernelAS 0x400123 s) = Invlpg 0x400123 # tlb_log (s :: vmm_state)"
proof -
  obtain r s where r: "vmm_map_page KernelAS 0x400000 0x200000 7 example_vmm = (r, s)" by force
  have sh: "map_shift 0x400000 7 = 12" by (simp add: map_shift_def map_depth_def flags7)
  have as: "KernelAS \<noteq> NullAS" "as_pml4 KernelAS example_vmm = phys_to_virt (hhdm_offset example_vmm) 0x20000"
    using as_of_example unfolding example_vmm_fields by simp_all
  have walk: "map_depth 0x400000 7 < length es" if "page_walk (phys_mem example_vmm) 0x20000 0x400000 = Some es" for es
    using that unfolding example_vmm_fields by (simp add: page_walk_def indices_def pte_zero_mem)
  have m: "vm_inv s 0x20000 \<and> (\<forall>w. page_leaf (phys_mem s) 0x20000 w = (if same_page 12 0x400000 w
      then Some (0x200000 OR 7, 12) else page_leaf (phys_mem example_vmm) 0x20000 w))"
    by (rule map_page_leaf[OF example_vmm_inv as _ _ r]) (use walk in \<open>simp_all add: sh flags7 example_vmm_fields\<close>)
  have as': "as_pml4 KernelAS s = phys_to_virt (hhdm_offset s) 0x20000"
    using as map_frame_eq[OF r] by (simp add: as_pml4_def)
  have same: "same_page 12 0x400000 0x400000" "same_page 12 0x400000 0x400123" "same_page 12 0x400123 0x400000"
    by (simp_all add: same_page_def)
  show ?thesis
    using vmm_unmap_page_unmaps[OF conjunct1[OF m] as(1) as' refl, of "0x400123"] m same by (intro exI[of _ s]) simp
qed

section \<open>A page under a larger page\<close>

lemma large_walk:
  assumes inv: "vm_inv s root" and w: "page_walk (phys_mem s) root v = Some [e4, e3, e2]"
  defines "t3 \<equiv> entry_to_phys e4" and "t2 \<equiv> entry_to_phys e3"
  shows "pte (phys_mem s) root (pml4_index v) = e4" "pte (phys_mem s) t3 (pdpt_index v) = e3"
    "pte (phys_mem s) t2 (pd_index v) = e2"
    and "bit e4 0" "\<not> bit e4 7" "bit e3 0" "\<not> bit e3 7" "bit e2 0" "bit e2 7"
    and "frame_ok (hhdm_offset s) root" "frame_ok (hhdm_offset s) t3" "frame_ok (hhdm_offset s) t2"
    and "t3 \<noteq> root" "t2 \<noteq> root" "t2 \<noteq> t3"
proof -
  note wf = vm_invD(2)[OF inv] and il = index_less[of v]
  show e: "pte (phys_mem s) root (pml4_index v) = e4" "pte (phys_mem s) t3 (pdpt_index v) = e3"
    "pte (phys_mem s) t2 (pd_index v) = e2" "bit e4 0" "\<not> bit e4 7" "bit e3 0" "\<not> bit e3 7" "bit e2 0" "bit e2 7"
    using w by (auto simp: page_walk_def indices_def Let_def t3_def t2_def split: if_splits)
  have t: "table_at (phys_mem s) root [pml4_index v] = Some t3"
    "table_at (phys_mem s) root [pml4_index v, pdpt_index v] = Some t2"
    using e by (simp_all add: subtable_def t3_def t2_def)
  have p: "path [pml4_index v]" "path [pml4_index v, pdpt_index v]" using il by simp_all
  note w3 = pt_wfD[OF wf p(1) t(1)] and w2 = pt_wfD[OF wf p(2) t(2)]
  show "frame_ok (hhdm_offset s) root" "frame_ok (hhdm_offset s) t3" "frame_ok (hhdm_offset s) t2"
    by (rule pt_wf_root(1)[OF wf] w3(1) w2(1))+
  show "t3 \<noteq> root" using w3(4)[of "[]"] by auto
  show "t2 \<noteq> root" using w2(4)[of "[]"] by auto
  show "t2 \<noteq> t3" using w2(4)[OF p(1)] t(1) by auto
qed

text \<open>
  C37. \<open>get_or_create_table\<close> does not look at the large page bit. When a 2 MiB page maps \<open>v\<close>,
  mapping a 4 KiB page at \<open>v\<close> takes the frame of the large page for a table: the call
  returns 0, overwrites eight bytes of the memory that the large page maps, and \<open>v\<close> is
  mapped by the large page as before.
\<close>

theorem vmm_map_page_corrupts_large_page:
  assumes "vm_inv s root" "as \<noteq> NullAS" "as_pml4 as s = phys_to_virt (hhdm_offset s) root"
    and "page_walk (phys_mem s) root v = Some [e4, e3, e2]"
    and "frame_ok (hhdm_offset s) (entry_to_phys e2)" "entry_to_phys e2 \<notin> {root, entry_to_phys e4, entry_to_phys e3}"
    and "\<not> bit flags 7" "vmm_map_page as v phys flags s = (r, s')"
  shows "r = 0 \<and> load64 (phys_mem s') (entry_to_phys e2 + 8 * pt_index v) = phys OR flags
    \<and> page_leaf (phys_mem s') root v = Some (e2 OR (flags AND PAGE_USER), 21)"
proof -
  let ?h = "hhdm_offset s" and ?u = "flags AND PAGE_USER"
  let ?t3 = "entry_to_phys e4" and ?t2 = "entry_to_phys e3" and ?f = "entry_to_phys e2"
  note L = large_walk[OF assms(1,4)] and il = index_less[of v]
  note fr = L(10-12)[THEN frame_okD(1)] L(10-12)[THEN frame_okD(2)] frame_okD(1,2)[OF assms(5)]
  define m1 where "m1 = store64 (phys_mem s) (entry_at root (pml4_index v)) (e4 OR ?u)"
  define m2 where "m2 = store64 m1 (entry_at ?t3 (pdpt_index v)) (e3 OR ?u)"
  define m3 where "m3 = store64 m2 (entry_at ?t2 (pd_index v)) (e2 OR ?u)"
  define m4 where "m4 = store64 m3 (entry_at ?f (pt_index v)) (phys OR flags)"
  have uf: "table_flags flags AND PAGE_USER = ?u"
    by (rule bit_word_eqI) (auto simp: bit_simps bit_page_flags)
  have p: "pte m1 ?t3 (pdpt_index v) = e3" "pte m2 ?t2 (pd_index v) = e2"
    using L fr il by (simp_all add: m1_def m2_def pte_store)
  have g1: "get_or_create_table (entry_at (phys_to_virt ?h root) (pml4_index v)) (table_flags flags) s
      = (phys_to_virt ?h ?t3, s\<lparr>phys_mem := m1\<rparr>)"
    using goc_present[of s root "pml4_index v" "table_flags flags"] L fr il uf by (simp add: m1_def)
  have g2: "get_or_create_table (entry_at (phys_to_virt ?h ?t3) (pdpt_index v)) (table_flags flags) (s\<lparr>phys_mem := m1\<rparr>)
      = (phys_to_virt ?h ?t2, s\<lparr>phys_mem := m2\<rparr>)"
    using goc_present[of "s\<lparr>phys_mem := m1\<rparr>" ?t3 "pdpt_index v" "table_flags flags"] L fr il p uf by (simp add: m2_def)
  have g3: "get_or_create_table (entry_at (phys_to_virt ?h ?t2) (pd_index v)) (table_flags flags) (s\<lparr>phys_mem := m2\<rparr>)
      = (phys_to_virt ?h ?f, s\<lparr>phys_mem := m3\<rparr>)"
    using goc_present[of "s\<lparr>phys_mem := m2\<rparr>" ?t2 "pd_index v" "table_flags flags"] L fr il p uf by (simp add: m3_def)
  have st: "kstore64 (entry_at (phys_to_virt ?h ?f) (pt_index v)) (phys OR flags) (s\<lparr>phys_mem := m3\<rparr>) = s\<lparr>phys_mem := m4\<rparr>"
    using kstore_entry[of "s\<lparr>phys_mem := m3\<rparr>" ?f "pt_index v"] fr il by (simp add: m4_def)
  have d: "map_depth v flags = 3" using assms(7) by (simp add: map_depth_def)
  note nz = L(10-12)[THEN phys_to_virt_not_null] phys_to_virt_not_null[OF assms(5)]
  have s': "r = 0" "phys_mem s' = m4"
    using map_page_run[OF assms(2,3) nz(1) g1 g2 g3, of phys] assms(8) nz st d by simp_all
  have e: "pte m4 root (pml4_index v) = e4 OR ?u" "pte m4 ?t3 (pdpt_index v) = e3 OR ?u" "pte m4 ?t2 (pd_index v) = e2 OR ?u"
    "pte m4 ?f (pt_index v) = phys OR flags"
    using L fr il assms(6) by (auto simp: m1_def m2_def m3_def m4_def pte_store)
  have b: "bit (x OR ?u) 0 = bit x 0" "bit (x OR ?u) 7 = bit x 7" "entry_to_phys (x OR ?u) = entry_to_phys x" for x
    by (simp_all add: bit_simps bit_page_flags entry_to_phys_or)
  have "page_walk m4 root v = Some [e4 OR ?u, e3 OR ?u, e2 OR ?u]"
    using L e b by (simp add: page_walk_def indices_def Let_def)
  then show ?thesis using e(4) s' by (simp add: page_leaf_def page_shift_def pte_def entry_at_def)
qed

lemma flags83: "bit (0x83 :: u64) n \<longleftrightarrow> n = 0 \<or> n = 1 \<or> n = 7"
proof -
  have *: "(0x83 :: u64) = PAGE_PRESENT OR PAGE_WRITE OR PAGE_HUGE"
    by (simp add: PAGE_PRESENT_def PAGE_WRITE_def PAGE_HUGE_def)
  show ?thesis unfolding * by (auto simp: bit_simps bit_page_flags)
qed

text \<open>A state in which a 2 MiB page maps \<^verbatim>\<open>0x400000\<close>, made by the code itself.\<close>

lemma large_page_state:
  obtains s :: vmm_state and e4 e3 where "vm_inv s 0x20000" "hhdm_offset s = 0xFFFF800000000000"
    "as_pml4 KernelAS s = phys_to_virt (hhdm_offset s) 0x20000"
    "page_walk (phys_mem s) 0x20000 0x400000 = Some [e4, e3, 0x400083]"
    "{entry_to_phys e4, entry_to_phys e3} \<subseteq> {0x10000, 0x11000, 0x12000}"
proof -
  obtain r s where r: "vmm_map_page KernelAS 0x400000 0x400000 0x83 example_vmm = (r, s)" by force
  have d: "map_depth 0x400000 0x83 = 2" by (simp add: map_depth_def flags83 pd_index_def)
  have as: "KernelAS \<noteq> NullAS" "as_pml4 KernelAS example_vmm = phys_to_virt (hhdm_offset example_vmm) 0x20000"
    using as_of_example unfolding example_vmm_fields by simp_all
  have walk: "map_depth 0x400000 0x83 < length es" if "page_walk (phys_mem example_vmm) 0x20000 0x400000 = Some es" for es
    using that unfolding example_vmm_fields by (simp add: page_walk_def indices_def pte_zero_mem)
  have tabs0: "p = []" if "path p" "table_at (phys_mem example_vmm) 0x20000 p = Some t" for p t
    using that empty_table_walk(2)[of "\<lambda>_. 0" "0x20000" p] by (cases "p = []") (auto simp: example_vmm_fields pte_zero_mem)
  have m: "\<exists>es. vm_inv s 0x20000 \<and> page_walk (phys_mem s) 0x20000 0x400000 = Some (es @ [0x400083])
    \<and> page_leaf (phys_mem s) 0x20000 0x400000 = Some (0x400083, 21)
    \<and> (\<forall>p t. path p \<longrightarrow> table_at (phys_mem s) 0x20000 p = Some t \<longrightarrow> p = [] \<or> t \<in> {0x10000, 0x11000, 0x12000})"
    by (rule map_page_leaf[OF example_vmm_inv as _ _ r],
      use walk tabs0 in \<open>auto simp: flags83 example_vmm_fields map_shift_def d same_page_def\<close>) blast
  then obtain es where es: "vm_inv s 0x20000" "page_walk (phys_mem s) 0x20000 0x400000 = Some (es @ [0x400083])"
    "page_leaf (phys_mem s) 0x20000 0x400000 = Some (0x400083, 21)"
    "\<forall>p t. path p \<longrightarrow> table_at (phys_mem s) 0x20000 p = Some t \<longrightarrow> p = [] \<or> t \<in> {0x10000, 0x11000, 0x12000}" by blast
  have "length es = 2" using es(2,3) by (simp add: page_leaf_def page_shift_def)
  then obtain e4 e3 where e: "es = [e4, e3]" by (auto simp: length_Suc_conv numeral_2_eq_2)
  have w: "page_walk (phys_mem s) 0x20000 0x400000 = Some [e4, e3, 0x400083]" using es(2) e by simp
  note L = large_walk[OF es(1) w]
  have "table_at (phys_mem s) 0x20000 [pml4_index 0x400000] = Some (entry_to_phys e4)"
    "table_at (phys_mem s) 0x20000 [pml4_index 0x400000, pdpt_index 0x400000] = Some (entry_to_phys e3)"
    using L(1-7) by (simp_all add: subtable_def)
  then have "{entry_to_phys e4, entry_to_phys e3} \<subseteq> {0x10000, 0x11000, 0x12000}"
    using es(4)[rule_format, of "[pml4_index 0x400000]"] es(4)[rule_format, of "[pml4_index 0x400000, pdpt_index 0x400000]"]
      index_less by simp
  moreover have "as_pml4 KernelAS s = phys_to_virt (hhdm_offset s) 0x20000" "hhdm_offset s = 0xFFFF800000000000"
    using as map_frame_eq[OF r] by (simp_all add: as_pml4_def example_vmm_fields)
  ultimately show thesis using es(1) w by (intro that[of s e4 e3]) simp_all
qed

theorem vmm_map_page_corrupts_large_page_witness:
  "\<exists>s s'. page_leaf (phys_mem s) 0x20000 0x400000 = Some (0x400083, 21)
     \<and> vmm_map_page KernelAS 0x400000 0x5000 3 s = (0, s' :: vmm_state)
     \<and> load64 (phys_mem s') 0x400000 = 0x5003 \<and> page_leaf (phys_mem s') 0x20000 0x400000 = Some (0x400083, 21)"
proof -
  obtain s :: vmm_state and e4 e3 where s: "vm_inv s 0x20000" "hhdm_offset s = 0xFFFF800000000000"
    "as_pml4 KernelAS s = phys_to_virt (hhdm_offset s) 0x20000"
    "page_walk (phys_mem s) 0x20000 0x400000 = Some [e4, e3, 0x400083]"
    "{entry_to_phys e4, entry_to_phys e3} \<subseteq> {0x10000, 0x11000, 0x12000}" by (rule large_page_state)
  obtain r s' where r: "vmm_map_page KernelAS 0x400000 0x5000 3 s = (r, s')" by force
  have f: "entry_to_phys 0x400083 = 0x400000" by (simp add: entry_to_phys_def)
  have "frame_ok (hhdm_offset s) (entry_to_phys 0x400083)" unfolding f s(2) by (simp add: frame_ok_def hhdm_covers_def)
  moreover have "entry_to_phys 0x400083 \<notin> {0x20000, entry_to_phys e4, entry_to_phys e3}" unfolding f using s(5) by auto
  moreover have "\<not> bit (3 :: u64) 7" "(3 :: u64) AND PAGE_USER = 0" by (simp_all add: PAGE_USER_def bit_numeral_rec)
  ultimately have "r = 0 \<and> load64 (phys_mem s') 0x400000 = 0x5003 \<and> page_leaf (phys_mem s') 0x20000 0x400000 = Some (0x400083, 21)"
    using vmm_map_page_corrupts_large_page[OF s(1) _ s(3,4) _ _ _ r] by (simp add: f pt_index_def)
  with r s(4) show ?thesis
    by (intro exI[of _ s] exI[of _ s'] conjI) (simp_all add: page_leaf_def page_shift_def)
qed

end
