(* ===== verification/Userland.thy ===== *)
theory Userland
  imports Syscall Vmm_Map
begin

text \<open>
  The first user program, \<^verbatim>\<open>userland/init.c\<close>, and the wrappers of \<^verbatim>\<open>syscall.h\<close> that it calls,
  run against the kernel's system call handler.

  A piece of user code is a function of the kernel's state. It has a value, \<open>Inr\<close>, or the
  thread has left user code for good or for another thread, \<open>Inl\<close> with what the handler
  reported. The compiler and the linker place string literals and local variables; their
  addresses are a parameter, the record \<open>user_ctx\<close>.
\<close>

section \<open>System calls from user code\<close>

record user_ctx =
  uc_mmu :: mmu
  uc_ra :: u64
  uc_regs :: sys_regs
  uc_lit :: "string \<Rightarrow> u64"
  uc_msg :: u64
  uc_num :: u64

definition int80 ::
    "user_ctx \<Rightarrow> (sys_regs \<Rightarrow> sys_regs) \<Rightarrow> 'z thread_state_scheme \<Rightarrow> ((sys_result + int) \<times> 'z thread_state_scheme) option" where
  "int80 u load s =
     (case syscall_handler (uc_mmu u) (uc_ra u) (c_args (syscall_entry (rsp0 (the_tss s)) (load (uc_regs u)))) s of
        None \<Rightarrow> None
      | Some (SysReturn r, s') \<Rightarrow> Some (Inr r, s')
      | Some (x, s') \<Rightarrow> Some (Inl x, s'))"

text \<open>The conversion of a 64-bit result to \<^verbatim>\<open>int\<close>.\<close>

definition c_int :: "int \<Rightarrow> int" where
  "c_int r = sint (word_of_int r :: u32)"

definition user_send ::
    "user_ctx \<Rightarrow> u32 \<Rightarrow> u32 \<Rightarrow> u32 \<Rightarrow> u32 \<Rightarrow> u32 \<Rightarrow> u32 \<Rightarrow> 'z thread_state_scheme \<Rightarrow> ((sys_result + int) \<times> 'z thread_state_scheme) option" where
  "user_send u port_id mid d0 d1 d2 d3 =
     run_then (int80 u (syscall6 SYS_SEND (ucast port_id) (ucast mid) (ucast d0) (ucast d1) (ucast d2) (ucast d3)))
       (\<lambda>r. run_return (c_int r))"

definition user_recv ::
    "user_ctx \<Rightarrow> u32 \<Rightarrow> u64 \<Rightarrow> 'z thread_state_scheme \<Rightarrow> ((sys_result + int) \<times> 'z thread_state_scheme) option" where
  "user_recv u port_id msg_out =
     run_then (int80 u (syscall2 SYS_RECV (ucast port_id) msg_out)) (\<lambda>r. run_return (c_int r))"

definition user_exit :: "user_ctx \<Rightarrow> int \<Rightarrow> 'z thread_state_scheme \<Rightarrow> ((sys_result + 'a) \<times> 'z thread_state_scheme) option" where
  "user_exit u code = run_then (int80 u (syscall1 SYS_THREAD_EXIT (word_of_int code))) (\<lambda>_ _. None)"

definition user_yield :: "user_ctx \<Rightarrow> 'z thread_state_scheme \<Rightarrow> ((sys_result + unit) \<times> 'z thread_state_scheme) option" where
  "user_yield u = run_then (int80 u (syscall0 SYS_THREAD_YIELD)) (\<lambda>_. run_return ())"

definition user_port_create :: "user_ctx \<Rightarrow> 'z thread_state_scheme \<Rightarrow> ((sys_result + int) \<times> 'z thread_state_scheme) option" where
  "user_port_create u = run_then (int80 u (syscall0 SYS_PORT_CREATE)) (\<lambda>r. run_return (c_int r))"

definition user_debug_print :: "user_ctx \<Rightarrow> u64 \<Rightarrow> 'z thread_state_scheme \<Rightarrow> ((sys_result + unit) \<times> 'z thread_state_scheme) option" where
  "user_debug_print u str = run_then (int80 u (syscall1 SYS_DEBUG_PRINT str)) (\<lambda>_. run_return ())"

text \<open>A call with a string literal, and a store to a local variable.\<close>

definition say :: "user_ctx \<Rightarrow> string \<Rightarrow> 'z thread_state_scheme \<Rightarrow> ((sys_result + unit) \<times> 'z thread_state_scheme) option" where
  "say u x = user_debug_print u (uc_lit u x)"

definition user_store ::
    "user_ctx \<Rightarrow> u64 \<Rightarrow> u8 list \<Rightarrow> 'z thread_state_scheme \<Rightarrow> ((sys_result + unit) \<times> 'z thread_state_scheme) option" where
  "user_store u a bs s =
     (case mmu_store (uc_mmu u) (phys_mem s) (cr3_reg s) a bs of
        None \<Rightarrow> Some (Inl SysFault, s)
      | Some m \<Rightarrow> Some (Inr (), s\<lparr>phys_mem := m\<rparr>))"

section \<open>The program\<close>

definition init_banner :: "user_ctx \<Rightarrow> 'z thread_state_scheme \<Rightarrow> ((sys_result + unit) \<times> 'z thread_state_scheme) option" where
  "init_banner u =
     run_then (say u ''[INIT] PlasmaOS userspace init starting...\<newline>'') (\<lambda>_.
     say u ''[INIT] Running in ring 3\<newline>\<newline>'')"

definition init_port :: "user_ctx \<Rightarrow> 'z thread_state_scheme \<Rightarrow> ((sys_result + int) \<times> 'z thread_state_scheme) option" where
  "init_port u =
     run_then (say u ''[INIT] Test 1: Creating IPC port...\<newline>'') (\<lambda>_.
     run_then (user_port_create u) (\<lambda>port_id.
     if port_id < 0
     then run_then (say u ''[INIT] FAILED: Could not create port\<newline>'') (\<lambda>_. user_exit u 1)
     else run_then (say u ''[INIT] SUCCESS: Port created\<newline>\<newline>'') (\<lambda>_. run_return port_id)))"

definition init_send :: "user_ctx \<Rightarrow> int \<Rightarrow> 'z thread_state_scheme \<Rightarrow> ((sys_result + unit) \<times> 'z thread_state_scheme) option" where
  "init_send u port_id =
     run_then (say u ''[INIT] Test 2: Sending message to self...\<newline>'') (\<lambda>_.
     run_then (user_send u (word_of_int port_id) 42 100 200 300 400) (\<lambda>result.
     if result < 0
     then run_then (say u ''[INIT] FAILED: Could not send message\<newline>'') (\<lambda>_. user_exit u 1)
     else say u ''[INIT] SUCCESS: Message sent (ID=42, data=[100,200,300,400])\<newline>\<newline>''))"

definition init_recv :: "user_ctx \<Rightarrow> int \<Rightarrow> 'z thread_state_scheme \<Rightarrow> ((sys_result + unit) \<times> 'z thread_state_scheme) option" where
  "init_recv u port_id =
     run_then (say u ''[INIT] Test 3: Receiving message...\<newline>'') (\<lambda>_.
     run_then (user_recv u (word_of_int port_id) (uc_msg u)) (\<lambda>result.
     if result < 0
     then run_then (say u ''[INIT] FAILED: Could not receive message\<newline>'') (\<lambda>_. user_exit u 1)
     else run_then (say u ''[INIT] SUCCESS: Message received\<newline>'') (\<lambda>_.
          run_then (say u ''[INIT]   Message ID: 42\<newline>'') (\<lambda>_.
          say u ''[INIT]   Data: [100, 200, 300, 400]\<newline>\<newline>''))))"

text \<open>The body of the loop of test 5, and the loop with \<open>n\<close> rounds left from \<open>i\<close> on.\<close>

definition yield_round :: "user_ctx \<Rightarrow> nat \<Rightarrow> 'z thread_state_scheme \<Rightarrow> ((sys_result + unit) \<times> 'z thread_state_scheme) option" where
  "yield_round u i =
     run_then (say u ''[INIT]   Yield '') (\<lambda>_.
     run_then (user_store u (uc_num u) [48 + of_nat i, 0]) (\<lambda>_.
     run_then (user_debug_print u (uc_num u)) (\<lambda>_.
     run_then (say u ''\<newline>'') (\<lambda>_. user_yield u))))"

primrec yield_rounds :: "user_ctx \<Rightarrow> nat \<Rightarrow> nat \<Rightarrow> 'z thread_state_scheme \<Rightarrow> ((sys_result + unit) \<times> 'z thread_state_scheme) option" where
  "yield_rounds u 0 i = run_return ()"
| "yield_rounds u (Suc n) i = run_then (yield_round u i) (\<lambda>_. yield_rounds u n (i + 1))"

definition init_yield :: "user_ctx \<Rightarrow> 'z thread_state_scheme \<Rightarrow> ((sys_result + unit) \<times> 'z thread_state_scheme) option" where
  "init_yield u =
     run_then (say u ''[INIT] Test 4: Testing thread yield...\<newline>'') (\<lambda>_.
     run_then (user_yield u) (\<lambda>_.
     run_then (say u ''[INIT] SUCCESS: Yielded and returned\<newline>\<newline>'') (\<lambda>_.
     run_then (say u ''[INIT] Test 5: Multiple yields (spinning)...\<newline>'') (\<lambda>_.
     run_then (yield_rounds u 5 0) (\<lambda>_.
     say u ''[INIT] SUCCESS: Multiple yields complete\<newline>\<newline>'')))))"

definition init_end :: "user_ctx \<Rightarrow> 'z thread_state_scheme \<Rightarrow> ((sys_result + unit) \<times> 'z thread_state_scheme) option" where
  "init_end u =
     run_then (say u ''======================================\<newline>'') (\<lambda>_.
     run_then (say u ''[INIT] All tests passed!\<newline>'') (\<lambda>_.
     run_then (say u ''[INIT] Userspace is working correctly\<newline>'') (\<lambda>_.
     run_then (say u ''======================================\<newline>\<newline>'') (\<lambda>_.
     run_then (say u ''[INIT] Init process complete, exiting with code 0\<newline>'') (\<lambda>_.
     user_exit u 0)))))"

definition init_start :: "user_ctx \<Rightarrow> 'z thread_state_scheme \<Rightarrow> ((sys_result + unit) \<times> 'z thread_state_scheme) option" where
  "init_start u =
     run_then (init_banner u) (\<lambda>_.
     run_then (init_port u) (\<lambda>port_id.
     run_then (init_send u port_id) (\<lambda>_.
     run_then (init_recv u port_id) (\<lambda>_.
     run_then (init_yield u) (\<lambda>_.
     init_end u)))))"

section \<open>What the program relies on\<close>

text \<open>
  The user memory: as long as \<open>ok\<close> holds of memory and page tables, the literals of the
  program can be read where they are, and the two local variables can be written and leave
  the rest as it is.
\<close>

definition init_strings :: "string list" where
  "init_strings =
    [''[INIT] PlasmaOS userspace init starting...\<newline>'', ''[INIT] Running in ring 3\<newline>\<newline>'',
     ''[INIT] Test 1: Creating IPC port...\<newline>'', ''[INIT] SUCCESS: Port created\<newline>\<newline>'',
     ''[INIT] Test 2: Sending message to self...\<newline>'',
     ''[INIT] SUCCESS: Message sent (ID=42, data=[100,200,300,400])\<newline>\<newline>'',
     ''[INIT] Test 3: Receiving message...\<newline>'', ''[INIT] SUCCESS: Message received\<newline>'',
     ''[INIT]   Message ID: 42\<newline>'', ''[INIT]   Data: [100, 200, 300, 400]\<newline>\<newline>'',
     ''[INIT] Test 4: Testing thread yield...\<newline>'', ''[INIT] SUCCESS: Yielded and returned\<newline>\<newline>'',
     ''[INIT] Test 5: Multiple yields (spinning)...\<newline>'', ''[INIT]   Yield '', ''\<newline>'',
     ''[INIT] SUCCESS: Multiple yields complete\<newline>\<newline>'', ''======================================\<newline>'',
     ''[INIT] All tests passed!\<newline>'', ''[INIT] Userspace is working correctly\<newline>'',
     ''======================================\<newline>\<newline>'', ''[INIT] Init process complete, exiting with code 0\<newline>'']"

abbreviation init_literals :: "string set" where
  "init_literals \<equiv> set init_strings"

definition user_memory :: "user_ctx \<Rightarrow> (memory \<Rightarrow> u64 \<Rightarrow> bool) \<Rightarrow> bool" where
  "user_memory u ok \<longleftrightarrow> uc_msg u \<noteq> 0 \<and> (\<forall>m c. ok m c \<longrightarrow>
     (\<forall>x\<in>init_literals. mmu_str (uc_mmu u) m c (uc_lit u x) = Some x) \<and>
     (\<forall>bs. length bs = 20 \<longrightarrow> (\<exists>m'. mmu_store (uc_mmu u) m c (uc_msg u) bs = Some m' \<and> ok m' c)) \<and>
     (\<forall>b. b \<noteq> 0 \<longrightarrow> (\<exists>m'. mmu_store (uc_mmu u) m c (uc_num u) [b, 0] = Some m' \<and> ok m' c \<and>
        mmu_str (uc_mmu u) m' c (uc_num u) = Some [char_of (unat b)])))"

section \<open>One call at a time\<close>

text \<open>The state between two calls: \<open>t\<close> runs and no other thread can, and user memory is in order.\<close>

definition alone :: "(memory \<Rightarrow> u64 \<Rightarrow> bool) \<Rightarrow> nat \<Rightarrow> 'z thread_state_scheme \<Rightarrow> bool" where
  "alone ok t s \<longleftrightarrow> ipc_inv s \<and> current s = Some t \<and> (\<forall>i<thread_count s. runnable (threads s) i \<longleftrightarrow> i = t) \<and>
     ok (phys_mem s) (cr3_reg s)"

definition ipc_view :: "'z thread_state_scheme \<Rightarrow> nat \<times> nat \<times> Port list \<times> Message list" where
  "ipc_view s = (port_count s, message_pool_next s, ports s, message_pool s)"

definition printed :: "(memory \<Rightarrow> u64 \<Rightarrow> bool) \<Rightarrow> nat \<Rightarrow> 'z thread_state_scheme \<Rightarrow> string \<Rightarrow> 'z thread_state_scheme \<Rightarrow> bool" where
  "printed ok t s0 x s \<longleftrightarrow> alone ok t s \<and> console s = console s0 @ x \<and> ipc_view s = ipc_view s0"

lemma aloneD:
  assumes "alone ok t s"
  shows "ipc_inv s" "current s = Some t" "ok (phys_mem s) (cr3_reg s)" "t < thread_count s"
    "next_in_order (threads s) (thread_count s) t = Some t"
proof -
  show a: "ipc_inv s" "current s = Some t" "ok (phys_mem s) (cr3_reg s)" using assms by (simp_all add: alone_def)
  show t: "t < thread_count s" using thread_invD(4)[OF ipc_invD(1)[OF a(1)]] a(2) by simp
  have run: "\<forall>i<thread_count s. runnable (threads s) i \<longleftrightarrow> i = t" using assms by (simp add: alone_def)
  show "next_in_order (threads s) (thread_count s) t = Some t"
  proof (cases "next_in_order (threads s) (thread_count s) t")
    case None
    with next_in_order_None[OF t, of "threads s"] run t show ?thesis by auto
  next
    case (Some i)
    with next_in_order_less[OF Some t] run have "runnable (threads s) i \<Longrightarrow> i = t" by blast
    moreover have "runnable (threads s) i" by (rule next_in_order_cases[OF Some t])
    ultimately show ?thesis using Some by simp
  qed
qed

lemma alone_frame:
  assumes "alone ok t s" "ipc_inv s'" "threads s' = threads s" "thread_count s' = thread_count s" "current s' = current s"
    "ok (phys_mem s') (cr3_reg s')"
  shows "alone ok t s'"
  using assms by (simp add: alone_def)

lemma alone_console: "alone ok t s \<Longrightarrow> alone ok t (s\<lparr>console := x\<rparr>)"
  by (simp add: alone_def ipc_inv_console)

lemma int80_args:
  "c_args (syscall_entry k (syscall0 num r)) = (num, r_rdi r, r_rsi r, r_rdx r, r_r10 r, r_r8 r, r_r9 r)"
  "c_args (syscall_entry k (syscall1 num a1 r)) = (num, a1, r_rsi r, r_rdx r, r_r10 r, r_r8 r, r_r9 r)"
  "c_args (syscall_entry k (syscall2 num a1 a2 r)) = (num, a1, a2, r_rdx r, r_r10 r, r_r8 r, r_r9 r)"
  "c_args (syscall_entry k (syscall6 num a1 a2 a3 a4 a5 a6 r)) = (num, a1, a2, a3, a4, a5, a6)"
  by (simp_all add: c_args_def syscall_entry_def syscall0_def syscall1_def syscall2_def syscall6_def Let_def)

lemmas call_simps = int80_def int80_args syscall_handler_simps run_then_def run_return_def

lemma user_debug_print_eq:
  assumes "mmu_str (uc_mmu u) (phys_mem s) (cr3_reg s) a = Some x"
  shows "user_debug_print u a s = Some (Inr (), s\<lparr>console := console s @ ''[USER] '' @ x\<rparr>)"
  using assms by (simp add: user_debug_print_def call_simps)

lemma user_memoryD:
  assumes "user_memory u ok" "ok m c"
  shows "x \<in> init_literals \<Longrightarrow> mmu_str (uc_mmu u) m c (uc_lit u x) = Some x"
    "length bs = 20 \<Longrightarrow> \<exists>m'. mmu_store (uc_mmu u) m c (uc_msg u) bs = Some m' \<and> ok m' c"
    "b \<noteq> 0 \<Longrightarrow> \<exists>m'. mmu_store (uc_mmu u) m c (uc_num u) [b, 0] = Some m' \<and> ok m' c \<and>
       mmu_str (uc_mmu u) m' c (uc_num u) = Some [char_of (unat b)]"
  using assms by (simp_all add: user_memory_def)

lemma printedI: "alone ok t s \<Longrightarrow> printed ok t s [] s"
  by (simp add: printed_def)

lemma printed_trans: "printed ok t s x s' \<Longrightarrow> printed ok t s' y s'' \<Longrightarrow> printed ok t s (x @ y) s''"
  by (simp add: printed_def)

lemma say_wp:
  assumes "user_memory u ok" "printed ok t s0 x s" "y \<in> init_literals"
    and "\<And>s'. printed ok t s0 (x @ ''[USER] '' @ y) s' \<Longrightarrow> P (Inr ()) s'"
  shows "run_wp (say u y) s P"
proof -
  have a: "alone ok t s" using assms(2) by (simp add: printed_def)
  have "printed ok t s0 (x @ ''[USER] '' @ y) (s\<lparr>console := console s @ ''[USER] '' @ y\<rparr>)"
    using assms(2) alone_console[OF a] by (simp add: printed_def ipc_view_def)
  then show ?thesis
    unfolding run_wp_def say_def user_debug_print_eq[OF user_memoryD(1)[OF assms(1) aloneD(3)[OF a] assms(3)]]
    using assms(4) by blast
qed

lemma say_then:
  assumes "user_memory u ok" "printed ok t s0 x s" "y \<in> init_literals"
    and "\<And>s'. printed ok t s0 (x @ ''[USER] '' @ y) s' \<Longrightarrow> run_wp (g ()) s' P"
  shows "run_wp (run_then (say u y) g) s P"
  by (rule run_wp_then, rule say_wp[OF assms(1-3)]) (simp add: assms(4))

lemma yield_wp:
  assumes "printed ok t s0 x s" and "\<And>s'. printed ok t s0 x s' \<Longrightarrow> P (Inr ()) s'"
  shows "run_wp (user_yield u) s P"
proof -
  have a: "alone ok t s" using assms(1) by (simp add: printed_def)
  note D = aloneD[OF a]
  let ?s = "s\<lparr>current := Some t, the_tss := tss_for (threads s ! t) (the_tss s)\<rparr>"
  have "thread_yield (uc_ra u) s = Some (Returns, ?s)"
    using thread_yield_eq[OF ipc_invD(1)[OF D(1)] D(2)] D(5) by (simp add: Let_def)
  then have "user_yield u s = Some (Inr (), ?s)"
    by (simp add: user_yield_def call_simps yield_in_def)
  moreover have "ipc_inv ?s" by (rule ipc_inv_frame[OF D(1)]) (simp_all add: D(2))
  then have "printed ok t s0 x ?s"
    using assms(1) alone_frame[OF a, of ?s] D by (simp add: printed_def ipc_view_def)
  ultimately show ?thesis using assms(2) by (auto simp: run_wp_def)
qed

section \<open>The parts of the program\<close>

lemma port_id_facts:
  assumes "p < MAX_PORTS"
  shows "uint (port_to_id (Some p)) = int p + 1" "c_int (int p + 1) = int p + 1"
    "port_from_id (word_of_int (int p + 1)) = Some p"
proof -
  have p: "p < 16" using assms by (simp add: MAX_PORTS_def)
  have w: "(word_of_int (int p + 1) :: u32) = of_nat (Suc p)" by (simp add: add.commute)
  have n: "unat (of_nat p :: u32) = p" "unat (of_nat (Suc p) :: u32) = Suc p" "uint (of_nat (Suc p) :: u32) = int p + 1"
    using p by (simp_all add: unsigned_of_nat take_bit_nat_eq_self del: of_nat_Suc)
  show "uint (port_to_id (Some p)) = int p + 1"
  proof -
    have "\<not> (16 :: u32) \<le> of_nat p" unfolding word_le_nat_alt n(1) using p by simp
    then show ?thesis using n(3) by (simp add: port_to_id_def MAX_PORTS_def add.commute)
  qed
  show "c_int (int p + 1) = int p + 1"
    unfolding c_int_def w using p n(3) by (simp add: sint_uint signed_take_bit_int_eq_self_iff del: of_nat_Suc)
  show "port_from_id (word_of_int (int p + 1)) = Some p"
  proof -
    have "(of_nat (Suc p) :: u32) \<noteq> 0" using n(2) by (metis Zero_not_Suc unsigned_0)
    moreover have "\<not> (16 :: u32) < of_nat (Suc p)" unfolding word_less_nat_alt n(2) using p by simp
    ultimately show ?thesis unfolding w using n(1) by (simp add: port_from_id_def MAX_PORTS_def)
  qed
qed

lemma literals [simp]:
  "''[INIT] PlasmaOS userspace init starting...\<newline>'' \<in> init_literals" "''[INIT] Running in ring 3\<newline>\<newline>'' \<in> init_literals"
  "''[INIT] Test 1: Creating IPC port...\<newline>'' \<in> init_literals" "''[INIT] SUCCESS: Port created\<newline>\<newline>'' \<in> init_literals"
  "''[INIT] Test 2: Sending message to self...\<newline>'' \<in> init_literals"
  "''[INIT] SUCCESS: Message sent (ID=42, data=[100,200,300,400])\<newline>\<newline>'' \<in> init_literals"
  "''[INIT] Test 3: Receiving message...\<newline>'' \<in> init_literals" "''[INIT] SUCCESS: Message received\<newline>'' \<in> init_literals"
  "''[INIT]   Message ID: 42\<newline>'' \<in> init_literals" "''[INIT]   Data: [100, 200, 300, 400]\<newline>\<newline>'' \<in> init_literals"
  "''[INIT] Test 4: Testing thread yield...\<newline>'' \<in> init_literals" "''[INIT] SUCCESS: Yielded and returned\<newline>\<newline>'' \<in> init_literals"
  "''[INIT] Test 5: Multiple yields (spinning)...\<newline>'' \<in> init_literals" "''[INIT]   Yield '' \<in> init_literals" "''\<newline>'' \<in> init_literals"
  "''[INIT] SUCCESS: Multiple yields complete\<newline>\<newline>'' \<in> init_literals" "''======================================\<newline>'' \<in> init_literals"
  "''[INIT] All tests passed!\<newline>'' \<in> init_literals" "''[INIT] Userspace is working correctly\<newline>'' \<in> init_literals"
  "''======================================\<newline>\<newline>'' \<in> init_literals"
  "''[INIT] Init process complete, exiting with code 0\<newline>'' \<in> init_literals"
  by (simp_all add: init_strings_def)

definition spoken :: "string list \<Rightarrow> string" where
  "spoken xs = concat (map (\<lambda>x. ''[USER] '' @ x) xs)"

lemma spoken_simps: "spoken [] = []" "spoken (x # xs) = ''[USER] '' @ x @ spoken xs" "spoken (xs @ ys) = spoken xs @ spoken ys"
  by (simp_all add: spoken_def)

lemma ipc_viewD:
  assumes "printed ok t s0 x s"
  shows "alone ok t s" "console s = console s0 @ x" "port_count s = port_count s0" "message_pool_next s = message_pool_next s0"
    "ports s = ports s0" "queue s p = queue s0 p"
  using assms by (simp_all add: printed_def ipc_view_def queue_def queue_idx_def)

text \<open>The state in which the program owns port \<open>p\<close>, with the messages \<open>q\<close> in it and \<open>n\<close> messages used up in the pool.\<close>

definition owns :: "(memory \<Rightarrow> u64 \<Rightarrow> bool) \<Rightarrow> nat \<Rightarrow> nat \<Rightarrow> content list \<Rightarrow> nat \<Rightarrow> string \<Rightarrow> 'z thread_state_scheme \<Rightarrow> bool" where
  "owns ok t p q n c s \<longleftrightarrow> alone ok t s \<and> p < MAX_PORTS \<and> port_count s = Suc p \<and> queue s p = q \<and>
     blocked_thread (ports s ! p) = None \<and> message_pool_next s = n \<and> console s = c"

lemma ownsD:
  assumes "owns ok t p q n c s"
  shows "alone ok t s" "p < MAX_PORTS" "port_count s = Suc p" "queue s p = q" "blocked_thread (ports s ! p) = None"
    "message_pool_next s = n" "console s = c"
  using assms by (simp_all add: owns_def)

lemma owns_printed: "owns ok t p q n c s0 \<Longrightarrow> printed ok t s0 x s \<Longrightarrow> owns ok t p q n (c @ x) s"
  by (simp add: owns_def ipc_viewD)

lemma owns_say:
  assumes "user_memory u ok" "owns ok t p q n c s" "y \<in> init_literals"
    and "\<And>s'. owns ok t p q n (c @ ''[USER] '' @ y) s' \<Longrightarrow> P (Inr ()) s'"
  shows "run_wp (say u y) s P"
  using say_wp[OF assms(1) printedI[OF ownsD(1)[OF assms(2)]] assms(3), of P] assms(4) owns_printed[OF assms(2)] by simp

lemma owns_say_then:
  assumes "user_memory u ok" "owns ok t p q n c s" "y \<in> init_literals"
    and "\<And>s'. owns ok t p q n (c @ ''[USER] '' @ y) s' \<Longrightarrow> run_wp (g ()) s' P"
  shows "run_wp (run_then (say u y) g) s P"
  by (rule run_wp_then, rule owns_say[OF assms(1-3)]) (simp add: assms(4))

lemma owns_yield:
  assumes "owns ok t p q n c s" and "\<And>s'. owns ok t p q n c s' \<Longrightarrow> P (Inr ()) s'"
  shows "run_wp (user_yield u) s P"
  using yield_wp[OF printedI[OF ownsD(1)[OF assms(1)]], of P] assms(2) owns_printed[OF assms(1), of "[]"] by simp

lemma init_banner_ok:
  assumes "user_memory u ok" "alone ok t s"
  shows "run_wp (init_banner u) s (\<lambda>r s'. r = Inr () \<and> printed ok t s
    (spoken [''[INIT] PlasmaOS userspace init starting...\<newline>'', ''[INIT] Running in ring 3\<newline>\<newline>'']) s')"
  unfolding init_banner_def
  by (rule say_then[OF assms(1) printedI[OF assms(2)]], simp, rule say_wp[OF assms(1)], assumption, simp) (simp add: spoken_simps)

lemma port_create_then:
  assumes "printed ok t s0 x s" "port_count s0 < MAX_PORTS"
    and "\<And>s'. owns ok t (port_count s0) [] (message_pool_next s0) (console s0 @ x) s' \<Longrightarrow> run_wp (g (int (port_count s0) + 1)) s' P"
  shows "run_wp (run_then (user_port_create u) g) s P"
proof -
  note V = ipc_viewD[OF assms(1)]
  note D = aloneD[OF V(1)]
  let ?p = "port_count s0"
  have p: "port_count s < MAX_PORTS" using assms(2) V by simp
  obtain s' where s': "port_create s = (Some ?p, s')" "ipc_inv s'" "port_count s' = Suc ?p" "queue s' ?p = []"
      and eq: "s' = s\<lparr>port_count := Suc ?p, ports := (ports s)[?p := empty_port]\<rparr>"
    by (rule port_create_ok[OF D(1) p]) (simp add: V)
  have "alone ok t s'" by (rule alone_frame[OF V(1) s'(2)]) (simp_all add: eq D(3))
  moreover have "blocked_thread (ports s' ! ?p) = None" "message_pool_next s' = message_pool_next s0" "console s' = console s0 @ x"
    using assms(2) ipc_invD(2)[OF D(1)] V by (simp_all add: eq empty_port_def)
  ultimately have "owns ok t ?p [] (message_pool_next s0) (console s0 @ x) s'" using assms(2) s' by (simp add: owns_def)
  moreover have "user_port_create u s = Some (Inr (int ?p + 1), s')"
    by (simp add: user_port_create_def call_simps s'(1) port_id_facts(1,2)[OF assms(2)])
  ultimately show ?thesis using assms(3) by (intro run_wp_then) (auto simp: run_wp_def[of "user_port_create u"])
qed

lemma init_port_ok:
  assumes m: "user_memory u ok" and a: "alone ok t s" and p: "port_count s < MAX_PORTS"
  shows "run_wp (init_port u) s (\<lambda>r s'. r = Inr (int (port_count s) + 1) \<and> owns ok t (port_count s) [] (message_pool_next s)
    (console s @ spoken [''[INIT] Test 1: Creating IPC port...\<newline>'', ''[INIT] SUCCESS: Port created\<newline>\<newline>'']) s')"
  unfolding init_port_def
  by (rule say_then[OF m printedI[OF a]], simp, rule port_create_then[OF _ p], assumption)
     (auto intro!: owns_say_then[OF m] simp: spoken_simps)

lemma c_int_0 [simp]: "c_int 0 = 0"
  by (simp add: c_int_def)

lemma narrow [simp]: "(ucast (ucast (w :: u32) :: u64) :: u32) = w"
  by (rule ucast_up_ucast_id) (simp add: is_up_def source_size_def target_size_def word_size)

lemma send_then:
  assumes "owns ok t p q n c s" "n < MAX_MESSAGES"
    and "\<And>s'. owns ok t p (q @ [(mid, [d0, d1, d2, d3])]) (Suc n) c s' \<Longrightarrow> run_wp (g 0) s' P"
  shows "run_wp (run_then (user_send u (word_of_int (int p + 1)) mid d0 d1 d2 d3) g) s P"
proof -
  note O = ownsD[OF assms(1)]
  note D = aloneD[OF O(1)]
  have n: "message_pool_next s < MAX_MESSAGES" using assms(2) O by simp
  define s' where "s' = snd (send (Some p) mid d0 d1 d2 d3 s)"
  note S = send_ok[OF D(1) O(2) n, where ident = mid and ?d0.0 = d0 and ?d1.0 = d1 and ?d2.0 = d2 and ?d3.0 = d3, folded s'_def]
  have eq: "send (Some p) mid d0 d1 d2 d3 s = (0, s')" using S(1) by (simp add: s'_def prod_eq_iff)
  have f: "threads s' = threads s" "thread_count s' = thread_count s" "current s' = current s" "phys_mem s' = phys_mem s"
      "cr3_reg s' = cr3_reg s" "port_count s' = port_count s" "console s' = console s" "blocked_thread (ports s' ! p) = None"
    using O(2,5) n ipc_invD(2,3)[OF D(1)] by (simp_all add: s'_def send_eq woken_def enqueue_port_def)
  have "alone ok t s'" by (rule alone_frame[OF O(1) S(2)]) (simp_all add: f D(3))
  then have "owns ok t p (q @ [(mid, [d0, d1, d2, d3])]) (Suc n) c s'"
    using O S(3,5) by (simp add: owns_def f)
  moreover have "user_send u (word_of_int (int p + 1)) mid d0 d1 d2 d3 s = Some (Inr 0, s')"
    using port_id_facts(3)[OF O(2)] eq by (simp add: user_send_def call_simps)
  ultimately show ?thesis using assms(3) by (intro run_wp_then) (auto simp: run_wp_def[of "user_send _ _ _ _ _ _ _"])
qed

lemma message_bytes_length: "length (message_bytes (mid, [d0, d1, d2, d3])) = 20"
  by (simp add: message_bytes_def)

lemma recv_then:
  assumes "user_memory u ok" "owns ok t p ((mid, [d0, d1, d2, d3]) # q) n c s"
    and "\<And>s'. owns ok t p q n c s' \<Longrightarrow> run_wp (g 0) s' P"
  shows "run_wp (run_then (user_recv u (word_of_int (int p + 1)) (uc_msg u)) g) s P"
proof -
  note O = ownsD[OF assms(2)]
  note D = aloneD[OF O(1)]
  obtain s1 where s1: "take_message p s = Some ((mid, [d0, d1, d2, d3]), s1)" "ipc_inv s1" "queue s1 p = q"
      "s1 = s\<lparr>ports := ports s1\<rparr>" "blocked_thread (ports s1 ! p) = blocked_thread (ports s ! p)"
    using take_message_ok[OF D(1) O(2,4)] by metis
  have f: "threads s1 = threads s" "thread_count s1 = thread_count s" "current s1 = current s" "phys_mem s1 = phys_mem s"
      "cr3_reg s1 = cr3_reg s" "port_count s1 = port_count s" "console s1 = console s" "message_pool_next s1 = message_pool_next s"
    by (subst s1(4), simp)+
  obtain m' where m': "mmu_store (uc_mmu u) (phys_mem s) (cr3_reg s) (uc_msg u) (message_bytes (mid, [d0, d1, d2, d3])) = Some m'"
      "ok m' (cr3_reg s)"
    using user_memoryD(2)[OF assms(1) D(3) message_bytes_length] by blast
  let ?s = "s1\<lparr>phys_mem := m'\<rparr>"
  have "ipc_inv ?s" by (rule ipc_inv_frame[OF s1(2)]) simp_all
  then have "alone ok t ?s" by (rule alone_frame[OF O(1)]) (simp_all add: f m'(2))
  moreover have "queue ?s p = q" using s1(3) by (simp add: queue_def queue_idx_def)
  ultimately have "owns ok t p q n c ?s" using O s1(5) by (simp add: owns_def f)
  moreover have "uc_msg u \<noteq> 0" using assms(1) by (simp add: user_memory_def)
  then have "user_recv u (word_of_int (int p + 1)) (uc_msg u) s = Some (Inr 0, ?s)"
    using port_id_facts(3)[OF O(2)] m'(1) by (simp add: user_recv_def call_simps recv_def s1(1) copy_out_def f)
  ultimately show ?thesis using assms(3) by (intro run_wp_then) (auto simp: run_wp_def[of "user_recv _ _ _"])
qed

lemma init_send_ok:
  assumes m: "user_memory u ok" and o: "owns ok t p [] n c s" and n: "n < MAX_MESSAGES"
  shows "run_wp (init_send u (int p + 1)) s (\<lambda>r s'. r = Inr () \<and> owns ok t p [(42, [100, 200, 300, 400])] (Suc n)
    (c @ spoken [''[INIT] Test 2: Sending message to self...\<newline>'',
      ''[INIT] SUCCESS: Message sent (ID=42, data=[100,200,300,400])\<newline>\<newline>'']) s')"
  unfolding init_send_def
  by (rule owns_say_then[OF m o], simp, rule send_then[OF _ n], assumption) (auto intro!: owns_say[OF m] simp: spoken_simps)

lemma init_recv_ok:
  assumes m: "user_memory u ok" and o: "owns ok t p [(42, [100, 200, 300, 400])] n c s"
  shows "run_wp (init_recv u (int p + 1)) s (\<lambda>r s'. r = Inr () \<and> owns ok t p [] n
    (c @ spoken [''[INIT] Test 3: Receiving message...\<newline>'', ''[INIT] SUCCESS: Message received\<newline>'',
      ''[INIT]   Message ID: 42\<newline>'', ''[INIT]   Data: [100, 200, 300, 400]\<newline>\<newline>'']) s')"
  unfolding init_recv_def
  by (rule owns_say_then[OF m o], simp, rule recv_then[OF m], assumption)
     (auto intro!: owns_say[OF m] owns_say_then[OF m] simp: spoken_simps)

lemma owns_store_print:
  assumes "user_memory u ok" "owns ok t p q n c s" "b \<noteq> 0"
    and "\<And>s'. owns ok t p q n (c @ ''[USER] '' @ [char_of (unat b)]) s' \<Longrightarrow> run_wp g s' P"
  shows "run_wp (run_then (user_store u (uc_num u) [b, 0]) (\<lambda>_. run_then (user_debug_print u (uc_num u)) (\<lambda>_. g))) s P"
proof -
  note O = ownsD[OF assms(2)]
  note D = aloneD[OF O(1)]
  obtain m' where m': "mmu_store (uc_mmu u) (phys_mem s) (cr3_reg s) (uc_num u) [b, 0] = Some m'" "ok m' (cr3_reg s)"
      "mmu_str (uc_mmu u) m' (cr3_reg s) (uc_num u) = Some [char_of (unat b)]"
    using user_memoryD(3)[OF assms(1) D(3) assms(3)] by blast
  let ?s = "s\<lparr>phys_mem := m', console := console s @ ''[USER] '' @ [char_of (unat b)]\<rparr>"
  have "ipc_inv ?s" by (rule ipc_inv_frame[OF D(1)]) simp_all
  then have "alone ok t ?s" by (rule alone_frame[OF O(1)]) (simp_all add: m'(2))
  moreover have "queue ?s p = q" using O(4) by (simp add: queue_def queue_idx_def)
  ultimately have "owns ok t p q n (c @ ''[USER] '' @ [char_of (unat b)]) ?s" using O by (simp add: owns_def)
  moreover have "user_store u (uc_num u) [b, 0] s = Some (Inr (), s\<lparr>phys_mem := m'\<rparr>)" by (simp add: user_store_def m'(1))
  moreover have "user_debug_print u (uc_num u) (s\<lparr>phys_mem := m'\<rparr>) = Some (Inr (), ?s)"
    using user_debug_print_eq[of u "s\<lparr>phys_mem := m'\<rparr>"] m'(3) by simp
  ultimately show ?thesis using assms(4) by (simp add: run_wp_def run_then_def)
qed

definition round_text :: "nat \<Rightarrow> string list" where
  "round_text i = [''[INIT]   Yield '', [char_of (48 + i)], ''\<newline>'']"

lemma yield_round_ok:
  assumes m: "user_memory u ok" and o: "owns ok t p q n c s" and i: "i < 10"
  shows "run_wp (yield_round u i) s (\<lambda>r s'. r = Inr () \<and> owns ok t p q n (c @ spoken (round_text i)) s')"
proof -
  have b: "unat (48 + of_nat i :: u8) = 48 + i"
    using i by (simp add: unat_word_ariths unsigned_of_nat take_bit_nat_eq_self)
  then have "48 + of_nat i \<noteq> (0 :: u8)" by (metis add_is_0 unsigned_0 zero_neq_numeral)
  then show ?thesis unfolding yield_round_def
    by (intro owns_say_then[OF m o] owns_store_print[OF m] owns_say_then[OF m] owns_yield; assumption?)
       (auto simp: b round_text_def spoken_simps)
qed

lemma yield_rounds_ok:
  assumes "user_memory u ok" "owns ok t p q n c s" "i + k \<le> 10"
  shows "run_wp (yield_rounds u k i) s (\<lambda>r s'. r = Inr () \<and> owns ok t p q n (c @ spoken (concat (map round_text [i..<i + k]))) s')"
  using assms(2,3)
proof (induction k arbitrary: i c s)
  case 0
  then show ?case by (simp add: spoken_simps)
next
  case (Suc k)
  obtain s' where s': "yield_round u i s = Some (Inr (), s')" "owns ok t p q n (c @ spoken (round_text i)) s'"
    using yield_round_ok[OF assms(1) Suc.prems(1), of i] Suc.prems(2) by (auto simp: run_wp_def)
  have "[i..<i + Suc k] = i # [i + 1..<i + 1 + k]" by (simp add: upt_conv_Cons)
  then show ?case using Suc.IH[OF s'(2), of "i + 1"] Suc.prems(2) s'(1)
    by (simp add: run_wp_def run_then_def spoken_simps)
qed

definition yield_text :: "string list" where
  "yield_text = [''[INIT] Test 4: Testing thread yield...\<newline>'', ''[INIT] SUCCESS: Yielded and returned\<newline>\<newline>'',
     ''[INIT] Test 5: Multiple yields (spinning)...\<newline>''] @ concat (map round_text [0..<5]) @
     [''[INIT] SUCCESS: Multiple yields complete\<newline>\<newline>'']"

lemma init_yield_ok:
  assumes m: "user_memory u ok" and o: "owns ok t p q n c s"
  shows "run_wp (init_yield u) s (\<lambda>r s'. r = Inr () \<and> owns ok t p q n (c @ spoken yield_text) s')"
proof -
  have loop: "run_wp (run_then (yield_rounds u 5 0) (\<lambda>_. say u ''[INIT] SUCCESS: Multiple yields complete\<newline>\<newline>'')) s1
      (\<lambda>r s'. r = Inr () \<and> owns ok t p q n (x @ spoken (concat (map round_text [0..<5]) @ [''[INIT] SUCCESS: Multiple yields complete\<newline>\<newline>''])) s')"
    if o1: "owns ok t p q n x s1" for x s1
  proof -
    obtain s2 where s2: "yield_rounds u 5 0 s1 = Some (Inr (), s2)" "owns ok t p q n (x @ spoken (concat (map round_text [0..<5]))) s2"
      using yield_rounds_ok[OF m o1, of 0 5] by (auto simp: run_wp_def)
    show ?thesis
      by (rule run_wp_then) (auto simp: run_wp_def[of "yield_rounds _ _ _"] s2(1) spoken_simps intro!: owns_say[OF m s2(2)])
  qed
  show ?thesis unfolding init_yield_def yield_text_def
    by (rule owns_say_then[OF m o], simp, rule run_wp_then, rule owns_yield, assumption, rule exI, rule conjI, rule refl,
        rule owns_say_then[OF m], assumption, simp, rule owns_say_then[OF m], assumption, simp)
       (drule loop, simp add: spoken_simps)
qed

definition end_text :: "string list" where
  "end_text = [''======================================\<newline>'', ''[INIT] All tests passed!\<newline>'',
     ''[INIT] Userspace is working correctly\<newline>'', ''======================================\<newline>\<newline>'',
     ''[INIT] Init process complete, exiting with code 0\<newline>'']"

text \<open>The last runnable thread exits: the scheduler finds nobody to switch to.\<close>

definition stopped :: "nat \<Rightarrow> nat \<Rightarrow> string \<Rightarrow> 'z thread_state_scheme \<Rightarrow> bool" where
  "stopped t p c s \<longleftrightarrow> ipc_inv s \<and> current s = Some t \<and> thread_status (threads s ! t) = THREAD_DEAD \<and>
     (\<forall>i<thread_count s. \<not> runnable (threads s) i) \<and> port_count s = Suc p \<and> queue s p = [] \<and> console s = c"

lemma exiting_console:
  "console (exiting 0 s) = console s @ ''Thread exiting with code: 0x0000000000000000\<newline>''"
  by (simp add: exiting_def thread_current_def set_thread_def serial_print_hex_text nibble_def hex_chars_def Let_def upt_rec
      split: option.split)

lemma exit_wp:
  fixes s :: "'z thread_state_scheme"
  assumes "owns ok t p [] n c s"
    and "\<And>s'. stopped t p (c @ ''Thread exiting with code: 0x0000000000000000\<newline>'') s' \<Longrightarrow> P (Inl SysHalt) s'"
  shows "run_wp (user_exit u 0) s P"
proof -
  note O = ownsD[OF assms(1)]
  note D = aloneD[OF O(1)]
  let ?s = "exiting 0 s"
  have inv: "ipc_inv ?s" by (rule ipc_inv_exiting[OF D(1)])
  have len: "t < length (threads s)" using D(4) thread_invD[OF ipc_invD(1)[OF D(1)]] by simp
  have th: "threads ?s = (threads s)[t := (threads s ! t)\<lparr>thread_status := THREAD_DEAD\<rparr>]" by (simp add: exiting_fields D(2))
  have dead: "\<forall>i<thread_count ?s. \<not> runnable (threads ?s) i"
    using O(1) len by (auto simp: alone_def th exiting_fields(2) runnable_def nth_list_update)
  then have "next_in_order (threads ?s) (thread_count ?s) t = None"
    using next_in_order_None[of t "thread_count ?s" "threads ?s"] D(4) by (simp add: exiting_fields)
  then have "thread_yield (uc_ra u) ?s = Some (Returns, ?s)"
    using thread_yield_eq[OF ipc_invD(1)[OF inv], of t "uc_ra u"] D(2) by (simp add: exiting_fields)
  then have "user_exit u 0 s = Some (Inl SysHalt, ?s)" by (simp add: user_exit_def call_simps yield_in_def)
  moreover have "stopped t p (c @ ''Thread exiting with code: 0x0000000000000000\<newline>'') ?s"
    using inv D(2) O(3,4,7) dead len by (simp add: stopped_def exiting_fields exiting_console queue_def queue_idx_def)
  ultimately show ?thesis using assms(2) by (auto simp: run_wp_def)
qed

lemma init_end_ok:
  assumes m: "user_memory u ok" and o: "owns ok t p [] n c s"
  shows "run_wp (init_end u) s (\<lambda>r s'. r = Inl SysHalt \<and>
    stopped t p (c @ spoken end_text @ ''Thread exiting with code: 0x0000000000000000\<newline>'') s')"
  unfolding init_end_def end_text_def
  by (intro owns_say_then[OF m o] owns_say_then[OF m] exit_wp; assumption?) (auto simp: spoken_simps)

section \<open>The whole program\<close>

definition init_transcript :: string where
  "init_transcript = spoken ([''[INIT] PlasmaOS userspace init starting...\<newline>'', ''[INIT] Running in ring 3\<newline>\<newline>'',
     ''[INIT] Test 1: Creating IPC port...\<newline>'', ''[INIT] SUCCESS: Port created\<newline>\<newline>'',
     ''[INIT] Test 2: Sending message to self...\<newline>'', ''[INIT] SUCCESS: Message sent (ID=42, data=[100,200,300,400])\<newline>\<newline>'',
     ''[INIT] Test 3: Receiving message...\<newline>'', ''[INIT] SUCCESS: Message received\<newline>'',
     ''[INIT]   Message ID: 42\<newline>'', ''[INIT]   Data: [100, 200, 300, 400]\<newline>\<newline>''] @ yield_text @ end_text) @
     ''Thread exiting with code: 0x0000000000000000\<newline>''"

text \<open>
  C9. The init program, started as the only runnable thread with a free port and room in the
  message pool, passes every one of its tests: it creates a port, sends itself a message,
  receives it, yields six times and gets the processor back each time, prints its
  transcript and exits, after which no thread can run and its port is empty.
\<close>

theorem init_passes_all_tests:
  assumes "user_memory u ok" "ok (phys_mem s) (cr3_reg s)"
    and "ipc_inv s" "current s = Some t" "\<forall>i<thread_count s. runnable (threads s) i \<longleftrightarrow> i = t"
    and "port_count s < MAX_PORTS" "message_pool_next s < MAX_MESSAGES"
  shows "\<exists>s'. init_start u s = Some (Inl SysHalt, s') \<and> console s' = console s @ init_transcript \<and>
    (\<forall>i<thread_count s'. \<not> runnable (threads s') i) \<and> ipc_inv s' \<and> port_count s' = Suc (port_count s) \<and> queue s' (port_count s) = []"
proof -
  have a: "alone ok t s" using assms(2-5) by (simp add: alone_def)
  have "run_wp (init_start u) s (\<lambda>r s'. r = Inl SysHalt \<and> stopped t (port_count s) (console s @ init_transcript) s')"
    unfolding init_start_def
  proof (rule run_wp_seq[OF init_banner_ok[OF assms(1) a]], elim conjE, intro exI conjI, assumption)
    fix r s1
    assume 1: "printed ok t s (spoken [''[INIT] PlasmaOS userspace init starting...\<newline>'', ''[INIT] Running in ring 3\<newline>\<newline>'']) s1"
    note V = ipc_viewD[OF 1]
    show "run_wp (run_then (init_port u) (\<lambda>port_id. run_then (init_send u port_id) (\<lambda>_. run_then (init_recv u port_id) (\<lambda>_.
       run_then (init_yield u) (\<lambda>_. init_end u))))) s1
      (\<lambda>r s'. r = Inl SysHalt \<and> stopped t (port_count s) (console s @ init_transcript) s')"
      apply (rule run_wp_seq[OF init_port_ok[OF assms(1) V(1)]], simp add: V assms, elim conjE, intro exI conjI, assumption)
      apply (rule run_wp_seq[OF init_send_ok[OF assms(1)]], assumption, simp add: V assms, elim conjE, intro exI conjI, assumption)
      apply (rule run_wp_seq[OF init_recv_ok[OF assms(1)]], assumption, elim conjE, intro exI conjI, assumption)
      apply (rule run_wp_seq[OF init_yield_ok[OF assms(1)]], assumption, elim conjE, intro exI conjI, assumption)
      apply (rule run_wp_mono[OF init_end_ok[OF assms(1)]], assumption, simp add: V init_transcript_def spoken_simps)
      done
  qed
  then show ?thesis by (auto simp: run_wp_def stopped_def)
qed

section \<open>A page of user memory\<close>

text \<open>
  Strings laid out one after the other, each with its terminator, and the walk of \<open>paging_mmu\<close> over them.
\<close>

primrec rodata :: "string list \<Rightarrow> u8 list" where
  "rodata [] = []"
| "rodata (x # xs) = map (\<lambda>c. of_nat (of_char c)) x @ 0 # rodata xs"

primrec offset_of :: "string \<Rightarrow> string list \<Rightarrow> nat" where
  "offset_of y [] = 0"
| "offset_of y (x # xs) = (if x = y then 0 else length x + 1 + offset_of y xs)"

lemma rodata_at:
  assumes "y \<in> set xs"
  shows "offset_of y xs + length y < length (rodata xs)"
    "i < length y \<Longrightarrow> rodata xs ! (offset_of y xs + i) = of_nat (of_char (y ! i))"
    "rodata xs ! (offset_of y xs + length y) = 0"
  using assms by (induction xs) (auto simp: nth_append add.assoc split: if_splits)

lemma paged_string_at:
  assumes "\<forall>i\<le>length x. translate m root (a + of_nat i) = Some (p + of_nat i)"
    and "\<forall>i<length x. m (p + of_nat i) = of_nat (of_char (x ! i))" "m (p + of_nat (length x)) = 0" "NUL \<notin> set x"
  shows "paged_string m root a = Some x"
  using assms
proof (induction x arbitrary: a p)
  case Nil
  then show ?case by (subst paged_string.simps) simp
next
  case (Cons c x)
  have "paged_string m root (a + 1) = Some x"
  proof (rule Cons.IH)
    have *: "a + 1 + of_nat i = a + of_nat (Suc i)" "p + 1 + of_nat i = p + of_nat (Suc i)" for i by simp_all
    show "\<forall>i\<le>length x. translate m root (a + 1 + of_nat i) = Some (p + 1 + of_nat i)"
      unfolding * using Cons.prems(1) by (metis Suc_le_mono length_Cons)
    show "\<forall>i<length x. m (p + 1 + of_nat i) = of_nat (of_char (x ! i))"
      unfolding * using Cons.prems(2) by (metis Suc_less_eq length_Cons nth_Cons_Suc)
  qed (use Cons.prems(3,4) in \<open>simp_all add: add.assoc\<close>)
  moreover have "translate m root a = Some p" "m p = of_nat (of_char c)" "c \<noteq> NUL"
    using Cons.prems(1,2,4) by (auto dest: spec[of _ 0])
  ultimately show ?case by (subst paged_string.simps) (simp add: char_byte of_char_zero_iff)
qed

text \<open>
  Four tables at \<^verbatim>\<open>0x20000\<close> map the page at \<^verbatim>\<open>0x400000\<close> to the frame \<^verbatim>\<open>0x30000\<close>; the strings of the
  program are at its start and the two variables further up.
\<close>

definition init_frame :: "nat \<Rightarrow> u8" where
  "init_frame i = (if i < length (rodata init_strings) then rodata init_strings ! i else 0)"

definition init_memory :: memory where
  "init_memory a =
     (if 0x30000 \<le> a \<and> a < 0x31000 then init_frame (unat (a - 0x30000))
      else if a = 0x20000 \<or> a = 0x21000 \<or> a = 0x22010 \<or> a = 0x23000 then 0x07
      else if a = 0x20001 then 0x10 else if a = 0x21001 then 0x20 else if a = 0x22011 then 0x30
      else if a = 0x20002 \<or> a = 0x21002 \<or> a = 0x22012 then 0x02
      else if a = 0x23002 then 0x03 else 0)"

definition init_ctx :: user_ctx where
  "init_ctx = \<lparr>uc_mmu = paging_mmu, uc_ra = 0, uc_regs = \<lparr>r_rax = 0, r_rdi = 0, r_rsi = 0, r_rdx = 0, r_rcx = 0, r_r8 = 0,
     r_r9 = 0, r_r10 = 0, r_rsp = 0, r_top = 0\<rparr>, uc_lit = (\<lambda>x. 0x400000 + of_nat (offset_of x init_strings)),
     uc_msg = 0x400F00, uc_num = 0x400F80\<rparr>"

definition init_ok :: "memory \<Rightarrow> u64 \<Rightarrow> bool" where
  "init_ok m c \<longleftrightarrow> c = 0x20000 \<and> (\<forall>a. \<not> (0x30F00 \<le> a \<and> a < 0x31000) \<longrightarrow> m a = init_memory a)"

lemma init_tables:
  assumes "init_ok m c"
  shows "pte m 0x20000 0 = 0x21007" "pte m 0x21000 0 = 0x22007" "pte m 0x22000 2 = 0x23007" "pte m 0x23000 0 = 0x30007"
proof -
  have m: "m a = init_memory a" if "a < 0x30F00" for a
    using assms that by (simp add: init_ok_def not_le)
  show "pte m 0x20000 0 = 0x21007" "pte m 0x21000 0 = 0x22007" "pte m 0x22000 2 = 0x23007" "pte m 0x23000 0 = 0x30007"
    by (simp_all add: pte_def entry_at_def load64_def load_bytes_def upt_rec m init_memory_def)
qed

lemma init_translate:
  assumes "init_ok m c" "n < 4096"
  shows "translate m (entry_to_phys c) (0x400000 + of_nat n) = Some (0x30000 + of_nat n)"
proof -
  have al: "aligned 0x400000" "aligned 0x30000" by simp_all
  have i: "indices 0x400000 = [0, 0, 2, 0]" by (simp add: indices_def pml4_index_def pdpt_index_def pd_index_def pt_index_def)
  have "entry_to_phys c = 0x20000" using assms(1) by (simp add: init_ok_def entry_to_phys_def)
  moreover have "page_walk m 0x20000 (0x400000 + of_nat n) = Some [0x21007, 0x22007, 0x23007, 0x30007]"
    using init_tables[OF assms(1)] page_offset(3)[OF al(1) assms(2)]
    by (simp add: page_walk_def i Let_def entry_to_phys_def flags7)
  moreover have "0x30000 OR take_bit 12 (of_nat n) = 0x30000 + take_bit 12 (of_nat n :: u64)"
    using frame_of_entry(2)[of 12 "0x30000" 0 "of_nat n"] by simp
  ultimately show ?thesis
    using page_offset(2)[OF al(1) assms(2)] assms(2)
    by (simp add: translate_def page_shift_def entry_to_phys_def take_bit_of_nat take_bit_nat_eq_self)
qed

lemma rodata_length: "length (rodata init_strings) < 0xF00"
  by (simp add: init_strings_def)

lemma frame_index_inj: "i < 4096 \<Longrightarrow> j < 4096 \<Longrightarrow> (0x30000 + of_nat i :: u64) = 0x30000 + of_nat j \<longleftrightarrow> i = j"
  by (simp add: word_of_nat_eq_iff take_bit_nat_eq_self)

lemma frame_bounds:
  assumes "i < 4096"
  shows "0x30000 \<le> (0x30000 + of_nat i :: u64)" "(0x30000 + of_nat i :: u64) < 0x31000"
    "0x30F00 \<le> (0x30000 + of_nat i :: u64) \<longleftrightarrow> 0xF00 \<le> i" "unat ((0x30000 + of_nat i :: u64) - 0x30000) = i"
proof -
  have "unat (0x30000 + of_nat i :: u64) = 0x30000 + i" using assms by (intro trans[OF unat_add_of_nat64]) simp_all
  then show "0x30000 \<le> (0x30000 + of_nat i :: u64)" "(0x30000 + of_nat i :: u64) < 0x31000"
    "0x30F00 \<le> (0x30000 + of_nat i :: u64) \<longleftrightarrow> 0xF00 \<le> i"
    using assms by (simp_all add: word_le_nat_alt word_less_nat_alt)
  show "unat ((0x30000 + of_nat i :: u64) - 0x30000) = i" using assms by (simp add: unsigned_of_nat take_bit_nat_eq_self)
qed

lemma init_store:
  assumes "init_ok m c" "0xF00 \<le> n" "n + length bs \<le> 4096"
  shows "\<exists>m'. paged_store m (entry_to_phys c) (0x400000 + of_nat n) bs = Some m' \<and> init_ok m' c \<and>
    (\<forall>i<4096. m' (0x30000 + of_nat i) = (if n \<le> i \<and> i < n + length bs then bs ! (i - n) else m (0x30000 + of_nat i)))"
  using assms
proof (induction bs arbitrary: m n)
  case Nil
  then show ?case by auto
next
  case (Cons b bs)
  have n: "n < 4096" using Cons.prems(3) by simp
  let ?m = "m(0x30000 + of_nat n := b)"
  have "init_ok ?m c" "0xF00 \<le> Suc n" "Suc n + length bs \<le> 4096"
    using Cons.prems frame_bounds[OF n] by (simp_all add: init_ok_def)
  from Cons.IH[OF this] obtain m' where m': "paged_store ?m (entry_to_phys c) (0x400000 + of_nat (Suc n)) bs = Some m'"
      "init_ok m' c" "\<forall>i<4096. m' (0x30000 + of_nat i) = (if Suc n \<le> i \<and> i < Suc n + length bs then bs ! (i - Suc n) else ?m (0x30000 + of_nat i))"
    by blast
  have "0x400000 + of_nat n + 1 = (0x400000 + of_nat (Suc n) :: u64)" by simp
  with m'(1) init_translate[OF Cons.prems(1) n]
  have "paged_store m (entry_to_phys c) (0x400000 + of_nat n) (b # bs) = Some m'" by (simp only: paged_store.simps option.case)
  moreover have "m' (0x30000 + of_nat i) = (if n \<le> i \<and> i < n + length (b # bs) then (b # bs) ! (i - n) else m (0x30000 + of_nat i))"
    if "i < 4096" for i
    using m'(3) that n frame_index_inj[OF that n] by (cases "i = n") (auto simp: nth_Cons')
  ultimately show ?case using m'(2) by blast
qed

lemma init_text:
  assumes "init_ok m c" "x \<in> init_literals"
  shows "paged_string m (entry_to_phys c) (0x400000 + of_nat (offset_of x init_strings)) = Some x"
proof -
  let ?o = "offset_of x init_strings"
  note R = rodata_at[OF assms(2)]
  have len: "?o + i < 0xF00" if "i \<le> length x" for i using R(1) rodata_length that by simp
  have byte: "m (0x30000 + of_nat (?o + i)) = rodata init_strings ! (?o + i)" if "i \<le> length x" for i
    using assms(1) len[OF that] frame_bounds[of "?o + i"] R(1) that by (simp add: init_ok_def init_memory_def init_frame_def del: of_nat_add)
  have sum: "a + of_nat ?o + of_nat i = a + of_nat (?o + i)" for a :: u64 and i by simp
  show ?thesis
  proof (rule paged_string_at[where p = "0x30000 + of_nat ?o"], unfold sum)
    show "\<forall>i\<le>length x. translate m (entry_to_phys c) (0x400000 + of_nat (?o + i)) = Some (0x30000 + of_nat (?o + i))"
    proof (intro allI impI)
      fix i assume "i \<le> length x"
      then have "?o + i < 4096" using len[of i] by simp
      then show "translate m (entry_to_phys c) (0x400000 + of_nat (?o + i)) = Some (0x30000 + of_nat (?o + i))"
        by (rule init_translate[OF assms(1)])
    qed
    show "\<forall>i<length x. m (0x30000 + of_nat (?o + i)) = of_nat (of_char (x ! i))" using byte R(2) by simp
    show "m (0x30000 + of_nat (?o + length x)) = 0" using byte R(3) by simp
    show "NUL \<notin> set x" using assms(2) by (auto simp: init_strings_def)
  qed
qed

lemma paged_string_one:
  assumes "translate m root a = Some p" "translate m root (a + 1) = Some q" "m p \<noteq> 0" "m q = 0"
  shows "paged_string m root a = Some [char_of (unat (m p))]"
proof -
  have "paged_string m root (a + 1) = Some []" using assms by (subst paged_string.simps) simp
  with assms show ?thesis by (subst paged_string.simps) simp
qed

lemma init_num:
  assumes ok: "init_ok m c" and b: "b \<noteq> 0"
  shows "\<exists>m'. paged_store m (entry_to_phys c) 0x400F80 [b, 0] = Some m' \<and> init_ok m' c \<and>
      paged_string m' (entry_to_phys c) 0x400F80 = Some [char_of (unat b)]"
proof -
  obtain m' where m': "paged_store m (entry_to_phys c) (0x400000 + of_nat 0xF80) [b, 0] = Some m'" "init_ok m' c"
    and v: "\<forall>i<4096. m' (0x30000 + of_nat i) = (if 0xF80 \<le> i \<and> i < 0xF80 + length [b, 0] then [b, 0] ! (i - 0xF80) else m (0x30000 + of_nat i))"
    using init_store[OF ok, of "0xF80" "[b, 0]"] by fastforce
  have "m' 0x30F80 = b" "m' 0x30F81 = 0" using v[rule_format, of "0xF80"] v[rule_format, of "0xF81"] by simp_all
  moreover have "translate m' (entry_to_phys c) 0x400F80 = Some 0x30F80" "translate m' (entry_to_phys c) (0x400F80 + 1) = Some 0x30F81"
    using init_translate[OF m'(2), of "0xF80"] init_translate[OF m'(2), of "0xF81"] by simp_all
  ultimately have "paged_string m' (entry_to_phys c) 0x400F80 = Some [char_of (unat b)]"
    using paged_string_one[of m' "entry_to_phys c" "0x400F80" "0x30F80" "0x30F81"] b by simp
  moreover have "(0x400000 + of_nat 0xF80 :: u64) = 0x400F80" by simp
  ultimately show ?thesis using m' by metis
qed

lemma init_user_memory: "user_memory init_ctx init_ok"
proof -
  have mm: "mmu_str (uc_mmu init_ctx) = (\<lambda>m c. paged_string m (entry_to_phys c))"
    "mmu_store (uc_mmu init_ctx) = (\<lambda>m c. paged_store m (entry_to_phys c))"
    "uc_msg init_ctx = 0x400000 + of_nat 0xF00" "uc_num init_ctx = 0x400F80"
    "uc_lit init_ctx x = 0x400000 + of_nat (offset_of x init_strings)" for x
    by (simp_all add: init_ctx_def paging_mmu_def)
  have msg: "\<exists>m'. paged_store m (entry_to_phys c) (0x400000 + of_nat 0xF00) bs = Some m' \<and> init_ok m' c"
    if "init_ok m c" "length bs = 20" for m c bs
    using init_store[OF that(1), of "0xF00" bs] that(2) by auto
  show ?thesis unfolding user_memory_def mm
  proof (intro conjI allI impI ballI)
    show "(0x400000 + of_nat 0xF00 :: u64) \<noteq> 0" by simp
  qed (use init_text in simp, erule (1) msg, erule (1) init_num)
qed

text \<open>Thread 1 runs \<open>init\<close>, thread 0 has exited.\<close>

definition init_state :: thread_state where
  "init_state = example_threads\<lparr>current := Some 1, phys_mem := init_memory, cr3_reg := 0x20000,
     threads := (threads example_threads)[0 := (threads example_threads ! 0)\<lparr>thread_status := THREAD_DEAD\<rparr>]\<rparr>"

lemma init_state_inv: "ipc_inv init_state"
proof (rule ipc_inv_no_messages(1))
  show "thread_inv init_state"
    by (simp add: thread_inv_def ring_def init_state_def example_threads_def bss_thread_def MAX_THREADS_def All_less_2)
qed (simp_all add: init_state_def example_fields MAX_PORTS_def MAX_MESSAGES_def)

theorem init_passes_all_tests_witness:
  "\<exists>s'. init_start init_ctx init_state = Some (Inl SysHalt, s') \<and> console s' = console init_state @ init_transcript"
proof -
  have f: "current init_state = Some 1" "thread_count init_state = 2" "port_count init_state = 0" "message_pool_next init_state = 0"
    by (simp_all add: init_state_def example_fields)
  have "init_ok (phys_mem init_state) (cr3_reg init_state)" by (simp add: init_state_def init_ok_def)
  moreover have "\<forall>i<thread_count init_state. runnable (threads init_state) i \<longleftrightarrow> i = 1"
    unfolding f(2) All_less_2 by (simp add: init_state_def example_threads_def runnable_def bss_thread_def)
  moreover have "port_count init_state < MAX_PORTS" "message_pool_next init_state < MAX_MESSAGES"
    by (simp_all add: f MAX_PORTS_def MAX_MESSAGES_def)
  ultimately show ?thesis
    using init_passes_all_tests[OF init_user_memory _ init_state_inv f(1)] by blast
qed

end
