(* ===== verification/Limine.thy ===== *)
theory Limine
  imports Pmm
begin

text \<open>
  What the kernel takes from the boot loader (\<^verbatim>\<open>limine.c\<close>). Each request has a response that
  the loader fills in or leaves null; the responses are a parameter, the record \<open>limine\<close>.
\<close>

record framebuffer =
  fb_width :: u64
  fb_height :: u64
  fb_bpp :: u16
  fb_address :: u64

record limine_file =
  file_path :: string
  file_address :: u64
  file_bytes :: u64

record limine =
  framebuffer_response :: "framebuffer list option"
  memmap_response :: "memmap_entry list option"
  hhdm_response :: "u64 option"
  executable_address_response :: "(u64 \<times> u64) option"
  module_response :: "limine_file list option"

definition print_framebuffer :: "framebuffer list option \<Rightarrow> 'z machine_scheme \<Rightarrow> 'z machine_scheme" where
  "print_framebuffer resp s =
     (case resp of
        Some (fb # _) \<Rightarrow>
          serial_print ''\<newline>'' (serial_print_hex (fb_address fb) (serial_print '' @ '' (serial_print_dec (ucast (fb_bpp fb))
            (serial_print ''x'' (serial_print_dec (fb_height fb) (serial_print ''x'' (serial_print_dec (fb_width fb)
              (serial_print ''  Framebuffer: '' s))))))))
      | _ \<Rightarrow> serial_print ''  Framebuffer: Not available\<newline>'' s)"

text \<open>The body of the loop over the first entries of the memory map.\<close>

definition print_memmap_entry :: "memmap_entry list \<Rightarrow> nat \<Rightarrow> 'z machine_scheme \<Rightarrow> 'z machine_scheme" where
  "print_memmap_entry es i s =
     (let entry = es ! i in
      serial_print ''\<newline>'' (serial_print_dec (me_type entry) (serial_print '', Type: '' (serial_print_hex (me_length entry)
        (serial_print '', Length: '' (serial_print_hex (me_base entry) (serial_print ''] Base: ''
          (serial_print_dec (of_nat i) (serial_print ''    ['' s)))))))))"

definition print_memmap :: "memmap_entry list option \<Rightarrow> 'z machine_scheme \<Rightarrow> 'z machine_scheme" where
  "print_memmap resp s =
     (case resp of
        None \<Rightarrow> serial_print ''  Memory map: Not available\<newline>'' s
      | Some es \<Rightarrow>
          (let s1 = serial_print '' entries\<newline>'' (serial_print_dec (of_nat (length es)) (serial_print ''  Memory map: '' s));
               s2 = fold (print_memmap_entry es) [0..<min (length es) 5] s1
           in if length es > 5
              then serial_print '' more entries)\<newline>'' (serial_print_dec (of_nat (length es) - 5) (serial_print ''    ... ('' s2))
              else s2))"

definition take_hhdm :: "u64 option \<Rightarrow> 'z machine_scheme \<Rightarrow> 'z machine_scheme" where
  "take_hhdm resp s =
     (case resp of
        None \<Rightarrow> serial_print ''  HHDM: Not available\<newline>'' s
      | Some offset \<Rightarrow>
          serial_print ''\<newline>'' (serial_print_hex offset (serial_print ''  HHDM offset: '' (s\<lparr>hhdm_offset := offset\<rparr>))))"

definition print_executable_address :: "(u64 \<times> u64) option \<Rightarrow> 'z machine_scheme \<Rightarrow> 'z machine_scheme" where
  "print_executable_address resp s =
     (case resp of
        None \<Rightarrow> serial_print ''  Executable address: Not available\<newline>'' s
      | Some (physical_base, virtual_base) \<Rightarrow>
          (let s1 = serial_print ''\<newline>'' (serial_print_hex physical_base (serial_print ''  Executable physical base: '' s))
           in serial_print ''\<newline>'' (serial_print_hex virtual_base (serial_print ''  Executable virtual base: '' s1))))"

definition limine_parse_info :: "limine \<Rightarrow> 'z machine_scheme \<Rightarrow> 'z machine_scheme" where
  "limine_parse_info lim s =
     print_executable_address (executable_address_response lim)
       (take_hhdm (hhdm_response lim) (print_memmap (memmap_response lim) (print_framebuffer (framebuffer_response lim) s)))"

definition limine_get_memmap_request :: "limine \<Rightarrow> memmap_entry list option" where
  "limine_get_memmap_request lim = memmap_response lim"

definition limine_get_executable_address_request :: "limine \<Rightarrow> (u64 \<times> u64) option" where
  "limine_get_executable_address_request lim = executable_address_response lim"

section \<open>What parsing changes\<close>

text \<open>The console is all that printing changes.\<close>

definition prints :: "'z machine_scheme \<Rightarrow> 'z machine_scheme \<Rightarrow> bool" where
  "prints s s' \<longleftrightarrow> (\<exists>c. s' = s\<lparr>console := c\<rparr>)"

lemma prints_refl [simp]: "prints s s"
  unfolding prints_def by (rule exI[of _ "console s"]) simp

lemma prints_print [simp]:
  fixes s t :: "'z machine_scheme"
  shows "prints s (serial_print x t) = prints s t" "prints s (serial_print_hex v t) = prints s t"
  "prints s (serial_print_dec v t) = prints s t"
proof -
  have *: "prints s (t\<lparr>console := c\<rparr>) = prints s t" for t :: "'z machine_scheme" and c
  proof
    assume "prints s (t\<lparr>console := c\<rparr>)"
    then obtain d where "t\<lparr>console := c\<rparr> = s\<lparr>console := d\<rparr>" by (auto simp: prints_def)
    then have "t\<lparr>console := c\<rparr>\<lparr>console := console t\<rparr> = s\<lparr>console := d\<rparr>\<lparr>console := console t\<rparr>" by simp
    then show "prints s t" by (auto simp: prints_def)
  qed (auto simp: prints_def)
  show "prints s (serial_print x t) = prints s t" "prints s (serial_print_hex v t) = prints s t"
    "prints s (serial_print_dec v t) = prints s t"
    by (simp_all add: * serial_print_hex_def serial_print_dec_def Let_def split: prod.split)
qed

lemma prints_memmap_entries: "prints s (fold (print_memmap_entry es) is t) = prints s t"
  by (induction "is" arbitrary: t) (simp_all add: print_memmap_entry_def Let_def del: serial_print_def)

lemma limine_parse_prints:
  "prints (s\<lparr>hhdm_offset := (case hhdm_response lim of None \<Rightarrow> hhdm_offset s | Some off \<Rightarrow> off)\<rparr>) (limine_parse_info lim s)"
proof -
  have 1: "prints s (print_memmap (memmap_response lim) (print_framebuffer (framebuffer_response lim) s))"
    by (auto simp: print_memmap_def print_framebuffer_def prints_memmap_entries Let_def simp del: serial_print_def
        split: option.split list.split)
  have 2: "prints (s\<lparr>hhdm_offset := (case hhdm_response lim of None \<Rightarrow> hhdm_offset s | Some off \<Rightarrow> off)\<rparr>) (take_hhdm (hhdm_response lim) t)"
    if "prints s t" for t
    using that by (auto simp: take_hhdm_def prints_def serial_print_hex_def split: option.split)
  show ?thesis using 2[OF 1] unfolding limine_parse_info_def
    by (auto simp: print_executable_address_def simp del: serial_print_def split: option.split)
qed

end
