(* ===== verification/Vmm_Spaces.thy ===== *)
theory Vmm_Spaces
  imports Vmm_Map
begin

text \<open>
  Several address spaces: \<open>vmm_create_address_space\<close>, \<open>vmm_destroy_address_space\<close> and the
  isolation of user address spaces. Every address space shares the kernel's tables for the
  upper half and has tables of its own for the lower half; \<open>vm_system\<close> is the invariant
  that says so for all of them, and every operation of \<^verbatim>\<open>vmm.c\<close> on user pages keeps it.
\<close>

unbundle bit_operations_syntax

section \<open>Steps inside the lower half of one address space\<close>

abbreviation low_path :: "u64 list \<Rightarrow> bool" where
  "low_path p \<equiv> path p \<and> (p = [] \<or> hd p < 256)"

text \<open>No table of the lower half of \<open>A\<close> is a table of \<open>B\<close>.\<close>

definition isolated :: "memory \<Rightarrow> u64 \<Rightarrow> u64 \<Rightarrow> bool" where
  "isolated m A B \<longleftrightarrow> (\<forall>p q t. low_path p \<longrightarrow> path q \<longrightarrow> table_at m A p = Some t \<longrightarrow> table_at m B q \<noteq> Some t)"

definition not_table :: "memory \<Rightarrow> u64 \<Rightarrow> u64 \<Rightarrow> bool" where
  "not_table m A x \<longleftrightarrow> (\<forall>p. path p \<longrightarrow> table_at m A p \<noteq> Some x)"

text \<open>
  One entry below index 256 of the address space changes, and new tables come from the
  free pages.
\<close>

definition space_step :: "u64 \<Rightarrow> 'z pmm_state_scheme \<Rightarrow> 'z pmm_state_scheme \<Rightarrow> bool" where
  "space_step A s s' \<longleftrightarrow> vm_inv s A \<and> vm_inv s' A \<and> hhdm_offset s' = hhdm_offset s
     \<and> set (free_list s') \<subseteq> set (free_list s)
     \<and> (\<exists>p t i v. path p \<and> hd (p @ [i]) < 256 \<and> table_at (phys_mem s) A p = Some t \<and> i < 512
          \<and> entry_update (set (free_list s)) (phys_mem s) (phys_mem s') t i v)
     \<and> (\<forall>q u. path q \<longrightarrow> table_at (phys_mem s') A q = Some u \<longrightarrow>
          table_at (phys_mem s) A q = Some u \<or> u \<in> set (free_list s) \<and> u \<notin> set (free_list s'))"

lemma space_stepE:
  assumes "space_step A s s'"
  obtains p t i v where "low_path p" "hd (p @ [i]) < 256" "table_at (phys_mem s) A p = Some t" "i < 512"
    "entry_update (set (free_list s)) (phys_mem s) (phys_mem s') t i v"
  using assms unfolding space_step_def by (metis append_Nil hd_append2)

lemma space_step_other:
  assumes st: "space_step A s s'" and B: "vm_inv s B"
    and iso: "isolated (phys_mem s) A B" "isolated (phys_mem s) B A"
  shows "vm_inv s' B" "isolated (phys_mem s') A B" "isolated (phys_mem s') B A"
    and "path q \<Longrightarrow> table_at (phys_mem s') B q = table_at (phys_mem s) B q"
    and "length is = 4 \<Longrightarrow> \<forall>j\<in>set is. j < 512 \<Longrightarrow> walk (phys_mem s') B is = walk (phys_mem s) B is"
    and "j < 512 \<Longrightarrow> pte (phys_mem s') B j = pte (phys_mem s) B j"
proof -
  obtain p t i v where p: "low_path p" "table_at (phys_mem s) A p = Some t"
    "entry_update (set (free_list s)) (phys_mem s) (phys_mem s') t i v"
    using st by (rule space_stepE)
  have foreign: "table_at (phys_mem s) B q \<noteq> Some t" if "path q" for q
    using iso(1) p that unfolding isolated_def by blast
  note f = foreign_update[OF vm_invD(2)[OF B] p(3) foreign]
  have st': "vm_inv s' A" "hhdm_offset s' = hhdm_offset s" "set (free_list s') \<subseteq> set (free_list s)"
    using st by (auto simp: space_step_def)
  show "vm_inv s' B"
    using st' pt_wf_mono[OF f(2) st'(3)] by (simp add: vm_inv_def)
  show tabs: "table_at (phys_mem s') B q = table_at (phys_mem s) B q" if "path q" for q by (rule f(1)[OF _ that])
  show "length is = 4 \<Longrightarrow> \<forall>j\<in>set is. j < 512 \<Longrightarrow> walk (phys_mem s') B is = walk (phys_mem s) B is"
    by (rule f(3))
  show "pte (phys_mem s') B j = pte (phys_mem s) B j" if "j < 512"
    using entry_update_pte[OF p(3) pt_wf_root(2,3)[OF vm_invD(2)[OF B]] that] foreign[of "[]"] by auto
  have new: "table_at (phys_mem s) A q = Some u \<or> u \<in> set (free_list s)"
    if "path q" "table_at (phys_mem s') A q = Some u" for q u
    using st that unfolding space_step_def by blast
  have notB: "table_at (phys_mem s) B q \<noteq> Some u" if "path q" "u \<in> set (free_list s)" for q u
    using pt_wfD(3)[OF vm_invD(2)[OF B] that(1)] that(2) by blast
  show "isolated (phys_mem s') A B"
    using new notB tabs iso(1) unfolding isolated_def by metis
  show "isolated (phys_mem s') B A"
    using new notB tabs iso(2) unfolding isolated_def by metis
qed

lemma space_step_page:
  assumes st: "space_step A s s'" and x: "aligned x" "x \<notin> set (free_list s)" "not_table (phys_mem s) A x"
  shows "x \<notin> set (free_list s')" "not_table (phys_mem s') A x"
    and "j < 512 \<Longrightarrow> pte (phys_mem s') x j = pte (phys_mem s) x j"
proof -
  obtain p t i v where p: "low_path p" "table_at (phys_mem s) A p = Some t"
    "entry_update (set (free_list s)) (phys_mem s) (phys_mem s') t i v"
    using st by (rule space_stepE)
  show "x \<notin> set (free_list s')" using st x(2) by (auto simp: space_step_def)
  show "not_table (phys_mem s') A x" using st x(2,3) unfolding space_step_def not_table_def by blast
  have "x \<noteq> t" using x(3) p(1,2) by (auto simp: not_table_def)
  then show "j < 512 \<Longrightarrow> pte (phys_mem s') x j = pte (phys_mem s) x j"
    using entry_update_pte[OF p(3) x(1,2)] by simp
qed

lemma space_step_top:
  assumes st: "space_step A s s'" and j: "j < 512" "256 \<le> j"
  shows "pte (phys_mem s') A j = pte (phys_mem s) A j"
proof -
  obtain p t i v where p: "low_path p" "hd (p @ [i]) < 256" "table_at (phys_mem s) A p = Some t"
    "entry_update (set (free_list s)) (phys_mem s) (phys_mem s') t i v"
    using st by (rule space_stepE)
  have wf: "pt_wf (hhdm_offset s) (phys_mem s) A (set (free_list s))" using st by (simp add: space_step_def vm_inv_def)
  have "\<not> (A = t \<and> j = i)"
  proof
    assume "A = t \<and> j = i"
    with pt_wfD(4)[OF wf, of p t "[]"] p have "p = []" by auto
    with p(2) \<open>A = t \<and> j = i\<close> j(2) show False by auto
  qed
  then show ?thesis using entry_update_pte[OF p(4) pt_wf_root(2,3)[OF wf] j(1)] by auto
qed

section \<open>Mapping and unmapping are such steps\<close>

abbreviation space_steps :: "u64 \<Rightarrow> 'z pmm_state_scheme \<Rightarrow> 'z pmm_state_scheme \<Rightarrow> bool" where
  "space_steps A \<equiv> (space_step A)\<^sup>*\<^sup>*"

lemma level_space_step:
  assumes "vm_inv s A" "path p" "hd (p @ [i]) < 256" "table_at (phys_mem s) A p = Some t" "i < 512"
    "level_done A p t i f s s' c"
  shows "space_step A s s'"
  unfolding space_step_def
proof (intro conjI allI impI)
  note D = level_doneD[OF assms(6)]
  show "\<exists>p t i v. path p \<and> hd (p @ [i]) < 256 \<and> table_at (phys_mem s) A p = Some t \<and> i < 512
      \<and> entry_update (set (free_list s)) (phys_mem s) (phys_mem s') t i v"
    using assms(2-5) D(7) by blast
  fix q u assume q: "path q" "table_at (phys_mem s') A q = Some u"
  show "table_at (phys_mem s) A q = Some u \<or> u \<in> set (free_list s) \<and> u \<notin> set (free_list s')"
    using D(8)[OF q(1)] D(9) q(2) by (cases "\<not> bit (pte (phys_mem s) t i) 0 \<and> q = p @ [i]") auto
qed (use assms(1) level_doneD(1,2,4)[OF assms(6)] in auto)

lemma levels_space_steps:
  assumes "levels A f s p s'" "vm_inv s A" "p = [] \<or> hd p < 256"
  shows "space_steps A s s'"
  using assms
proof (induction rule: levels.induct)
  case (level p s1 t i s2 c)
  have low: "hd (p @ [i]) < 256" using level.prems(2) by simp
  then have "p = [] \<or> hd p < 256" by (cases p) auto
  with level.IH level.prems(1) have "space_steps A s s1" by blast
  moreover have "vm_inv s1 A" "path p" using levels_props[OF level.hyps(1) level.prems(1)] by blast+
  then have "space_step A s1 s2" using low level.hyps(2,4,5) by (rule level_space_step)
  ultimately show ?case by simp
qed simp

lemma leaf_space_step:
  assumes inv: "vm_inv s A" and p: "path p" "p \<noteq> []" "hd p < 256" "table_at (phys_mem s) A p = Some t" "i < 512"
    and e: "length p < 3 \<longrightarrow> \<not> bit e 0 \<or> bit e 7"
    and s': "s' = s\<lparr>phys_mem := store64 (phys_mem s) (entry_at t i) e\<rparr>"
  shows "space_step A s s'"
  unfolding space_step_def
proof (intro conjI allI impI)
  note st = vm_inv_leaf_store[OF inv p(1,2,4,5) e s']
  note upd = leaf_update[OF vm_invD(2)[OF inv] p(1,2,4,5) e st(2)]
  show "vm_inv s' A" by (rule st)
  show "\<exists>p t i v. path p \<and> hd (p @ [i]) < 256 \<and> table_at (phys_mem s) A p = Some t \<and> i < 512
      \<and> entry_update (set (free_list s)) (phys_mem s) (phys_mem s') t i v"
    using p st(2) hd_append2[OF p(2), of "[i]"] by metis
  fix q u assume "path q" "table_at (phys_mem s') A q = Some u"
  with upd(2)[of q] show "table_at (phys_mem s) A q = Some u \<or> u \<in> set (free_list s) \<and> u \<notin> set (free_list s')"
    by (auto split: if_splits)
qed (use inv in \<open>auto simp: s' free_list_def\<close>)

text \<open>A change of the console or of the log of the translation cache.\<close>

definition quiet :: "'z pmm_state_scheme \<Rightarrow> 'z pmm_state_scheme \<Rightarrow> bool" where
  "quiet s s' \<longleftrightarrow> phys_mem s' = phys_mem s \<and> free_list s' = free_list s \<and> hhdm_offset s' = hhdm_offset s
     \<and> (\<forall>A. vm_inv s' A = vm_inv s A)"

lemma quiet_refl: "quiet s s"
  by (simp add: quiet_def)

lemma quiet_console: "quiet s (s\<lparr>console := c\<rparr>)"
  by (simp add: quiet_def free_list_def)

lemma quiet_invlpg: "quiet s (invlpg v s)"
  by (simp add: quiet_def) (simp add: invlpg_def)

lemma map_space_steps:
  assumes inv: "vm_inv s A" and as: "as \<noteq> NullAS" "as_pml4 as s = phys_to_virt (hhdm_offset s) A"
    and low: "pml4_index v < 256"
    and large: "\<And>es. page_walk (phys_mem s) A v = Some es \<Longrightarrow> map_depth v flags < length es"
    and r: "vmm_map_page as v phys flags s = (x, s')"
  shows "\<exists>s1. space_steps A s s1 \<and> quiet s1 s'"
proof (rule map_page_cases[OF inv as _ r])
  fix es assume "page_walk (phys_mem s) A v = Some es"
  then show "map_depth v flags < length es" by (rule large)
next
  fix n s1 assume f: "levels A flags s (take n (indices v)) s1" "s' = oom s1"
  have "take n (indices v) = [] \<or> hd (take n (indices v)) < 256" using low by (cases n) (auto simp: indices_def)
  from levels_space_steps[OF f(1) inv this] show ?thesis using f(2) quiet_console[of s1] by auto
next
  fix s1 t
  let ?d = "map_depth v flags" let ?I = "take ?d (indices v)"
  assume m: "levels A flags s ?I s1" "table_at (phys_mem s1) A ?I = Some t"
    "s' = (if bit flags 7 then id else invlpg v)
       (s1\<lparr>phys_mem := store64 (phys_mem s1) (entry_at t (indices v ! ?d)) (phys OR flags)\<rparr>)"
  note d = map_depth_cases[of v flags]
  have I: "?I \<noteq> []" "hd ?I < 256" "indices v ! ?d < 512" "length ?I = ?d"
    using d low by (auto simp: indices_def index_less numeral_3_eq_3 numeral_2_eq_2)
  have e: "length ?I < 3 \<longrightarrow> \<not> bit (phys OR flags) 0 \<or> bit (phys OR flags) 7"
    using I(4) by (auto simp: map_depth_def bit_simps split: if_splits)
  have "vm_inv s1 A" "path ?I" using levels_props[OF m(1) inv] by blast+
  from leaf_space_step[OF this I(1,2) m(2) I(3) e refl] levels_space_steps[OF m(1) inv] I(2)
  have "space_steps A s (s1\<lparr>phys_mem := store64 (phys_mem s1) (entry_at t (indices v ! ?d)) (phys OR flags)\<rparr>)"
    by simp
  then show ?thesis using m(3) quiet_invlpg quiet_refl by (auto split: if_splits)
qed

lemma unmap_space_steps:
  assumes inv: "vm_inv s A" and as: "as \<noteq> NullAS" "as_pml4 as s = phys_to_virt (hhdm_offset s) A"
    and low: "pml4_index v < 256"
  shows "\<exists>s1. space_steps A s s1 \<and> quiet s1 (vmm_unmap_page as v s)"
proof (rule unmap_cases[OF inv as, of v])
  assume "vmm_unmap_page as v s = s"
  then show ?thesis using quiet_refl by auto
next
  fix d t
  let ?I = "take d (indices v)"
  assume c: "d = 1 \<or> d = 2 \<or> d = 3" "table_at (phys_mem s) A ?I = Some t"
    "vmm_unmap_page as v s = invlpg v (s\<lparr>phys_mem := store64 (phys_mem s) (entry_at t (indices v ! d)) 0\<rparr>)"
  have I: "path ?I" "?I \<noteq> []" "hd ?I < 256" "indices v ! d < 512"
    using c(1) low by (auto simp: indices_def index_less numeral_3_eq_3 numeral_2_eq_2)
  have "space_step A s (s\<lparr>phys_mem := store64 (phys_mem s) (entry_at t (indices v ! d)) 0\<rparr>)"
    by (rule leaf_space_step[OF inv I(1-3) c(2) I(4) _ refl]) simp
  then show ?thesis using c(3) quiet_invlpg by auto
qed

section \<open>The invariant of all address spaces\<close>

text \<open>
  \<open>R\<close> is the set of root tables, \<open>P\<close> the set of pages that hold an \<^verbatim>\<open>address_space_t\<close>.
\<close>

definition spaces_inv :: "u64 set \<Rightarrow> u64 set \<Rightarrow> 'z pmm_state_scheme \<Rightarrow> bool" where
  "spaces_inv R P s \<longleftrightarrow> (\<forall>A\<in>R. vm_inv s A)
     \<and> (\<forall>A\<in>R. \<forall>B\<in>R. A \<noteq> B \<longrightarrow> isolated (phys_mem s) A B)
     \<and> (\<forall>A\<in>R. \<forall>B\<in>R. \<forall>j. 256 \<le> j \<longrightarrow> j < 512 \<longrightarrow> pte (phys_mem s) A j = pte (phys_mem s) B j)
     \<and> (\<forall>a\<in>P. frame_ok (hhdm_offset s) a \<and> a \<notin> set (free_list s) \<and> (\<forall>B\<in>R. not_table (phys_mem s) B a))"

lemma spaces_invD:
  assumes "spaces_inv R P s"
  shows "A \<in> R \<Longrightarrow> vm_inv s A" "A \<in> R \<Longrightarrow> B \<in> R \<Longrightarrow> A \<noteq> B \<Longrightarrow> isolated (phys_mem s) A B"
    and "A \<in> R \<Longrightarrow> B \<in> R \<Longrightarrow> 256 \<le> j \<Longrightarrow> j < 512 \<Longrightarrow> pte (phys_mem s) A j = pte (phys_mem s) B j"
    and "a \<in> P \<Longrightarrow> frame_ok (hhdm_offset s) a" "a \<in> P \<Longrightarrow> a \<notin> set (free_list s)"
    and "a \<in> P \<Longrightarrow> B \<in> R \<Longrightarrow> not_table (phys_mem s) B a"
  using assms unfolding spaces_inv_def by blast+

lemma spaces_quiet: "quiet s s' \<Longrightarrow> spaces_inv R P s' = spaces_inv R P s"
  by (simp add: quiet_def spaces_inv_def)

lemma spaces_step:
  assumes inv: "spaces_inv R P s" and A: "A \<in> R" and st: "space_step A s s'"
  shows "spaces_inv R P s'"
proof -
  have oth: "vm_inv s' B" "isolated (phys_mem s') A B" "isolated (phys_mem s') B A"
    "\<And>q. path q \<Longrightarrow> table_at (phys_mem s') B q = table_at (phys_mem s) B q"
    "\<And>j. j < 512 \<Longrightarrow> pte (phys_mem s') B j = pte (phys_mem s) B j"
    if "B \<in> R" "B \<noteq> A" for B
    by (rule space_step_other[OF st spaces_invD(1)[OF inv that(1)] spaces_invD(2)[OF inv A that(1) that(2)[symmetric]]
        spaces_invD(2)[OF inv that(1) A that(2)]], assumption?)+
  have invA: "vm_inv s' A" and h: "hhdm_offset s' = hhdm_offset s" using st by (auto simp: space_step_def)
  have iso: "isolated (phys_mem s') B C" if "B \<in> R" "C \<in> R" "B \<noteq> C" for B C
  proof (cases "B = A \<or> C = A")
    case False
    then show ?thesis using spaces_invD(2)[OF inv that] oth(4)[of B] oth(4)[of C] that by (simp add: isolated_def)
  qed (use oth(2,3) that in auto)
  have top: "pte (phys_mem s') B j = pte (phys_mem s) B j" if "B \<in> R" "256 \<le> j" "j < 512" for B j
    using oth(5)[of B j] space_step_top[OF st] that by (cases "B = A") auto
  have pages: "frame_ok (hhdm_offset s') a \<and> a \<notin> set (free_list s') \<and> (\<forall>B\<in>R. not_table (phys_mem s') B a)"
    if "a \<in> P" for a
  proof -
    note D = spaces_invD(4,5)[OF inv that]
    note pg = space_step_page[OF st frame_okD(1)[OF D(1)] D(2) spaces_invD(6)[OF inv that A]]
    have "not_table (phys_mem s') B a" if "B \<in> R" for B
      using pg(2) oth(4)[OF that] spaces_invD(6)[OF inv \<open>a \<in> P\<close> that] by (cases "B = A") (auto simp: not_table_def)
    with D(1) h pg(1) show ?thesis by simp
  qed
  show ?thesis unfolding spaces_inv_def
  proof (intro conjI ballI allI impI)
    show "vm_inv s' B" if "B \<in> R" for B using that oth(1) invA by (cases "B = A") auto
    show "pte (phys_mem s') B j = pte (phys_mem s') C j" if "B \<in> R" "C \<in> R" "256 \<le> j" "j < 512" for B C j
      using top that spaces_invD(3)[OF inv that] by simp
  qed (use iso pages in auto)
qed

text \<open>What the steps of one address space leave alone.\<close>

lemma spaces_steps:
  assumes "space_steps A s s'" "spaces_inv R P s" "A \<in> R"
  shows "spaces_inv R P s' \<and> hhdm_offset s' = hhdm_offset s
    \<and> (\<forall>a\<in>P. \<forall>j<512. pte (phys_mem s') a j = pte (phys_mem s) a j)
    \<and> (\<forall>B\<in>R. B \<noteq> A \<longrightarrow> (\<forall>is. length is = 4 \<longrightarrow> (\<forall>j\<in>set is. j < 512) \<longrightarrow> walk (phys_mem s') B is = walk (phys_mem s) B is))
    \<and> (\<forall>j<512. 256 \<le> j \<longrightarrow> pte (phys_mem s') A j = pte (phys_mem s) A j)"
  using assms
proof (induction rule: rtranclp_induct)
  case (step t u)
  then have t: "spaces_inv R P t" by blast
  have a: "pte (phys_mem u) a j = pte (phys_mem t) a j" if "a \<in> P" "j < 512" for a j
    using space_step_page(3)[OF step.hyps(2) frame_okD(1)[OF spaces_invD(4)[OF t that(1)]] spaces_invD(5)[OF t that(1)]
        spaces_invD(6)[OF t that(1) step.prems(2)] that(2)] .
  have w: "walk (phys_mem u) B is = walk (phys_mem t) B is"
    if "B \<in> R" "B \<noteq> A" "length is = 4" "\<forall>j\<in>set is. j < 512" for B "is"
    using space_step_other(5)[OF step.hyps(2) spaces_invD(1)[OF t that(1)] spaces_invD(2)[OF t step.prems(2) that(1)]
        spaces_invD(2)[OF t that(1) step.prems(2)] that(3,4)] that(2) by blast
  have h: "hhdm_offset u = hhdm_offset t" using step.hyps(2) by (simp add: space_step_def)
  note IH = step.IH[OF step.prems]
  show ?case
  proof (intro conjI ballI allI impI)
    show "spaces_inv R P u" by (rule spaces_step[OF t step.prems(2) step.hyps(2)])
    show "hhdm_offset u = hhdm_offset s" using IH h by simp
    show "pte (phys_mem u) x j = pte (phys_mem s) x j" if "x \<in> P" "j < 512" for x j using IH a[OF that] that by simp
    show "walk (phys_mem u) B is = walk (phys_mem s) B is"
      if "B \<in> R" "B \<noteq> A" "length is = 4" "\<forall>j\<in>set is. j < 512" for B "is" using IH w[OF that] that by simp
    show "pte (phys_mem u) A j = pte (phys_mem s) A j" if "j < 512" "256 \<le> j" for j
      using IH space_step_top[OF step.hyps(2) that] that by simp
  qed
qed simp

section \<open>Creating an address space\<close>

lemma as_fields:
  assumes "frame_ok (hhdm_offset s) a"
  shows "as_pml4 (AsPtr (phys_to_virt (hhdm_offset s) a)) s = pte (phys_mem s) a 0"
    and "as_cr3_value (AsPtr (phys_to_virt (hhdm_offset s) a)) s = pte (phys_mem s) a 1"
proof -
  have e: "entry_at x 0 = x" "entry_at x 1 = x + 8" for x by (simp_all add: entry_at_def)
  have c: "hhdm_covers (hhdm_offset s) a" using assms by (rule frame_okD)
  show "as_pml4 (AsPtr (phys_to_virt (hhdm_offset s) a)) s = pte (phys_mem s) a 0"
    using kload_entry[OF c, of 0] by (simp add: as_pml4_def e)
  show "as_cr3_value (AsPtr (phys_to_virt (hhdm_offset s) a)) s = pte (phys_mem s) a 1"
    using kload_entry[OF c, of 1] by (simp add: as_cr3_value_def e)
qed

lemma copy_kernel_half_upto:
  fixes s :: "'z vmm_state_scheme"
  assumes "frame_ok (hhdm_offset s) a" "frame_ok (hhdm_offset s) r" "frame_ok (hhdm_offset s) k" "a \<noteq> r" "k \<noteq> r"
    and "pte (phys_mem s) a 0 = phys_to_virt (hhdm_offset s) r" "kas_pml4 s = phys_to_virt (hhdm_offset s) k"
    and "n \<le> 512"
  shows "\<exists>m. fold (\<lambda>i t. kstore64 (entry_at (as_pml4 (AsPtr (phys_to_virt (hhdm_offset s) a)) t) (of_nat i))
      (kload64 (entry_at (kas_pml4 t) (of_nat i)) t) t) [256..<n] s = s\<lparr>phys_mem := m\<rparr>
    \<and> (\<forall>u j. aligned u \<longrightarrow> j < 512 \<longrightarrow> pte m u j =
         (if u = r \<and> 256 \<le> unat j \<and> unat j < n then pte (phys_mem s) k j else pte (phys_mem s) u j))"
  using assms(8)
proof (induction n)
  case 0
  show ?case by (rule exI[of _ "phys_mem s"]) simp
next
  case (Suc n)
  let ?h = "hhdm_offset s"
  let ?F = "\<lambda>i t. kstore64 (entry_at (as_pml4 (AsPtr (phys_to_virt ?h a)) t) (of_nat i))
      (kload64 (entry_at (kas_pml4 t) (of_nat i)) t) (t :: 'z vmm_state_scheme)"
  obtain m where m: "fold ?F [256..<n] s = s\<lparr>phys_mem := m\<rparr>"
    "\<And>u j. aligned u \<Longrightarrow> j < 512 \<Longrightarrow> pte m u j =
       (if u = r \<and> 256 \<le> unat j \<and> unat j < n then pte (phys_mem s) k j else pte (phys_mem s) u j)"
    using Suc by auto
  show ?case
  proof (cases "256 \<le> n")
    case False
    with m Suc.prems show ?thesis by (intro exI[of _ m]) (auto simp: not_le)
  next
    case True
    define i :: u64 where "i = of_nat n"
    have n: "unat i = n" using Suc.prems by (simp add: i_def unat_of_nat64)
    then have i: "i < 512" using Suc.prems by (simp add: word_less_nat_alt)
    note al = assms(1-3)[THEN frame_okD(1)] and cov = assms(1-3)[THEN frame_okD(2)]
    let ?t = "s\<lparr>phys_mem := m\<rparr>"
    have "as_pml4 (AsPtr (phys_to_virt ?h a)) ?t = phys_to_virt ?h r"
      using as_fields(1)[of ?t a] assms(1,4,6) m(2)[OF al(1), of 0] by simp
    moreover have "kload64 (entry_at (kas_pml4 ?t) i) ?t = pte (phys_mem s) k i"
      using kload_entry[of ?t k i] cov i assms(5,7) m(2)[OF al(3) i] by simp
    ultimately have step: "?F n ?t = s\<lparr>phys_mem := store64 m (entry_at r i) (pte (phys_mem s) k i)\<rparr>"
      using kstore_entry[of ?t r i] cov i by (simp add: i_def[symmetric])
    have eq: "unat j < Suc n \<longleftrightarrow> unat j < n \<or> j = i" for j using n by (auto simp: less_Suc_eq word_unat_eq_iff)
    have "pte (store64 m (entry_at r i) (pte (phys_mem s) k i)) u j =
       (if u = r \<and> 256 \<le> unat j \<and> unat j < Suc n then pte (phys_mem s) k j else pte (phys_mem s) u j)"
      if "aligned u" "j < 512" for u j
      using pte_store[OF al(2) that(1) i that(2)] m(2)[OF that] True n by (auto simp: eq)
    then show ?thesis using m(1) step True by (intro exI[of _ "store64 m (entry_at r i) (pte (phys_mem s) k i)"]) simp
  qed
qed

lemma alloc_view:
  fixes s :: "'z vmm_state_scheme"
  assumes "free_list s = fl @ [q]" "frame_ok (hhdm_offset s) q" "pmm_inv s"
  obtains s' where "pmm_alloc_page s = (q, s')" "free_list s' = fl" "pmm_inv s'"
    "hhdm_offset s' = hhdm_offset s" "kas_pml4 s' = kas_pml4 s" "kas_cr3 s' = kas_cr3 s"
    "\<And>u j. aligned u \<Longrightarrow> j < 512 \<Longrightarrow> pte (phys_mem s') u j = (if u = q then 0 else pte (phys_mem s) u j)"
proof -
  have ne: "free_list s \<noteq> []" using assms(1) by simp
  note a = alloc_nonempty[OF ne]
  let ?s = "snd (pmm_alloc_page s)"
  have "phys_mem ?s = store_bytes (phys_mem s) q (replicate 4096 0)"
    using assms(1,2) by (simp add: a(1) kcopy_direct_map frame_ok_def)
  then have "pte (phys_mem ?s) u j = (if u = q then 0 else pte (phys_mem s) u j)" if "aligned u" "j < 512" for u j
    using pte_fill[OF frame_okD(1)[OF assms(2)] that] by simp
  moreover have "pmm_alloc_page s = (q, ?s)" using a(1) assms(1) by simp
  ultimately show thesis
    using a(2) assms(1) pmm_alloc_invariant[OF assms(3)] alloc_only_fields(1)[OF alloc_only_alloc[of s]]
      alloc_only_vmm(1,2)[OF alloc_only_alloc[of s]]
    by (intro that[of ?s]) simp_all
qed

text \<open>
  With two free pages, the new address space takes the last for its descriptor and the
  last but one for its root table.
\<close>

lemma create_view:
  fixes s :: "'z vmm_state_scheme"
  assumes inv: "vm_inv s k" and kas: "kas_pml4 s = phys_to_virt (hhdm_offset s) k"
    and fl: "free_list s = fl @ [r, a]"
  obtains s' where "vmm_create_address_space s = (AsPtr (phys_to_virt (hhdm_offset s) a), s')"
    "pmm_inv s'" "free_list s' = fl" "hhdm_offset s' = hhdm_offset s" "kas_pml4 s' = kas_pml4 s" "kas_cr3 s' = kas_cr3 s"
    "pte (phys_mem s') a 0 = phys_to_virt (hhdm_offset s) r" "pte (phys_mem s') a 1 = r"
    "\<And>j. j < 512 \<Longrightarrow> pte (phys_mem s') r j = (if 256 \<le> j then pte (phys_mem s) k j else 0)"
    "\<And>u j. aligned u \<Longrightarrow> u \<notin> {a, r} \<Longrightarrow> j < 512 \<Longrightarrow> pte (phys_mem s') u j = pte (phys_mem s) u j"
proof -
  let ?h = "hhdm_offset s" and ?as = "phys_to_virt (hhdm_offset s) a" and ?p = "phys_to_virt (hhdm_offset s) r"
  have ok: "frame_ok ?h a" "frame_ok ?h r" using vm_invD(3)[OF inv] fl by simp_all
  have k: "frame_ok ?h k" "k \<noteq> a" "k \<noteq> r" using pt_wf_root(1,3)[OF vm_invD(2)[OF inv]] fl by auto
  have ar: "a \<noteq> r" using vm_invD(1)[OF inv] fl by (auto simp: pmm_inv_def)
  note al = ok(1)[THEN frame_okD(1)] ok(2)[THEN frame_okD(1)] k(1)[THEN frame_okD(1)]
  obtain s1 where s1: "pmm_alloc_page s = (a, s1)" "free_list s1 = fl @ [r]" "pmm_inv s1" "hhdm_offset s1 = ?h"
    "kas_pml4 s1 = kas_pml4 s" "kas_cr3 s1 = kas_cr3 s"
    "\<And>u j. aligned u \<Longrightarrow> j < 512 \<Longrightarrow> pte (phys_mem s1) u j = (if u = a then 0 else pte (phys_mem s) u j)"
    using alloc_view[of s "fl @ [r]" a] fl ok(1) vm_invD(1)[OF inv] by auto
  obtain s2 where s2: "pmm_alloc_page s1 = (r, s2)" "free_list s2 = fl" "pmm_inv s2" "hhdm_offset s2 = ?h"
    "kas_pml4 s2 = kas_pml4 s" "kas_cr3 s2 = kas_cr3 s"
    "\<And>u j. aligned u \<Longrightarrow> j < 512 \<Longrightarrow> pte (phys_mem s2) u j = (if u = r then 0 else pte (phys_mem s1) u j)"
    using alloc_view[of s1 fl r] s1 ok(2) by auto
  define m3 where "m3 = store64 (store64 (phys_mem s2) (entry_at a 0) ?p) (entry_at a 1) r"
  let ?s3 = "s2\<lparr>phys_mem := m3\<rparr>"
  have e: "?as = entry_at ?as 0" "?as + 8 = entry_at ?as 1" by (simp_all add: entry_at_def)
  have st: "kstore64 (?as + 8) r (kstore64 ?as ?p s2) = ?s3"
    using kstore_entry[of s2 a 0] kstore_entry[of "s2\<lparr>phys_mem := x\<rparr>" a 1 for x] ok(1)[THEN frame_okD(2)] s2(4)
    unfolding e(2) by (subst e(1)) (simp add: m3_def)
  have p3: "pte m3 u j = (if u = a \<and> j = 1 then r else if u = a \<and> j = 0 then ?p else pte (phys_mem s2) u j)"
    if "aligned u" "j < 512" for u j
    using pte_store[OF al(1) that(1) _ that(2)] by (auto simp: m3_def)
  obtain m where m: "copy_kernel_half (AsPtr ?as) ?s3 = ?s3\<lparr>phys_mem := m\<rparr>"
    "\<And>u j. aligned u \<Longrightarrow> j < 512 \<Longrightarrow> pte m u j = (if u = r \<and> 256 \<le> unat j \<and> unat j < 512 then pte m3 k j else pte m3 u j)"
  proof -
    have h: "hhdm_offset ?s3 = ?h" "phys_mem ?s3 = m3" using s2(4) by simp_all
    have p0: "pte m3 a 0 = ?p" "kas_pml4 ?s3 = phys_to_virt ?h k" using p3[OF al(1), of 0] s2(5) kas by simp_all
    from copy_kernel_half_upto[of ?s3 a r k 512, unfolded h copy_kernel_half_def[symmetric], OF ok k(1) ar k(3) p0]
    show thesis using that by blast
  qed
  have run: "vmm_create_address_space s = (AsPtr ?as, ?s3\<lparr>phys_mem := m\<rparr>)"
    using s1(1,4) s2(1,4) st m(1) ok[THEN frame_ok_def[THEN iffD1]]
    by (simp add: vmm_create_address_space_def)
  show thesis
  proof (rule that[OF run])
    show "pmm_inv (?s3\<lparr>phys_mem := m\<rparr>)" "free_list (?s3\<lparr>phys_mem := m\<rparr>) = fl"
      using s2(2,3) by (simp_all add: pmm_inv_def free_list_def)
    show "pte (phys_mem (?s3\<lparr>phys_mem := m\<rparr>)) a 0 = ?p" "pte (phys_mem (?s3\<lparr>phys_mem := m\<rparr>)) a 1 = r"
      using m(2)[OF al(1)] p3[OF al(1)] ar by simp_all
    show "pte (phys_mem (?s3\<lparr>phys_mem := m\<rparr>)) r j = (if 256 \<le> j then pte (phys_mem s) k j else 0)" if "j < 512" for j
      using m(2)[OF al(2) that] p3[OF al(2) that] p3[OF al(3) that] s2(7)[OF al(2) that] s2(7)[OF al(3) that]
        s1(7)[OF al(3) that] k ar that by (auto simp: word_le_nat_alt word_less_nat_alt)
    show "pte (phys_mem (?s3\<lparr>phys_mem := m\<rparr>)) u j = pte (phys_mem s) u j" if "aligned u" "u \<notin> {a, r}" "j < 512" for u j
      using m(2)[OF that(1,3)] p3[OF that(1,3)] s2(7)[OF that(1,3)] s1(7)[OF that(1,3)] that(2) by simp
  qed (use s2 in simp_all)
qed

text \<open>
  A root table \<open>r\<close> taken from the free pages that copies the upper half of \<open>k\<close>, in memory
  that is otherwise as before: its tables are itself and those of the upper half of \<open>k\<close>.
\<close>

definition half_copy :: "u64 set \<Rightarrow> memory \<Rightarrow> memory \<Rightarrow> u64 \<Rightarrow> u64 \<Rightarrow> bool" where
  "half_copy av m m' k r \<longleftrightarrow>
     (\<forall>u j. aligned u \<longrightarrow> u \<notin> av \<longrightarrow> j < 512 \<longrightarrow> pte m' u j = pte m u j)
   \<and> (\<forall>j<512. pte m' r j = (if 256 \<le> j then pte m k j else 0))"

lemma half_copy_others:
  assumes hc: "half_copy av m m' k r" and B: "pt_wf h m B av" and r: "r \<in> av"
  shows "path q \<Longrightarrow> table_at m' B q = table_at m B q" "pt_wf h m' B av"
    and "length is = 4 \<Longrightarrow> \<forall>j\<in>set is. j < 512 \<Longrightarrow> walk m' B is = walk m B is"
    and "j < 512 \<Longrightarrow> pte m' B j = pte m B j"
proof -
  have upd: "entry_update av m m' r 0 v" for v using hc r by (auto simp: half_copy_def entry_update_def)
  have no: "table_at m B p \<noteq> Some r" if "path p" for p using pt_wfD(3)[OF B that] r by blast
  note f = foreign_update[OF B upd no]
  show "path q \<Longrightarrow> table_at m' B q = table_at m B q" "pt_wf h m' B av"
    "length is = 4 \<Longrightarrow> \<forall>j\<in>set is. j < 512 \<Longrightarrow> walk m' B is = walk m B is" by (rule f; assumption)+
  show "j < 512 \<Longrightarrow> pte m' B j = pte m B j" using hc pt_wf_root(2,3)[OF B] by (simp add: half_copy_def)
qed

lemma half_copy_tables:
  assumes hc: "half_copy av m m' k r" and k: "pt_wf h m k av" and r: "r \<in> av" and p: "path (i # p)"
  shows "table_at m' r (i # p) = (if 256 \<le> i then table_at m k (i # p) else None)"
proof -
  have i: "i < 512" using p by simp
  have e: "pte m' r i = (if 256 \<le> i then pte m k i else 0)" using hc i by (simp add: half_copy_def)
  have "table_at m' k (i # p) = table_at m k (i # p)" by (rule half_copy_others(1)[OF hc k r p])
  moreover have "pte m' k i = pte m k i" by (rule half_copy_others(4)[OF hc k r i])
  ultimately show ?thesis using e by (auto simp: subtable_def)
qed

lemma half_copy_walk:
  assumes hc: "half_copy av m m' k r" and k: "pt_wf h m k av" and r: "r \<in> av"
  shows "page_walk m' r v = (if pml4_index v < 256 then None else page_walk m k v)"
proof -
  have i: "pml4_index v < 512" by (rule index_less)
  have e: "pte m' r (pml4_index v) = (if 256 \<le> pml4_index v then pte m k (pml4_index v) else 0)"
    using hc i by (simp add: half_copy_def)
  have ek: "pte m' k (pml4_index v) = pte m k (pml4_index v)" by (rule half_copy_others(4)[OF hc k r i])
  have wk: "walk m' k (indices v) = walk m k (indices v)" by (rule half_copy_others(3)[OF hc k r indices_ok])
  show ?thesis
  proof (cases "pml4_index v < 256")
    case True
    with e show ?thesis by (simp add: page_walk_def indices_def not_le[symmetric])
  next
    case False
    then have "walk m' r (indices v) = walk m' k (indices v)"
      using e ek unfolding indices_def walk.simps(2) [where t = r and i = "pml4_index v"]
        walk.simps(2) [where t = k and i = "pml4_index v"] by (simp add: not_less)
    with False wk show ?thesis by (simp add: page_walk_def)
  qed
qed

lemma half_copy_table_cases:
  assumes hc: "half_copy av m m' k r" and k: "pt_wf h m k av" and r: "r \<in> av"
    and q: "path q" "table_at m' r q = Some t"
  shows "q = [] \<and> t = r \<or> q \<noteq> [] \<and> 256 \<le> hd q \<and> table_at m k q = Some t"
proof (cases q)
  case Nil
  with q show ?thesis by simp
next
  case (Cons i p)
  with q half_copy_tables[OF hc k r, of i p] show ?thesis
    by (simp del: table_at.simps split: if_splits)
qed

lemma half_copy_wf:
  assumes hc: "half_copy av m m' k r" and k: "pt_wf h m k av" and r: "r \<in> av" "frame_ok h r"
  shows "pt_wf h m' r (av - {r})"
  unfolding pt_wf_def
proof (intro conjI allI impI)
  note tab = half_copy_table_cases[OF hc k r(1)]
  fix p t assume p: "path p" "table_at m' r p = Some t"
  show "frame_ok h t" "t \<notin> av - {r}" using tab[OF p] pt_wfD(1,3)[OF k p(1)] r by auto
  fix q assume q: "path q" "table_at m' r q = Some t"
  show "p = q" using tab[OF p] tab[OF q] pt_wfD(3,4)[OF k p(1)] pt_wfD(3)[OF k q(1)] q(1) r(1) by auto
next
  fix i :: u64 assume "i < 512" "bit (pte m' r i) 0"
  with hc pt_wf_root(4)[OF k] show "\<not> bit (pte m' r i) 7" by (auto simp: half_copy_def split: if_splits)
qed

lemma create_half_copy:
  fixes s :: "'z vmm_state_scheme"
  assumes inv: "vm_inv s k" and kas: "kas_pml4 s = phys_to_virt (hhdm_offset s) k"
    and fl: "free_list s = fl @ [r, a]"
  obtains s' where "vmm_create_address_space s = (AsPtr (phys_to_virt (hhdm_offset s) a), s')"
    "half_copy (set (free_list s)) (phys_mem s) (phys_mem s') k r"
    "as_pml4 (AsPtr (phys_to_virt (hhdm_offset s) a)) s' = phys_to_virt (hhdm_offset s) r"
    "as_cr3_value (AsPtr (phys_to_virt (hhdm_offset s) a)) s' = r"
    "pmm_inv s'" "free_list s' = fl" "hhdm_offset s' = hhdm_offset s" "kas_pml4 s' = kas_pml4 s" "kas_cr3 s' = kas_cr3 s"
proof -
  obtain s' where s': "vmm_create_address_space s = (AsPtr (phys_to_virt (hhdm_offset s) a), s')"
    "pmm_inv s'" "free_list s' = fl" "hhdm_offset s' = hhdm_offset s" "kas_pml4 s' = kas_pml4 s" "kas_cr3 s' = kas_cr3 s"
    "pte (phys_mem s') a 0 = phys_to_virt (hhdm_offset s) r" "pte (phys_mem s') a 1 = r"
    "\<And>j. j < 512 \<Longrightarrow> pte (phys_mem s') r j = (if 256 \<le> j then pte (phys_mem s) k j else 0)"
    "\<And>u j. aligned u \<Longrightarrow> u \<notin> {a, r} \<Longrightarrow> j < 512 \<Longrightarrow> pte (phys_mem s') u j = pte (phys_mem s) u j"
    using create_view[OF inv kas fl] by metis
  have "frame_ok (hhdm_offset s) a" using vm_invD(3)[OF inv] fl by simp
  with as_fields[of s' a] s'(4,7,8) have
    "as_pml4 (AsPtr (phys_to_virt (hhdm_offset s) a)) s' = phys_to_virt (hhdm_offset s) r"
    "as_cr3_value (AsPtr (phys_to_virt (hhdm_offset s) a)) s' = r" by simp_all
  moreover have "half_copy (set (free_list s)) (phys_mem s) (phys_mem s') k r"
    using s'(9,10) fl by (simp add: half_copy_def)
  ultimately show thesis using s'(1-6) by (intro that[of s']) simp_all
qed

text \<open>The new address space and the ones that are there share no table of a lower half.\<close>

lemma half_copy_isolated:
  assumes hc: "half_copy av m m' k r" and k: "pt_wf h m k av" and B: "pt_wf h m B av" and r: "r \<in> av"
    and iso: "B \<noteq> k \<Longrightarrow> isolated m B k"
  shows "isolated m' r B" "isolated m' B r"
proof -
  note tab = half_copy_table_cases[OF hc k r] and oth = half_copy_others(1)[OF hc B r]
  have notr: "table_at m B q \<noteq> Some r" if "path q" for q using pt_wfD(3)[OF B that] r by blast
  show "isolated m' r B"
    unfolding isolated_def
  proof (intro allI impI)
    fix p q t assume "low_path p" "path q" "table_at m' r p = Some t"
    with tab[of p t] have "t = r" by auto
    with notr[OF \<open>path q\<close>] oth[OF \<open>path q\<close>] show "table_at m' B q \<noteq> Some t" by simp
  qed
  show "isolated m' B r"
    unfolding isolated_def
  proof (intro allI impI notI)
    fix p q t assume p: "low_path p" "path q" "table_at m' B p = Some t" and q: "table_at m' r q = Some t"
    have Bp: "table_at m B p = Some t" using oth[of p] p(1,3) by simp
    then have "t \<noteq> r" using notr[of p] p(1) by auto
    with tab[OF p(2) q] have n: "q \<noteq> []" "256 \<le> hd q" "table_at m k q = Some t" by auto
    show False
    proof (cases "B = k")
      case True
      with pt_wfD(4)[OF k p(2) n(3), of p] Bp p(1) n(1,2) show False by auto
    next
      case False
      with iso Bp n(3) p(1,2) show False unfolding isolated_def by blast
    qed
  qed
qed

lemma spaces_create:
  assumes inv: "spaces_inv R P s" and k: "k \<in> R" and fl: "free_list s = fl @ [r, a]"
    and hc: "half_copy (set (free_list s)) (phys_mem s) (phys_mem s') k r"
    and s': "pmm_inv s'" "free_list s' = fl" "hhdm_offset s' = hhdm_offset s"
  shows "spaces_inv (insert r R) (insert a P) s'"
proof -
  let ?av = "set (free_list s)" and ?m = "phys_mem s" and ?m' = "phys_mem s'"
  note D = spaces_invD[OF inv] note wf = vm_invD(2)[OF D(1)]
  have ra: "r \<in> ?av" "a \<in> ?av" using fl by simp_all
  have dis: "a \<noteq> r" "set (free_list s') \<subseteq> ?av - {r}" "a \<notin> set (free_list s')"
    using vm_invD(1)[OF D(1)[OF k]] fl s'(2) by (auto simp: pmm_inv_def)
  have ok: "frame_ok (hhdm_offset s) p" if "p \<in> ?av" for p using vm_invD(3)[OF D(1)[OF k] that] .
  note oth = half_copy_others[OF hc wf ra(1)]
  have inv': "vm_inv s' B" if "B \<in> insert r R" for B
  proof -
    have "pt_wf (hhdm_offset s) ?m' B (?av - {r})"
      using that oth(2)[of B] half_copy_wf[OF hc wf[OF k] ra(1) ok[OF ra(1)]] pt_wf_mono by blast
    then show ?thesis using dis(2) ok s' by (auto simp: vm_inv_def intro: pt_wf_mono)
  qed
  have iso: "isolated ?m' r B" "isolated ?m' B r" if "B \<in> R" for B
    using half_copy_isolated[OF hc wf[OF k] wf[OF that] ra(1) D(2)[OF that k]] by blast+
  have isoR: "isolated ?m' B C" if "B \<in> R" "C \<in> R" "B \<noteq> C" for B C
    using D(2)[OF that] oth(1) that by (simp add: isolated_def)
  have top: "pte ?m' B j = pte ?m k j" if "B \<in> insert r R" "256 \<le> j" "j < 512" for B j
    using that hc oth(4)[of B j] D(3)[OF _ k that(2,3), of B] by (auto simp: half_copy_def)
  have pages: "frame_ok (hhdm_offset s') x \<and> x \<notin> set (free_list s') \<and> (\<forall>B\<in>insert r R. not_table ?m' B x)"
    if "x \<in> insert a P" for x
  proof -
    have x: "frame_ok (hhdm_offset s) x" "x \<notin> set (free_list s')" "x \<noteq> r"
      using that D(4,5) dis ok ra by auto
    have R: "not_table ?m B x" if "B \<in> R" for B
      using \<open>x \<in> insert a P\<close> D(6)[OF _ that] pt_wfD(3)[OF wf[OF that]] ra(2) by (auto simp: not_table_def)
    have "not_table ?m' B x" if "B \<in> R" for B using R[OF that] oth(1)[OF that] by (simp add: not_table_def)
    moreover have "not_table ?m' r x"
      using half_copy_table_cases[OF hc wf[OF k] ra(1)] R[OF k] x(3) unfolding not_table_def by blast
    ultimately show ?thesis using x s'(3) by simp
  qed
  show ?thesis unfolding spaces_inv_def
  proof (intro conjI ballI allI impI)
    show "isolated ?m' A B" if "A \<in> insert r R" "B \<in> insert r R" "A \<noteq> B" for A B
      using that isoR iso by blast
    show "pte ?m' A j = pte ?m' B j" if "A \<in> insert r R" "B \<in> insert r R" "256 \<le> j" "j < 512" for A B j
      using top that by simp
  qed (use inv' pages in blast)+
qed

section \<open>Creation and destruction\<close>

lemma virt_to_phys_to_virt:
  assumes "unat p < 2 ^ 44" "unat h + 2 ^ 44 < 2 ^ 64"
  shows "virt_to_phys h (phys_to_virt h p) = p"
proof -
  have "unat (p + h) = unat p + unat h" using assms by (intro unat_add64) simp
  moreover have "unat (h + 0x100000000000) = unat h + 0x100000000000" using assms by (subst unat_add64) simp_all
  ultimately show ?thesis using assms by (simp add: virt_to_phys_def phys_to_virt_def word_le_nat_alt word_less_nat_alt)
qed

lemma two_last:
  assumes "2 \<le> length xs"
  shows "\<exists>ys a b. xs = ys @ [a, b]"
proof -
  obtain ys b where b: "xs = ys @ [b]" using assms by (cases xs rule: rev_cases) auto
  obtain zs a where "ys = zs @ [a]" using assms b by (cases ys rule: rev_cases) auto
  with b show ?thesis by auto
qed

lemma create_one_page:
  fixes s :: "'z vmm_state_scheme"
  assumes "pmm_inv s" "free_list s = [a]"
  shows "fst (vmm_create_address_space s) = NullAS \<and> free_list (snd (vmm_create_address_space s)) = [a]"
proof -
  let ?s1 = "snd (pmm_alloc_page s)"
  note a = pmm.alloc_page[OF assms(1)]
  have ok: "page_ok a" using assms by (simp add: pmm_inv_def)
  have s1: "fst (pmm_alloc_page s) = a" "free_list ?s1 = []" "pmm_inv ?s1"
    using a assms(2) pmm.alloc_inv[OF assms(1)] by simp_all
  have e: "pmm_alloc_page ?s1 = (0, oom ?s1)" using s1(2) by (rule pmm_alloc_empty)
  have "pmm_inv (oom ?s1)" "free_list (oom ?s1) = []" using s1 by (simp_all add: pmm_inv_def free_list_def)
  with pmm.free_page[of "oom ?s1" a] ok have "free_list (pmm_free_page a (oom ?s1)) = [a]" by (simp add: MAX_PAGES_def)
  with s1(1) e page_ok_not_null[OF ok] show ?thesis
    by (simp add: vmm_create_address_space_def case_prod_beta)
qed

lemma create_short:
  fixes s :: "'z vmm_state_scheme"
  assumes "pmm_inv s" "length (free_list s) < 2"
  shows "fst (vmm_create_address_space s) = NullAS \<and> free_list (snd (vmm_create_address_space s)) = free_list s"
proof (cases "free_list s")
  case Nil
  then show ?thesis by (simp add: vmm_create_address_space_def pmm_alloc_empty) (simp add: free_list_def)
next
  case (Cons a l)
  with assms(2) have "free_list s = [a]" by simp
  with create_one_page[OF assms(1) this] show ?thesis by simp
qed

text \<open>
  Creating an address space: with two free pages, the new address space has the
  kernel's mappings in the upper half and none in the lower half, its CR3 value is the
  root table that its pointer names, and no mapping of the kernel changes; with fewer
  pages the call returns null and the free pages are as before.
\<close>

theorem vmm_create_address_space_correct:
  assumes "vm_inv s k" "kas_pml4 s = phys_to_virt (hhdm_offset s) k" "vmm_create_address_space s = (as, s')"
  shows "if length (free_list s) < 2 then as = NullAS \<and> free_list s' = free_list s
    else let root = as_cr3_value as s' in
      as \<noteq> NullAS \<and> as_pml4 as s' = phys_to_virt (hhdm_offset s') root \<and> vm_inv s' root \<and> vm_inv s' k
      \<and> length (free_list s') + 2 = length (free_list s)
      \<and> (\<forall>v. page_walk (phys_mem s') root v = (if pml4_index v < 256 then None else page_walk (phys_mem s) k v))
      \<and> (\<forall>v. page_walk (phys_mem s') k v = page_walk (phys_mem s) k v)"
proof (cases "length (free_list s) < 2")
  case True
  with create_short[OF vm_invD(1)[OF assms(1)]] assms(3) show ?thesis by simp
next
  case False
  then obtain fl r a where fl: "free_list s = fl @ [r, a]" using two_last[of "free_list s"] by auto
  obtain s2 where s2: "vmm_create_address_space s = (AsPtr (phys_to_virt (hhdm_offset s) a), s2)"
    "half_copy (set (free_list s)) (phys_mem s) (phys_mem s2) k r"
    "as_pml4 (AsPtr (phys_to_virt (hhdm_offset s) a)) s2 = phys_to_virt (hhdm_offset s) r"
    "as_cr3_value (AsPtr (phys_to_virt (hhdm_offset s) a)) s2 = r"
    "pmm_inv s2" "free_list s2 = fl" "hhdm_offset s2 = hhdm_offset s" "kas_pml4 s2 = kas_pml4 s" "kas_cr3 s2 = kas_cr3 s"
    using create_half_copy[OF assms(1,2) fl] by blast
  have one: "spaces_inv {k} {} s" using assms(1) by (simp add: spaces_inv_def)
  have inv2: "vm_inv s2 r" "vm_inv s2 k" using spaces_create[OF one _ fl s2(2,5,6,7)] by (simp_all add: spaces_inv_def)
  have r: "r \<in> set (free_list s)" using fl by simp
  note wf = vm_invD(2)[OF assms(1)]
  have "page_walk (phys_mem s2) k v = page_walk (phys_mem s) k v" for v
    unfolding page_walk_def by (rule half_copy_others(3)[OF s2(2) wf r indices_ok])
  with half_copy_walk[OF s2(2) wf r] s2 inv2 fl False assms(3) show ?thesis by (simp add: Let_def)
qed

text \<open>Six free pages.\<close>

definition example_spaces :: vmm_state where
  "example_spaces = example_vmm\<lparr>page_stack_top := 6, free_pages := 6, total_pages := 6\<rparr>"

lemma example_spaces_fields:
  "phys_mem example_spaces = (\<lambda>_. 0)" "hhdm_offset example_spaces = 0xFFFF800000000000"
  "free_list example_spaces = [0x10000, 0x11000, 0x12000, 0x13000, 0x14000, 0x15000]"
  "kas_pml4 example_spaces = phys_to_virt (hhdm_offset example_spaces) 0x20000" "kas_cr3 example_spaces = 0x20000"
proof -
  show "phys_mem example_spaces = (\<lambda>_. 0)" "hhdm_offset example_spaces = 0xFFFF800000000000"
    "kas_pml4 example_spaces = phys_to_virt (hhdm_offset example_spaces) 0x20000" "kas_cr3 example_spaces = 0x20000"
    using example_vmm_fields by (simp_all add: example_spaces_def)
      (simp_all add: example_vmm_def pmm_state.defs phys_to_virt_def)
  have "page_stack example_spaces = page_stack example_pmm" by (simp add: example_spaces_def example_vmm_def pmm_state.defs)
  then show "free_list example_spaces = [0x10000, 0x11000, 0x12000, 0x13000, 0x14000, 0x15000]"
    by (simp add: free_list_def example_spaces_def upt_rec) (simp add: example_pmm_def)
qed

lemma example_spaces_inv: "vm_inv example_spaces 0x20000"
  unfolding vm_inv_def
proof (intro conjI)
  show "pmm_inv example_spaces"
    unfolding pmm_inv_def example_spaces_fields by (simp add: example_spaces_def MAX_PAGES_def page_ok_def)
  show "\<forall>p\<in>set (free_list example_spaces). frame_ok (hhdm_offset example_spaces) p"
    unfolding example_spaces_fields by (simp add: frame_ok_def hhdm_covers_def)
  show "pt_wf (hhdm_offset example_spaces) (phys_mem example_spaces) 0x20000 (set (free_list example_spaces))"
    unfolding example_spaces_fields by (rule pt_wf_empty) (simp_all add: frame_ok_def hhdm_covers_def pte_zero_mem)
qed

theorem vmm_create_address_space_correct_witness:
  "\<exists>as s'. vmm_create_address_space example_spaces = (as, s') \<and> as \<noteq> NullAS
     \<and> page_walk (phys_mem s') (as_cr3_value as s') 0x400000 = None \<and> length (free_list s') = 4"
proof -
  obtain as s' where r: "vmm_create_address_space example_spaces = (as, s')" by force
  have "pml4_index 0x400000 < 256" by (simp add: pml4_index_def)
  with r vmm_create_address_space_correct[OF example_spaces_inv example_spaces_fields(4) r]
  show ?thesis by (simp add: Let_def example_spaces_fields)
qed

text \<open>
  Destroying a new address space gives back exactly the two pages that creating it
  took, in the order in which they were free before.
\<close>

theorem vmm_create_destroy_restores:
  assumes "vm_inv s k" "kas_pml4 s = phys_to_virt (hhdm_offset s) k"
    and "unat (hhdm_offset s) + 2 ^ 44 < 2 ^ 64" "\<forall>p\<in>set (free_list s). unat p < 2 ^ 44"
    and "vmm_create_address_space s = (as, s')" "as \<noteq> NullAS"
  shows "free_list (vmm_destroy_address_space as s') = free_list s \<and> pmm_inv (vmm_destroy_address_space as s')"
proof -
  let ?h = "hhdm_offset s"
  note inv = vm_invD(1)[OF assms(1)]
  have "2 \<le> length (free_list s)" using create_short[OF inv] assms(5,6) by fastforce
  then obtain fl r a where fl: "free_list s = fl @ [r, a]" using two_last by blast
  obtain s2 where s2: "vmm_create_address_space s = (AsPtr (phys_to_virt ?h a), s2)"
    "as_pml4 (AsPtr (phys_to_virt ?h a)) s2 = phys_to_virt ?h r" "pmm_inv s2" "free_list s2 = fl" "hhdm_offset s2 = ?h"
    using create_half_copy[OF assms(1,2) fl] by blast
  have as: "as = AsPtr (phys_to_virt ?h a)" "s' = s2" using s2(1) assms(5) by simp_all
  have v: "virt_to_phys ?h (phys_to_virt ?h r) = r" "virt_to_phys ?h (phys_to_virt ?h a) = a"
    using assms(3,4) fl by (simp_all add: virt_to_phys_to_virt)
  have ok: "page_ok r" "page_ok a" "r \<notin> set fl" "a \<notin> set fl" "a \<noteq> r"
    using inv fl by (auto simp: pmm_inv_def)
  have nz: "phys_to_virt ?h r \<noteq> 0" using vm_invD(3)[OF assms(1)] fl phys_to_virt_not_null by simp
  have cap: "length fl + 2 \<le> unat MAX_PAGES" using pmm.avail_cap[OF inv] fl by simp
  let ?s3 = "pmm_free_page r s2"
  have s3: "free_list ?s3 = fl @ [r]" "pmm_inv ?s3" using pmm.free_page[OF s2(3) ok(1)] ok s2(4) cap by simp_all
  have s4: "free_list (pmm_free_page a ?s3) = fl @ [r, a]" "pmm_inv (pmm_free_page a ?s3)"
    using pmm.free_page[OF s3(2) ok(2)] ok s3(1) cap by simp_all
  have "hhdm_offset ?s3 = ?h" using s2(5) by (simp add: pmm_free_page_def Let_def page_push_def)
  then have "vmm_destroy_address_space as s' = pmm_free_page a ?s3"
    using as s2(2,5) nz v by (simp add: vmm_destroy_address_space_def)
  with s4 fl show ?thesis by simp
qed

theorem vmm_create_destroy_restores_witness:
  "\<exists>as s'. vmm_create_address_space example_spaces = (as, s')
     \<and> free_list (vmm_destroy_address_space as s') = [0x10000, 0x11000, 0x12000, 0x13000, 0x14000, 0x15000]"
proof -
  obtain as s' where r: "vmm_create_address_space example_spaces = (as, s')" by force
  have two: "free_list example_spaces = [0x10000, 0x11000, 0x12000, 0x13000] @ [0x14000, 0x15000]"
    by (simp add: example_spaces_fields)
  have "as \<noteq> NullAS"
    using create_half_copy[OF example_spaces_inv example_spaces_fields(4) two] r by (metis as_ref.distinct(3) prod.inject)
  with r vmm_create_destroy_restores[OF example_spaces_inv example_spaces_fields(4) _ _ r]
  show ?thesis by (simp add: example_spaces_fields)
qed

section \<open>Isolation in every reachable state\<close>

text \<open>
  \<open>S\<close> relates each address space that is in use to its root table.
\<close>

definition vm_system :: "(as_ref \<times> u64) set \<Rightarrow> 'z vmm_state_scheme \<Rightarrow> bool" where
  "vm_system S s \<longleftrightarrow> (\<exists>k P. (KernelAS, k) \<in> S \<and> spaces_inv (snd ` S) P s
     \<and> (\<forall>as A. (as, A) \<in> S \<longrightarrow> as \<noteq> NullAS \<and> as_pml4 as s = phys_to_virt (hhdm_offset s) A \<and> as_cr3_value as s = A)
     \<and> (\<forall>x A. (AsPtr x, A) \<in> S \<longrightarrow> (\<exists>a\<in>P. x = phys_to_virt (hhdm_offset s) a)))"

lemma vm_system_space:
  assumes "vm_system S s" "(as, A) \<in> S"
  shows "vm_inv s A" "as \<noteq> NullAS" "as_pml4 as s = phys_to_virt (hhdm_offset s) A" "as_cr3_value as s = A"
  using assms by (auto simp: vm_system_def spaces_inv_def)

lemma vm_system_steps:
  fixes s :: "'z vmm_state_scheme"
  assumes sys: "vm_system S s" and A: "(as, A) \<in> S" and st: "space_steps A s s1" "quiet s1 s'"
    and kas: "kas_pml4 s' = kas_pml4 s" "kas_cr3 s' = kas_cr3 s"
  shows "vm_system S s'"
    and "(bs, B) \<in> S \<Longrightarrow> B \<noteq> A \<Longrightarrow> page_walk (phys_mem s') B w = page_walk (phys_mem s) B w"
proof -
  obtain k P where kP: "(KernelAS, k) \<in> S" "spaces_inv (snd ` S) P s"
    and fields: "\<And>as A. (as, A) \<in> S \<Longrightarrow> as \<noteq> NullAS \<and> as_pml4 as s = phys_to_virt (hhdm_offset s) A \<and> as_cr3_value as s = A"
    and ptrs: "\<And>x A. (AsPtr x, A) \<in> S \<Longrightarrow> \<exists>a\<in>P. x = phys_to_virt (hhdm_offset s) a"
    using sys unfolding vm_system_def by blast
  have AR: "A \<in> snd ` S" using A by force
  note steps = spaces_steps[OF st(1) kP(2) AR]
  have q: "phys_mem s' = phys_mem s1" "hhdm_offset s' = hhdm_offset s"
    using st(2) steps by (auto simp: quiet_def)
  have inv': "spaces_inv (snd ` S) P s'" using steps spaces_quiet[OF st(2)] by blast
  have "as_pml4 bs s' = as_pml4 bs s \<and> as_cr3_value bs s' = as_cr3_value bs s" if "(bs, B) \<in> S" for bs B
  proof (cases bs)
    case (AsPtr x)
    with ptrs that obtain a where a: "a \<in> P" "x = phys_to_virt (hhdm_offset s) a" by blast
    have ok: "frame_ok (hhdm_offset s) a" by (rule spaces_invD(4)[OF kP(2) a(1)])
    have "pte (phys_mem s') a j = pte (phys_mem s) a j" if "j < 512" for j using steps a(1) that q(1) by simp
    with as_fields[of s a] as_fields[of s' a] ok q(2) a(2) AsPtr show ?thesis by simp
  qed (use fields[OF that] kas in \<open>simp_all add: as_pml4_def as_cr3_value_def\<close>)
  with fields have "\<forall>as A. (as, A) \<in> S \<longrightarrow> as \<noteq> NullAS \<and> as_pml4 as s' = phys_to_virt (hhdm_offset s') A \<and> as_cr3_value as s' = A"
    unfolding q(2) by metis
  with kP(1) inv' ptrs show "vm_system S s'" unfolding vm_system_def q(2) by blast
  show "page_walk (phys_mem s') B w = page_walk (phys_mem s) B w" if "(bs, B) \<in> S" "B \<noteq> A"
  proof -
    have "B \<in> snd ` S" using that(1) by force
    with steps that(2) have "walk (phys_mem s1) B (indices w) = walk (phys_mem s) B (indices w)"
      using indices_ok by blast
    then show ?thesis by (simp add: page_walk_def q(1))
  qed
qed

lemma vm_system_upper:
  assumes sys: "vm_system S s" and S: "(as, A) \<in> S" "(bs, B) \<in> S" and w: "256 \<le> pml4_index w"
  shows "page_walk (phys_mem s) A w = page_walk (phys_mem s) B w"
proof -
  obtain P where "spaces_inv (snd ` S) P s" using sys by (auto simp: vm_system_def)
  moreover have "A \<in> snd ` S" "B \<in> snd ` S" using S by force+
  ultimately have "pte (phys_mem s) A (pml4_index w) = pte (phys_mem s) B (pml4_index w)"
    using spaces_invD(3) w index_less(1) by blast
  then show ?thesis by (simp add: page_walk_def indices_def)
qed

lemma vm_system_create:
  fixes s :: "'z vmm_state_scheme"
  assumes sys: "vm_system S s" and r: "vmm_create_address_space s = (as, s')" "as \<noteq> NullAS"
  shows "vm_system (insert (as, as_cr3_value as s') S) s'"
proof -
  obtain k P where kP: "(KernelAS, k) \<in> S" "spaces_inv (snd ` S) P s"
    and fields: "\<And>as A. (as, A) \<in> S \<Longrightarrow> as \<noteq> NullAS \<and> as_pml4 as s = phys_to_virt (hhdm_offset s) A \<and> as_cr3_value as s = A"
    and ptrs: "\<And>x A. (AsPtr x, A) \<in> S \<Longrightarrow> \<exists>a\<in>P. x = phys_to_virt (hhdm_offset s) a"
    using sys unfolding vm_system_def by blast
  have k: "vm_inv s k" "k \<in> snd ` S" "kas_pml4 s = phys_to_virt (hhdm_offset s) k"
    using vm_system_space[OF sys kP(1)] kP(1) by (force simp: as_pml4_def)+
  have "\<not> length (free_list s) < 2" using create_short[OF vm_invD(1)[OF k(1)]] r by auto
  then obtain fl q a where fl: "free_list s = fl @ [q, a]" using two_last[of "free_list s"] by auto
  obtain s2 where s2: "vmm_create_address_space s = (AsPtr (phys_to_virt (hhdm_offset s) a), s2)"
    "half_copy (set (free_list s)) (phys_mem s) (phys_mem s2) k q"
    "as_pml4 (AsPtr (phys_to_virt (hhdm_offset s) a)) s2 = phys_to_virt (hhdm_offset s) q"
    "as_cr3_value (AsPtr (phys_to_virt (hhdm_offset s) a)) s2 = q"
    "pmm_inv s2" "free_list s2 = fl" "hhdm_offset s2 = hhdm_offset s" "kas_pml4 s2 = kas_pml4 s" "kas_cr3 s2 = kas_cr3 s"
    using create_half_copy[OF k(1,3) fl] by blast
  have eq: "as = AsPtr (phys_to_virt (hhdm_offset s) a)" "s' = s2" using r(1) s2(1) by simp_all
  have inv': "spaces_inv (insert q (snd ` S)) (insert a P) s2" by (rule spaces_create[OF kP(2) k(2) fl s2(2,5,6,7)])
  have old: "as_pml4 bs s2 = as_pml4 bs s \<and> as_cr3_value bs s2 = as_cr3_value bs s" if "(bs, B) \<in> S" for bs B
  proof (cases bs)
    case (AsPtr x)
    with ptrs that obtain b where b: "b \<in> P" "x = phys_to_virt (hhdm_offset s) b" by blast
    have ok: "frame_ok (hhdm_offset s) b" "b \<notin> set (free_list s)" by (rule spaces_invD(4,5)[OF kP(2) b(1)])+
    have "pte (phys_mem s2) b j = pte (phys_mem s) b j" if "j < 512" for j
      using s2(2) ok frame_okD(1)[OF ok(1)] that by (simp add: half_copy_def)
    with as_fields[of s b] as_fields[of s2 b] ok(1) s2(7) b(2) AsPtr show ?thesis by simp
  qed (use s2(8,9) in \<open>simp_all add: as_pml4_def as_cr3_value_def\<close>)
  have "\<forall>bs B. (bs, B) \<in> insert (as, q) S \<longrightarrow>
      bs \<noteq> NullAS \<and> as_pml4 bs s2 = phys_to_virt (hhdm_offset s2) B \<and> as_cr3_value bs s2 = B"
    using fields old s2(3,4,7) eq(1) by auto
  moreover have "\<forall>x A. (AsPtr x, A) \<in> insert (as, q) S \<longrightarrow> (\<exists>b\<in>insert a P. x = phys_to_virt (hhdm_offset s2) b)"
    using ptrs eq(1) s2(7) by auto
  ultimately show ?thesis
    unfolding vm_system_def eq(2) using kP(1) inv' s2(4) eq(1) by (intro exI[of _ k] exI[of _ "insert a P"]) simp
qed

lemma unmap_frame:
  "kas_pml4 (vmm_unmap_page as v s) = kas_pml4 s" "kas_cr3 (vmm_unmap_page as v s) = kas_cr3 s"
  by (simp_all add: vmm_unmap_page_def Let_def frame_simps invlpg_def)

text \<open>
  The ways the kernel uses the memory manager: it creates address spaces, maps and unmaps
  pages in the lower half of one, with no larger page in the way, and switches to one.
\<close>

inductive vmm_run :: "(as_ref \<times> u64) set \<Rightarrow> 'z vmm_state_scheme \<Rightarrow> (as_ref \<times> u64) set \<Rightarrow> 'z vmm_state_scheme \<Rightarrow> bool"
  for S0 s0 where
  start: "vmm_run S0 s0 S0 s0"
| create: "vmm_run S0 s0 S s \<Longrightarrow> vmm_create_address_space s = (as, s') \<Longrightarrow> as \<noteq> NullAS \<Longrightarrow>
    vmm_run S0 s0 (insert (as, as_cr3_value as s') S) s'"
| map_page: "vmm_run S0 s0 S s \<Longrightarrow> (as, A) \<in> S \<Longrightarrow> pml4_index v < 256 \<Longrightarrow>
    (\<forall>es. page_walk (phys_mem s) A v = Some es \<longrightarrow> page_shift es \<le> map_shift v flags) \<Longrightarrow>
    vmm_map_page as v phys flags s = (r, s') \<Longrightarrow> vmm_run S0 s0 S s'"
| unmap_page: "vmm_run S0 s0 S s \<Longrightarrow> (as, A) \<in> S \<Longrightarrow> pml4_index v < 256 \<Longrightarrow>
    vmm_run S0 s0 S (vmm_unmap_page as v s)"
| switch: "vmm_run S0 s0 S s \<Longrightarrow> (as, A) \<in> S \<Longrightarrow> vmm_run S0 s0 S (vmm_switch_address_space as s)"

lemma vm_system_map:
  fixes s :: "'z vmm_state_scheme"
  assumes sys: "vm_system S s" and A: "(as, A) \<in> S" and v: "pml4_index v < 256"
    and large: "\<forall>es. page_walk (phys_mem s) A v = Some es \<longrightarrow> page_shift es \<le> map_shift v flags"
    and r: "vmm_map_page as v phys flags s = (x, s')"
  shows "vm_system S s'" "(bs, B) \<in> S \<Longrightarrow> B \<noteq> A \<Longrightarrow> page_walk (phys_mem s') B w = page_walk (phys_mem s) B w"
proof -
  note sp = vm_system_space[OF sys A]
  have "\<exists>s1. space_steps A s s1 \<and> quiet s1 s'"
    by (rule map_space_steps[OF sp(1-3) v _ r]) (use large shift_depth in auto)
  then obtain s1 where "space_steps A s s1" "quiet s1 s'" by blast
  note st = vm_system_steps[OF sys A this map_frame_eq(2,3)[OF r]]
  show "vm_system S s'" by (rule st)
  show "(bs, B) \<in> S \<Longrightarrow> B \<noteq> A \<Longrightarrow> page_walk (phys_mem s') B w = page_walk (phys_mem s) B w" by (rule st)
qed

lemma vm_system_switch: "vm_system S (vmm_switch_address_space as s) = vm_system S s"
proof -
  have "spaces_inv R P (vmm_switch_address_space as s) = spaces_inv R P s" for R P
    by (rule spaces_quiet)
      (simp add: quiet_def vmm_switch_address_space_def free_list_def vm_inv_def pmm_inv_def)
  then show ?thesis
    by (simp add: vm_system_def vmm_switch_address_space_def as_pml4_def as_cr3_value_def kload64_def split: as_ref.splits)
qed

lemma vmm_run_system:
  assumes "vmm_run S0 s0 S s" "vm_system S0 s0"
  shows "vm_system S s"
  using assms
proof (induction rule: vmm_run.induct)
  case (create S s as s')
  then show ?case using vm_system_create by blast
next
  case (map_page S s as A v flags phys r s')
  then show ?case using vm_system_map(1) by blast
next
  case (unmap_page S s as A v)
  then have sys: "vm_system S s" by blast
  note sp = vm_system_space[OF sys unmap_page.hyps(2)]
  obtain s1 where "space_steps A s s1" "quiet s1 (vmm_unmap_page as v s)"
    using unmap_space_steps[OF sp(1-3) unmap_page.hyps(3)] by blast
  from vm_system_steps(1)[OF sys unmap_page.hyps(2) this unmap_frame] show ?case .
qed (simp_all add: vm_system_switch)


lemma example_system: "vm_system {(KernelAS, 0x20000)} example_spaces"
proof -
  have "spaces_inv {0x20000} {} example_spaces" using example_spaces_inv by (simp add: spaces_inv_def)
  then show ?thesis
    by (auto simp: vm_system_def as_pml4_def as_cr3_value_def example_spaces_fields(4,5))
qed


end
