(* ===== verification/Vmm_Data.thy ===== *)
theory Vmm_Data
  imports Vmm_Spaces
begin

text \<open>
  Pages of data beside the tables of an address space: a page that is allocated stays out
  of the reach of every later mapping, writing to it changes no translation, and what user
  mode may access it keeps. \<open>spaces_inv {A} P\<close> is the invariant, with \<open>P\<close> the data pages.
\<close>

unbundle bit_operations_syntax

section \<open>The bytes of a page\<close>

definition same_bytes :: "u64 \<Rightarrow> memory \<Rightarrow> memory \<Rightarrow> bool" where
  "same_bytes u m m' \<longleftrightarrow> (\<forall>n<4096. m' (u + of_nat n) = m (u + of_nat n))"

lemma pte_same_bytes:
  assumes "\<forall>j<512. pte m' u j = pte m u j"
  shows "same_bytes u m m'"
  unfolding same_bytes_def
proof (intro allI impI)
  fix n :: nat assume n: "n < 4096"
  have "(of_nat (n div 8) :: u64) < 512" using n by (simp add: word_less_nat_alt unsigned_of_nat take_bit_nat_eq_self)
  with assms have "load64 m' (u + 8 * of_nat (n div 8)) = load64 m (u + 8 * of_nat (n div 8))"
    by (simp add: pte_def entry_at_def)
  from load64_bytes[OF this, of "n mod 8"]
  have "m' (u + 8 * of_nat (n div 8) + of_nat (n mod 8)) = m (u + 8 * of_nat (n div 8) + of_nat (n mod 8))" by simp
  moreover have "8 * of_nat (n div 8) + of_nat (n mod 8) = (of_nat n :: u64)"
    by (metis mult_div_mod_eq of_nat_add of_nat_mult of_nat_numeral)
  ultimately show "m' (u + of_nat n) = m (u + of_nat n)" by (simp add: add.assoc)
qed

lemma page_byte_eq:
  assumes "aligned u" "aligned p" "k < 4096" "n < 4096"
  shows "u + of_nat k = p + of_nat n \<longleftrightarrow> u = p \<and> k = n"
proof
  assume e: "u + of_nat k = p + of_nat n"
  have "unat (u + of_nat k - p) = n" using assms(4) by (simp add: e unsigned_of_nat take_bit_nat_eq_self)
  then have "u = p" using page_byte[OF assms(2,1,3)] assms(4) by simp
  with e assms(3,4) show "u = p \<and> k = n" by (simp add: word_of_nat_eq_iff take_bit_nat_eq_self)
qed simp

lemma byte_store_pte:
  assumes "aligned u" "aligned p" "u \<noteq> p" "n < 4096" "j < 512"
  shows "pte (m(p + of_nat n := b)) u j = pte m u j"
  unfolding pte_def
proof (rule load64_cong)
  fix i :: nat assume i: "i < 8"
  have j: "unat j < 512" using assms(5) by (simp add: word_less_nat_alt)
  show "(m(p + of_nat n := b)) (entry_at u j + of_nat i) = m (entry_at u j + of_nat i)"
    using page_byte_eq[OF assms(1,2) _ assms(4), of "8 * unat j + i"] i j assms(3) by (simp add: entry_byte)
qed

section \<open>Allocating and writing data pages\<close>

definition same_walks :: "u64 \<Rightarrow> memory \<Rightarrow> memory \<Rightarrow> bool" where
  "same_walks A m m' \<longleftrightarrow> (\<forall>v. page_walk m' A v = page_walk m A v)"

lemma same_walksD:
  assumes "same_walks A m m'"
  shows "page_walk m' A v = page_walk m A v" "page_leaf m' A v = page_leaf m A v" "translate m' A v = translate m A v"
    "user_access m' A v = user_access m A v"
  using assms by (simp_all add: same_walks_def page_leaf_def translate_def user_access_def)

text \<open>A change of one page that is no table.\<close>

lemma spaces_page_change:
  assumes inv: "spaces_inv {A} P s" and x: "not_table (phys_mem s) A x"
    and same: "\<And>u j. aligned u \<Longrightarrow> u \<noteq> x \<Longrightarrow> j < 512 \<Longrightarrow> pte m u j = pte (phys_mem s) u j"
    and s': "pmm_inv s'" "set (free_list s') \<subseteq> set (free_list s)" "hhdm_offset s' = hhdm_offset s" "phys_mem s' = m"
    and Q: "\<And>a. a \<in> Q \<Longrightarrow> a \<in> P \<or> a = x" "x \<in> Q \<Longrightarrow> frame_ok (hhdm_offset s) x \<and> x \<notin> set (free_list s')"
  shows "spaces_inv {A} Q s'" "same_walks A (phys_mem s) m"
proof -
  note I = spaces_invD[OF inv] and A = vm_invD[OF spaces_invD(1)[OF inv, of A], simplified]
  have no: "table_at (phys_mem s) A p \<noteq> Some x" if "path p" for p using x that by (simp add: not_table_def)
  have same': "pte m u j = pte (phys_mem s) u j" if "aligned u" "u \<notin> set (free_list s)" "u \<noteq> x" "j < 512" for u j
    using same that by blast
  note f = foreign_page[OF A(2) same' no]
  show "same_walks A (phys_mem s) m" unfolding same_walks_def page_walk_def using f(3) by simp
  have nt: "not_table m A a" if "not_table (phys_mem s) A a" for a using that f(1) by (simp add: not_table_def)
  have "vm_inv s' A"
    unfolding vm_inv_def using s' A(1,3) pt_wf_mono[OF f(2) s'(2)] by auto
  moreover have "frame_ok (hhdm_offset s') a \<and> a \<notin> set (free_list s') \<and> not_table (phys_mem s') A a" if "a \<in> Q" for a
    using Q(1)[OF that] Q(2) that I(4,5,6)[of a] s' nt x by auto
  ultimately show "spaces_inv {A} Q s'" by (auto simp: spaces_inv_def)
qed

lemma spaces_alloc:
  fixes s :: "'z vmm_state_scheme"
  assumes inv: "spaces_inv {A} P s" and ne: "free_list s \<noteq> []"
  obtains p s' where "pmm_alloc_page s = (p, s')" "p \<noteq> 0" "p \<notin> P" "spaces_inv {A} (insert p P) s'"
    "length (free_list s') = length (free_list s) - 1" "same_walks A (phys_mem s) (phys_mem s')" "alloc_only s s'"
    "\<And>u. u \<in> P \<Longrightarrow> same_bytes u (phys_mem s) (phys_mem s')" "set (free_list s') \<subseteq> set (free_list s)"
proof -
  note I = spaces_invD[OF inv] and A = vm_invD[OF spaces_invD(1)[OF inv, of A], simplified]
  let ?q = "last (free_list s)"
  have fl: "free_list s = butlast (free_list s) @ [?q]" using ne by simp
  have q: "?q \<in> set (free_list s)" using ne by simp
  obtain s' where s': "pmm_alloc_page s = (?q, s')" "free_list s' = butlast (free_list s)" "pmm_inv s'"
      "hhdm_offset s' = hhdm_offset s"
    and pte: "\<And>u j. aligned u \<Longrightarrow> j < 512 \<Longrightarrow> pte (phys_mem s') u j = (if u = ?q then 0 else pte (phys_mem s) u j)"
    using alloc_view[OF fl A(3)[OF q] A(1)] by metis
  have nt: "not_table (phys_mem s) A ?q" using pt_wfD(3)[OF A(2)] q by (auto simp: not_table_def)
  have d: "?q \<notin> set (free_list s')" "set (free_list s') \<subseteq> set (free_list s)"
    using A(1) fl s'(2) by (auto simp: pmm_inv_def distinct_butlast dest: in_set_butlastD) (metis disjoint_insert(2) distinct_append list.simps(15) inf_commute)
  have qP: "?q \<notin> P" using I(5) q by blast
  have "same_bytes u (phys_mem s) (phys_mem s')" if "u \<in> P" for u
  proof -
    have "u \<noteq> ?q" using that qP by blast
    then show ?thesis using pte[OF frame_okD(1)[OF I(4)[OF that]]] by (intro pte_same_bytes) simp
  qed
  moreover have "spaces_inv {A} (insert ?q P) s'" "same_walks A (phys_mem s) (phys_mem s')"
    by (rule spaces_page_change[OF inv nt _ s'(3) d(2) s'(4) refl]; use pte A(3)[OF q] d(1) in auto)+
  moreover have "alloc_only s s'" using alloc_only_alloc[of s] s'(1) by simp
  moreover have "?q \<noteq> 0" using A(3)[OF q] by (simp add: frame_ok_def)
  ultimately show thesis using s'(1,2) qP d(2) by (intro that[of ?q s']) simp_all
qed

lemma spaces_store:
  assumes inv: "spaces_inv {A} P s" and p: "p \<in> P" "n < 4096"
  shows "spaces_inv {A} P (s\<lparr>phys_mem := (phys_mem s)(p + of_nat n := b)\<rparr>)"
    "same_walks A (phys_mem s) ((phys_mem s)(p + of_nat n := b))"
proof -
  note I = spaces_invD[OF inv]
  let ?s = "s\<lparr>phys_mem := (phys_mem s)(p + of_nat n := b)\<rparr>"
  have fl: "free_list ?s = free_list s" by (simp add: free_list_def)
  have pm: "pmm_inv ?s" using vm_invD(1)[OF I(1)] fl by (simp add: pmm_inv_def)
  note st = byte_store_pte[OF _ frame_okD(1)[OF I(4)[OF p(1)]] _ p(2)]
  have nt: "not_table (phys_mem s) A p" using I(6)[OF p(1)] by simp
  show "spaces_inv {A} P ?s" "same_walks A (phys_mem s) ((phys_mem s)(p + of_nat n := b))"
    by (rule spaces_page_change[OF inv nt _ pm]; use st I(4,5)[OF p(1)] p(1) fl in auto)+
qed

section \<open>Mapping beside data pages\<close>

text \<open>An entry that is only given user access keeps what it points to.\<close>

lemma walk_user_mono:
  assumes wf: "pt_wf h m root av"
    and mono: "\<And>u j. aligned u \<Longrightarrow> u \<notin> av \<Longrightarrow> j < 512 \<Longrightarrow> bit (pte m u j) 0 \<Longrightarrow>
      pte m' u j = pte m u j \<or> pte m' u j = pte m u j OR PAGE_USER"
    and "length (p @ r) = 4" "\<forall>j\<in>set (p @ r). j < 512" "table_at m root p = Some u"
    and "walk m u r = Some es" "\<forall>e\<in>set es. bit e 2"
  shows "\<exists>es'. walk m' u r = Some es' \<and> (\<forall>e\<in>set es'. bit e 2)"
  using assms(3-7)
proof (induction r arbitrary: p u es)
  case (Cons j r)
  have pp: "path p" "j < 512" using Cons.prems(1,2) by auto
  note u = pt_wfD[OF wf pp(1) Cons.prems(3)]
  let ?e = "pte m u j" and ?e' = "pte m' u j"
  have e0: "bit ?e 0" using Cons.prems(4) by (auto simp: Let_def split: if_splits)
  have e': "?e' = ?e \<or> ?e' = ?e OR PAGE_USER" by (rule mono[OF u(2,3) pp(2) e0])
  then have b: "bit ?e' 0 = bit ?e 0" "bit ?e' 7 = bit ?e 7" "bit ?e 2 \<Longrightarrow> bit ?e' 2" "entry_to_phys ?e' = entry_to_phys ?e"
    using entry_to_phys_or[of PAGE_USER ?e] by (auto simp: bit_simps bit_page_flags)
  show ?case
  proof (cases "r = [] \<or> bit ?e 7")
    case True
    with Cons.prems(4,5) e0 b show ?thesis by (auto simp: Let_def split: if_splits)
  next
    case False
    then obtain es1 where es1: "walk m (entry_to_phys ?e) r = Some es1" "es = ?e # es1"
      using Cons.prems(4) e0 by (auto simp: Let_def)
    have "table_at m root (p @ [j]) = Some (entry_to_phys ?e)"
      using Cons.prems(3) e0 False by (simp add: table_at_snoc subtable_def)
    with Cons.IH[of "p @ [j]" _ es1] Cons.prems(1,2,5) es1
    obtain es' where "walk m' (entry_to_phys ?e) r = Some es'" "\<forall>e\<in>set es'. bit e 2" by auto
    with b e0 False Cons.prems(5) es1(2) show ?thesis by (auto simp: Let_def)
  qed
qed simp

lemma level_user:
  assumes inv: "vm_inv s root" and t: "path p" "table_at (phys_mem s) root p = Some t" "i < 512"
    and lv: "level_done root p t i f s s' c"
    and w: "page_walk (phys_mem s) root v = Some es" "\<forall>e\<in>set es. bit e 2"
  shows "\<exists>es'. page_walk (phys_mem s') root v = Some es' \<and> (\<forall>e\<in>set es'. bit e 2)"
proof -
  note wf = vm_invD(2)[OF inv]
  have mono: "pte (phys_mem s') u j = pte (phys_mem s) u j \<or> pte (phys_mem s') u j = pte (phys_mem s) u j OR PAGE_USER"
    if "aligned u" "u \<notin> set (free_list s)" "j < 512" "bit (pte (phys_mem s) u j) 0" for u j
  proof (cases "u = t \<and> j = i")
    case True
    have "f AND PAGE_USER = 0 \<or> f AND PAGE_USER = PAGE_USER"
      by (cases "bit f 2") (auto intro!: bit_word_eqI simp: bit_simps bit_page_flags)
    with True entry_update_pte[OF level_doneD(7)[OF lv] that(1-3)] that(4) show ?thesis by auto
  next
    case False
    then show ?thesis using entry_update_pte[OF level_doneD(7)[OF lv] that(1-3)] by auto
  qed
  from walk_user_mono[OF wf mono, of "[]" "indices v" root es] w show ?thesis by (simp add: page_walk_def)
qed

lemma levels_user:
  assumes "levels root f s p s'" "vm_inv s root" "user_access (phys_mem s) root v"
  shows "user_access (phys_mem s') root v"
  using assms
proof (induction rule: levels.induct)
  case (level p s1 t i s2 c)
  have "vm_inv s1 root" "path p" using levels_props[OF level.hyps(1) level.prems(1)] by blast+
  with level.IH[OF level.prems] level_user[OF _ _ level.hyps(2,4,5)] show ?case
    by (fastforce simp: user_access_def list_all_iff split: option.splits)
qed simp

text \<open>What allocating and mapping may change, in a state with everything that is above.\<close>

definition mem_only :: "'z vmm_state_scheme \<Rightarrow> 'z vmm_state_scheme \<Rightarrow> bool" where
  "mem_only s s' \<longleftrightarrow> (\<exists>con m st top' f tlb. s' = s\<lparr>console := con, phys_mem := m, page_stack := st, page_stack_top := top',
     free_pages := f, tlb_log := tlb\<rparr>)"

lemma mem_only_refl [simp]: "mem_only s s"
  unfolding mem_only_def
  by (intro exI[of _ "console s"] exI[of _ "phys_mem s"] exI[of _ "page_stack s"] exI[of _ "page_stack_top s"]
      exI[of _ "free_pages s"] exI[of _ "tlb_log s"]) simp

lemma mem_only_updates [simp]:
  fixes s t :: "'z vmm_state_scheme"
  shows "mem_only s (t\<lparr>console := con\<rparr>) = mem_only s t" "mem_only s (t\<lparr>phys_mem := m\<rparr>) = mem_only s t"
    "mem_only s (t\<lparr>page_stack := st\<rparr>) = mem_only s t" "mem_only s (t\<lparr>page_stack_top := top'\<rparr>) = mem_only s t"
    "mem_only s (t\<lparr>free_pages := f\<rparr>) = mem_only s t" "mem_only s (t\<lparr>tlb_log := tlb\<rparr>) = mem_only s t"
proof -
  have *: "mem_only s t \<longleftrightarrow> vmm_state.truncate s = (vmm_state.truncate t)\<lparr>console := console s, phys_mem := phys_mem s,
      page_stack := page_stack s, page_stack_top := page_stack_top s, free_pages := free_pages s, tlb_log := tlb_log s\<rparr>
      \<and> vmm_state.more t = vmm_state.more s" for t :: "'z vmm_state_scheme"
    unfolding mem_only_def by (cases s; cases t) (auto simp: vmm_state.truncate_def)
  show "mem_only s (t\<lparr>console := con\<rparr>) = mem_only s t" "mem_only s (t\<lparr>phys_mem := m\<rparr>) = mem_only s t"
    "mem_only s (t\<lparr>page_stack := st\<rparr>) = mem_only s t" "mem_only s (t\<lparr>page_stack_top := top'\<rparr>) = mem_only s t"
    "mem_only s (t\<lparr>free_pages := f\<rparr>) = mem_only s t" "mem_only s (t\<lparr>tlb_log := tlb\<rparr>) = mem_only s t"
    unfolding * by (simp_all add: vmm_state.truncate_def)
qed

lemma mem_only_trans: "mem_only s t \<Longrightarrow> mem_only t u \<Longrightarrow> mem_only s u"
  unfolding mem_only_def[of t u] by auto

lemma mem_only_fields:
  assumes "mem_only s s'"
  shows "hhdm_offset s' = hhdm_offset s" "cr3_reg s' = cr3_reg s" "kas_pml4 s' = kas_pml4 s" "kas_cr3 s' = kas_cr3 s"
    "if_flag s' = if_flag s" "vmm_state.more s' = vmm_state.more s" "as_pml4 KernelAS s' = as_pml4 KernelAS s"
  using assms by (auto simp: mem_only_def as_pml4_def)

lemma alloc_mem_only: "alloc_only s s' \<Longrightarrow> mem_only s s'"
  by (elim alloc_onlyE) simp

lemma mem_only_sym: "mem_only s t \<Longrightarrow> mem_only t s"
proof -
  assume "mem_only s t"
  then obtain con m st top' f tlb where "t = s\<lparr>console := con, phys_mem := m, page_stack := st, page_stack_top := top',
     free_pages := f, tlb_log := tlb\<rparr>" by (auto simp: mem_only_def)
  then show "mem_only t s" by (simp add: mem_only_refl) (cases s; auto simp: mem_only_def)
qed

lemma goc_mem_only [simp]: "mem_only s (snd (get_or_create_table e f t)) = mem_only s t"
  using alloc_mem_only[OF alloc_only_goc] mem_only_trans mem_only_sym by blast

lemma map_mem_only:
  assumes "vmm_map_page as v phys flags s = (x, s')"
  shows "mem_only s s'"
proof -
  have "mem_only s (snd (vmm_map_page as v phys flags s))"
    by (simp add: vmm_map_page_def Let_def kstore64_def invlpg_def case_prod_beta)
  with assms show ?thesis by simp
qed

lemma indices_page:
  assumes "same_page 12 v w"
  shows "indices w = indices v"
  using indices_same_page[of 3 v w] assms by (auto simp: indices_def)

lemma user_access_page: "same_page 12 v w \<Longrightarrow> user_access m root w = user_access m root v"
  using indices_page[of v w] by (simp add: user_access_def page_walk_def)

text \<open>A page of data for user mode: the flags, and what mapping it comes down to.\<close>

abbreviation user_flags :: u64 where
  "user_flags \<equiv> PAGE_PRESENT OR PAGE_WRITE OR PAGE_USER"

lemma user_flags_bits:
  "bit user_flags 0" "\<not> bit user_flags 7" "bit user_flags 2" "\<forall>n. 12 \<le> n \<and> n < 52 \<longrightarrow> \<not> bit user_flags n"
  by (simp_all add: bit_simps bit_page_flags)

lemma user_flags_shift: "map_shift v user_flags = 12" "map_depth v user_flags = 3"
  using user_flags_bits by (simp_all add: map_shift_def map_depth_def)

lemma small_depth:
  assumes "\<forall>es. page_walk m A v = Some es \<longrightarrow> page_shift es \<le> 12" "page_walk m A v = Some es"
  shows "map_depth v user_flags < length es"
  using assms shift_depth[of es v user_flags] user_flags_shift by auto

lemma map_user_run:
  fixes s :: "'z vmm_state_scheme"
  assumes vm: "vm_inv s A" and as: "as_pml4 KernelAS s = phys_to_virt (hhdm_offset s) A"
    and small: "\<forall>es. page_walk (phys_mem s) A v = Some es \<longrightarrow> page_shift es \<le> 12"
    and r: "vmm_map_page KernelAS v phys user_flags s = (x, s')"
  obtains (full) "x = - 1" "length (free_list s) < 3"
  | (mapped) s2 t where "x = 0" "levels A user_flags s (take 3 (indices v)) s2"
      "table_at (phys_mem s2) A (take 3 (indices v)) = Some t"
      "s' = invlpg v (s2\<lparr>phys_mem := store64 (phys_mem s2) (entry_at t (indices v ! 3)) (phys OR user_flags)\<rparr>)"
proof (rule map_page_cases[OF vm _ as small_depth[OF small] r])
  fix n s1 assume f: "x = - 1" "levels A user_flags s (take n (indices v)) s1" "n < map_depth v user_flags" "free_list s1 = []"
  have "length (free_list s) < 3" using levels_props[OF f(2) vm] f(3,4) user_flags_shift(2)[of v] by auto
  with f(1) show thesis by (rule full)
next
  fix s1 t assume "x = 0" "levels A user_flags s (take (map_depth v user_flags) (indices v)) s1"
    "table_at (phys_mem s1) A (take (map_depth v user_flags) (indices v)) = Some t"
    "s' = (if bit user_flags 7 then id else invlpg v)
       (s1\<lparr>phys_mem := store64 (phys_mem s1) (entry_at t (indices v ! map_depth v user_flags)) (phys OR user_flags)\<rparr>)"
  with mapped[of s1 t] user_flags_shift(2) user_flags_bits(2) show thesis by simp
qed simp_all

text \<open>One page of data is mapped for user mode.\<close>

lemma spaces_map:
  fixes s :: "'z vmm_state_scheme"
  assumes inv: "spaces_inv {A} P s" and as: "as_pml4 KernelAS s = phys_to_virt (hhdm_offset s) A"
    and low: "pml4_index v < 256" and small: "\<forall>es. page_walk (phys_mem s) A v = Some es \<longrightarrow> page_shift es \<le> 12"
    and phys: "frame_ok (hhdm_offset s) phys"
    and r: "vmm_map_page KernelAS v phys user_flags s = (0, s')"
  shows "spaces_inv {A} P s'" "\<forall>u\<in>P. same_bytes u (phys_mem s) (phys_mem s')"
    "length (free_list s) \<le> length (free_list s') + 3"
    "translate (phys_mem s') A w = (if same_page 12 v w then Some (phys + take_bit 12 w) else translate (phys_mem s) A w)"
    "same_page 12 v w \<or> user_access (phys_mem s) A w \<Longrightarrow> user_access (phys_mem s') A w"
    "page_leaf (phys_mem s') A w = (if same_page 12 v w then Some (phys OR user_flags, 12) else page_leaf (phys_mem s) A w)"
    "set (free_list s') \<subseteq> set (free_list s)"
proof -
  have vm: "vm_inv s A" using spaces_invD(1)[OF inv] by simp
  note f = user_flags_bits and sh = user_flags_shift[of v]
  have large: "map_depth v user_flags < length es" if "page_walk (phys_mem s) A v = Some es" for es
    using small_depth[OF small that] .
  have "KernelAS \<noteq> NullAS" by simp
  note as' = this as
  obtain s1 where s1: "space_steps A s s1" "quiet s1 s'"
    using map_space_steps[OF vm as' low large r] by blast
  note st = spaces_steps[OF s1(1) inv]
  have P: "spaces_inv {A} P s1" "\<forall>a\<in>P. \<forall>j<512. pte (phys_mem s1) a j = pte (phys_mem s) a j" using st by simp_all
  show "spaces_inv {A} P s'" using spaces_quiet[OF s1(2)] P(1) by simp
  have mem: "phys_mem s' = phys_mem s1" using s1(2) by (simp add: quiet_def)
  show "\<forall>u\<in>P. same_bytes u (phys_mem s) (phys_mem s')"
    unfolding mem using P(2) pte_same_bytes by blast
  obtain s2 t where m: "levels A user_flags s (take 3 (indices v)) s2" "table_at (phys_mem s2) A (take 3 (indices v)) = Some t"
      "s' = invlpg v (s2\<lparr>phys_mem := store64 (phys_mem s2) (entry_at t (indices v ! 3)) (phys OR user_flags)\<rparr>)"
    by (rule map_user_run[OF vm as small r]) simp_all
  have fl: "free_list s' = free_list s2" by (simp add: m(3) invlpg_def free_list_def)
  show "length (free_list s) \<le> length (free_list s') + 3" unfolding fl using levels_props[OF m(1) vm] by simp
  show "set (free_list s') \<subseteq> set (free_list s)" unfolding fl using levels_props[OF m(1) vm] by blast
  let ?s3 = "s2\<lparr>phys_mem := store64 (phys_mem s2) (entry_at t (indices v ! 3)) (phys OR user_flags)\<rparr>"
  have e: "bit (phys OR user_flags) 0" "bit user_flags 7 \<longrightarrow> bit (phys OR user_flags) 7"
    using f(1,2) by (simp_all add: bit_or_iff)
  have mem3: "phys_mem s' = phys_mem ?s3" by (simp add: m(3) invlpg_def)
  note w = map_entry_written[OF vm m(1,2)[folded sh(2)] e refl, unfolded sh]
  show leaf: "page_leaf (phys_mem s') A w = (if same_page 12 v w then Some (phys OR user_flags, 12) else page_leaf (phys_mem s) A w)" for w
    unfolding mem3 by (rule w(3))
  have ph: "2 ^ 12 dvd unat phys" "unat phys < 2 ^ 52" using phys by (simp_all add: frame_ok_def)
  note fr = frame_of_entry[OF ph(1) _ ph(2) f(4)]
  show "translate (phys_mem s') A w = (if same_page 12 v w then Some (phys + take_bit 12 w) else translate (phys_mem s) A w)"
    using fr(1) fr(2)[of w] leaf[of w] by (simp add: translate_leaf)
  show "user_access (phys_mem s') A w" if "same_page 12 v w \<or> user_access (phys_mem s) A w"
  proof (cases "same_page 12 v w")
    case True
    have "\<forall>e\<in>set (path_entries (phys_mem s2) A (take 3 (indices v))). bit e 2"
      using levels_props[OF m(1) vm] f(3) by blast
    then show ?thesis using w(2)[of w] True f(3) unfolding mem3
      by (simp add: user_access_def page_walk_def list_all_iff bit_or_iff)
  next
    case False
    then have "user_access (phys_mem s2) A w" using that levels_user[OF m(1) vm] by blast
    then show ?thesis using w(2)[of w] False unfolding mem3 by (simp add: user_access_def page_walk_def)
  qed
qed

section \<open>Addresses\<close>

lemma same_page_unat:
  "same_page 12 v w \<longleftrightarrow> unat v mod 2 ^ 48 div 4096 = unat w mod 2 ^ 48 div 4096"
proof -
  have u: "unat (drop_bit 12 (take_bit 48 x)) = unat x mod 2 ^ 48 div 4096" for x :: u64
    unfolding unat_drop_bit_eq unsigned_take_bit_eq take_bit_eq_mod[of 48 "unat x"] by (simp add: drop_bit_eq_div)
  show ?thesis unfolding same_page_def word_unat_eq_iff u ..
qed

lemma pml4_index_low:
  assumes "unat v < 2 ^ 47"
  shows "pml4_index v < 256"
proof -
  have m: "(0x1FF :: u64) = mask 9" by (simp add: mask_eq_exp_minus_1)
  have "unat (drop_bit 39 v AND 0x1FF) = (unat v div 2 ^ 39) mod 2 ^ 9"
    unfolding m take_bit_eq_mask[symmetric] unsigned_take_bit_eq unat_drop_bit_eq drop_bit_eq_div[of 39 "unat v"]
    by (simp add: take_bit_eq_mod)
  also have "\<dots> < 256" using assms by (intro le_less_trans[OF mod_less_eq_dividend]) (simp add: less_mult_imp_div_less)
  finally show ?thesis by (simp add: pml4_index_def word_less_nat_alt)
qed

section \<open>Releasing a data page\<close>

lemma spaces_free:
  fixes s :: "'z vmm_state_scheme"
  assumes inv: "spaces_inv {A} P s" and b: "b \<in> P" "page_ok b" "length (free_list s) < unat MAX_PAGES"
  shows "spaces_inv {A} (P - {b}) (pmm_free_page b s)" "phys_mem (pmm_free_page b s) = phys_mem s"
    "mem_only s (pmm_free_page b s)" "free_list (pmm_free_page b s) = free_list s @ [b]"
proof -
  note I = spaces_invD[OF inv] and A = vm_invD[OF spaces_invD(1)[OF inv, of A], simplified]
  have b0: "b \<noteq> 0" by (rule page_ok_not_null[OF b(2)])
  have top': "\<not> MAX_PAGES \<le> page_stack_top s" "unat (page_stack_top s) < unat MAX_PAGES"
    using b(3) by (simp_all add: word_le_nat_alt length_free_list)
  have eq: "pmm_free_page b s = (page_push b s)\<lparr>free_pages := free_pages s + 1\<rparr>"
    using b0 top' by (simp add: pmm_free_page_def Let_def page_push_def)
  show m: "phys_mem (pmm_free_page b s) = phys_mem s" "mem_only s (pmm_free_page b s)"
    by (simp_all add: eq page_push_def)
  have h: "hhdm_offset (pmm_free_page b s) = hhdm_offset s" by (simp add: eq page_push_def)
  show fl: "free_list (pmm_free_page b s) = free_list s @ [b]"
    using free_list_push(1)[OF top'(2), of b] by (simp add: eq free_list_def)
  have pm: "pmm_inv (pmm_free_page b s)"
    using A(1) I(5)[OF b(1)] b(2) free_list_push(2)[OF top'(2), of b] top'(2) unfolding pmm_inv_def fl
    by (auto simp: eq page_push_def)
  have nt: "not_table (phys_mem s) A b" using I(6)[OF b(1)] by simp
  have "pt_wf (hhdm_offset s) (phys_mem s) A (set (free_list s @ [b]))"
    using A(2) nt by (auto simp: pt_wf_def not_table_def)
  then have "vm_inv (pmm_free_page b s) A"
    unfolding vm_inv_def h m(1) fl using pm A(3) I(4)[OF b(1)] by auto
  then show "spaces_inv {A} (P - {b}) (pmm_free_page b s)"
    unfolding spaces_inv_def h m(1) fl using I(4,5,6) by auto
qed

end
