(* ===== verification/Kernel.thy ===== *)
theory Kernel
  imports Limine Vmm_Data Syscall Ext2_Faults
begin

text \<open>
  The entry point of the kernel (\<^verbatim>\<open>main.c\<close>): it starts every component in order, finds the
  init program on the disk or among the modules of the boot loader, maps and copies it to
  \<^verbatim>\<open>0x400000\<close>, gives it a stack and hands over to the scheduler.

  A part of \<open>kernel_main\<close> has a value or stops the machine; \<open>boot_end\<close> says how. The copy of
  the program goes through user addresses that have just been mapped, so it is the one
  place where the kernel's own accesses are translated by the page tables.
\<close>

unbundle bit_operations_syntax

section \<open>Definitions\<close>

datatype boot_end = Hcf | PageFault | Entered u64

record kernel_state = ext2_state +
  test_port :: "nat option"

definition hcf :: "'z machine_scheme \<Rightarrow> ((boot_end + 'a) \<times> 'z machine_scheme) option" where
  "hcf s = Some (Inl Hcf, s\<lparr>if_flag := False\<rparr>)"

definition boot_cpu :: "device \<Rightarrow> image \<Rightarrow> limine \<Rightarrow> 'z idt_state_scheme \<Rightarrow> 'z idt_state_scheme option" where
  "boot_cpu dev img lim s0 =
     (let s1 = serial_print ''======================\<newline>\<newline>'' (serial_print ''PlasmaOS Kernel v0.1.0\<newline>'' (serial_init dev s0));
          s2 = limine_parse_info lim (serial_print ''Parsing Limine bootloader info...\<newline>'' s1);
          s3 = serial_print ''  - Setting up GDT (Global Descriptor Table)...\<newline>''
                 (serial_print ''\<newline>Initializing CPU infrastructure...\<newline>'' s2);
          s4 = serial_print ''  - GDT loaded successfully\<newline>'' (gdt_init img s3);
          s5 = idt_init img (serial_print ''  - Setting up IDT (Interrupt Descriptor Table)...\<newline>'' s4);
          s6 = serial_print ''  - IDT loaded successfully\<newline>'' s5;
          s7 = serial_print ''  - Initializing PIT (Programmable Interval Timer) at 100Hz...\<newline>'' s6
      in map_option (\<lambda>s8. serial_print ''\<newline>CPU infrastructure complete\<newline>\<newline>''
           (serial_print ''  - PIT initialized, interrupts enabled\<newline>'' s8)) (pit_init 100 s7))"

text \<open>The test of the page allocator.\<close>

definition memory_test :: "'z pmm_state_scheme \<Rightarrow> 'z pmm_state_scheme" where
  "memory_test s0 =
     (let (page1, s1) = pmm_alloc_page (serial_print ''Testing memory allocation...\<newline>'' s0);
          (page2, s2) = pmm_alloc_page s1;
          (page3, s3) = pmm_alloc_page s2;
          s4 = serial_print_hex page1 (serial_print ''  Allocated pages: '' s3);
          s5 = serial_print_hex page2 (serial_print '', '' s4);
          s6 = serial_print ''\<newline>'' (serial_print_hex page3 (serial_print '', '' s5));
          s7 = serial_print ''  Freed middle page\<newline>'' (pmm_free_page page2 s6);
          (page4, s8) = pmm_alloc_page s7
      in serial_print ''Memory allocation test passed!\<newline>\<newline>''
           (serial_print ''\<newline>'' (serial_print_hex page4 (serial_print ''  Reallocated: '' s8))))"

definition boot_memory :: "u64 \<Rightarrow> limine \<Rightarrow> 'z vmm_state_scheme \<Rightarrow> 'z vmm_state_scheme option" where
  "boot_memory usable lim s0 =
     (let s1 = serial_print ''  - Initilizing PMM (Physical Memory Manager)...\<newline>''
                 (serial_print ''Initializing memory management...\<newline>'' s0)
      in case pmm_init usable (limine_get_memmap_request lim) s1 of
           None \<Rightarrow> None
         | Some s2 \<Rightarrow>
             (let s3 = vmm_init (limine_get_executable_address_request lim)
                         (serial_print ''  - Initializing VMM (Virtual Memory Manager)...\<newline>'' s2);
                  s4 = serial_print ''  * Free memory: '' (serial_print ''\<newline>Memory Management Complete!\<newline>'' s3);
                  s5 = serial_print '' MB\<newline>\<newline>'' (serial_print_dec (pmm_get_free_memory s4 div 1024 div 1024) s4)
              in Some (memory_test s5)))"

definition boot_services :: "device \<Rightarrow> image \<Rightarrow> 'z kernel_state_scheme \<Rightarrow> ((boot_end + unit) \<times> 'z kernel_state_scheme) option" where
  "boot_services dev img s0 =
     (let s1 = thread_init (serial_print ''\<newline>Initializing threading subsystem...\<newline>'' s0);
          s2 = syscall_init img (serial_print ''Initializing syscall interface...\<newline>'' s1);
          s3 = serial_print ''Syscalls initialized\<newline>\<newline>'' s2;
          s4 = ata_init dev (serial_print ''Initializing disk I/O...\<newline>'' s3);
          s5 = serial_print ''Disk I/O initialized\<newline>\<newline>'' s4;
          s6 = snd (ext2_init dev (serial_print ''Initializing filesystem...\<newline>'' s5))
      in case ext2_list_root dev s6 of
           None \<Rightarrow> None
         | Some s7 \<Rightarrow>
             (let (port, s8) = port_create (serial_print ''Creating IPC test port...\<newline>'' (serial_print ''\<newline>'' s7));
                  s9 = s8\<lparr>test_port := port\<rparr>
              in if test_port s9 = None then hcf (serial_print ''ERROR: Failed to create port!\<newline>'' s9)
                 else Some (Inr (), serial_print ''Port created successfully\<newline>\<newline>'' s9)))"

text \<open>
  Where the program comes from: the address of its bytes, their number, and the page that
  holds the file when it was read from the disk.
\<close>

record init_source =
  init_data :: u64
  init_size :: u64
  disk_page :: "u64 option"

definition load_from_disk :: "device \<Rightarrow> 'z ext2_state_scheme \<Rightarrow> (u64 \<times> init_source option \<times> 'z ext2_state_scheme) option" where
  "load_from_disk dev s =
     (let (disk_buffer, s1) = pmm_alloc_page s
      in if disk_buffer = 0 then Some (0, None, s1)
         else case ext2_read_file dev ''init.bin'' disk_buffer 8192 s1 of
           None \<Rightarrow> None
         | Some (sz, s2) \<Rightarrow>
             if sz > 0
             then Some (disk_buffer, Some \<lparr>init_data = disk_buffer, init_size = word_of_int sz, disk_page = Some disk_buffer\<rparr>,
                    serial_print '' bytes)\<newline>'' (serial_print_dec (word_of_int sz)
                      (serial_print ''  Loaded init.bin from disk ('' s2)))
             else Some (disk_buffer, None, s2))"

definition find_init :: "device \<Rightarrow> limine \<Rightarrow> 'z ext2_state_scheme \<Rightarrow> ((boot_end + init_source) \<times> 'z ext2_state_scheme) option" where
  "find_init dev lim s0 =
     (case load_from_disk dev (serial_print ''Loading userspace init program...\<newline>'' s0) of
        None \<Rightarrow> None
      | Some (disk_buffer, Some src, s1) \<Rightarrow> Some (Inr src, s1)
      | Some (disk_buffer, None, s1) \<Rightarrow>
          (case module_response lim of
             Some (init_module # _) \<Rightarrow>
               (let s2 = serial_print (file_path init_module) (serial_print ''  Loaded from Limine module: '' s1)
                in Some (Inr \<lparr>init_data = file_address init_module, init_size = file_bytes init_module, disk_page = None\<rparr>,
                     serial_print '' bytes)\<newline>'' (serial_print_dec (file_bytes init_module) (serial_print '' ('' s2))))
           | _ \<Rightarrow>
               (let s2 = serial_print ''ERROR: Could not load init from disk or modules!\<newline>'' s1
                in hcf (if disk_buffer \<noteq> 0 then pmm_free_page disk_buffer s2 else s2))))"

definition user_code_virt :: u64 where "user_code_virt = 0x400000"
definition user_stack_virt :: u64 where "user_stack_virt = 0x7FFFFFFFE000"

definition pages_needed :: "u64 \<Rightarrow> u64" where
  "pages_needed sz = (sz + 0xFFF) div 0x1000"

text \<open>The loop over the pages of the program, with \<open>n\<close> pages left from page \<open>i\<close> on.\<close>

primrec map_user_code :: "nat \<Rightarrow> nat \<Rightarrow> 'z vmm_state_scheme \<Rightarrow> ((boot_end + unit) \<times> 'z vmm_state_scheme) option" where
  "map_user_code 0 i s = Some (Inr (), s)"
| "map_user_code (Suc n) i s =
     (let (phys, s1) = pmm_alloc_page s
      in if phys = 0 then hcf (serial_print ''ERROR: Failed to allocate page for user code!\<newline>'' s1)
         else let (map_result, s2) = vmm_map_page vmm_get_kernel_address_space (user_code_virt + of_nat i * 0x1000) phys user_flags s1
              in if map_result \<noteq> 0 then hcf (serial_print ''ERROR: Failed to map user code page!\<newline>'' s2)
                 else map_user_code n (i + 1) s2)"

text \<open>The assignment \<^verbatim>\<open>dst[j] = src[j]\<close>.\<close>

definition copy_byte :: "u64 \<Rightarrow> u64 \<Rightarrow> 'z machine_scheme \<Rightarrow> 'z machine_scheme option" where
  "copy_byte dst src s =
     (let root = entry_to_phys (cr3_reg s) in
      case (translate (phys_mem s) root src, translate (phys_mem s) root dst) of
        (Some pa, Some qa) \<Rightarrow> Some (s\<lparr>phys_mem := (phys_mem s)(qa := phys_mem s pa)\<rparr>)
      | _ \<Rightarrow> None)"

primrec copy_page :: "nat \<Rightarrow> u64 \<Rightarrow> u64 \<Rightarrow> nat \<Rightarrow> nat \<Rightarrow> 'z machine_scheme \<Rightarrow> ((boot_end + unit) \<times> 'z machine_scheme) option" where
  "copy_page 0 data sz i j s = Some (Inr (), s)"
| "copy_page (Suc n) data sz i j s =
     (if i * 0x1000 + j < unat sz
      then case copy_byte (user_code_virt + of_nat (i * 0x1000) + of_nat j) (data + of_nat (i * 0x1000) + of_nat j) s of
             None \<Rightarrow> Some (Inl PageFault, s)
           | Some s' \<Rightarrow> copy_page n data sz i (j + 1) s'
      else Some (Inr (), s))"

primrec copy_user_code :: "nat \<Rightarrow> u64 \<Rightarrow> u64 \<Rightarrow> nat \<Rightarrow> 'z machine_scheme \<Rightarrow> ((boot_end + unit) \<times> 'z machine_scheme) option" where
  "copy_user_code 0 data sz i = run_return ()"
| "copy_user_code (Suc n) data sz i =
     run_then (copy_page 0x1000 data sz i 0) (\<lambda>_. copy_user_code n data sz (i + 1))"

definition load_user_code :: "init_source \<Rightarrow> 'z vmm_state_scheme \<Rightarrow> ((boot_end + unit) \<times> 'z vmm_state_scheme) option" where
  "load_user_code src s0 =
     (let n = pages_needed (init_size src);
          s1 = serial_print '' pages for user code...\<newline>'' (serial_print_dec n (serial_print ''  Allocating and mapping '' s0))
      in run_then (map_user_code (unat n) 0) (\<lambda>_.
         run_then (copy_user_code (unat n) (init_data src) (init_size src) 0) (\<lambda>_ s2.
         Some (Inr (),
           serial_print ''\<newline>'' (serial_print_hex user_code_virt (serial_print ''  User code mapped successfully at ''
             (case disk_page src of None \<Rightarrow> s2 | Some disk_buffer \<Rightarrow> pmm_free_page disk_buffer s2)))))) s1)"

definition map_user_stack :: "'z vmm_state_scheme \<Rightarrow> ((boot_end + u64) \<times> 'z vmm_state_scheme) option" where
  "map_user_stack s0 =
     (let (user_stack_phys, s1) = pmm_alloc_page (serial_print ''  Allocating user stack...\<newline>'' s0)
      in if user_stack_phys = 0 then hcf (serial_print ''ERROR: Failed to allocate user stack!\<newline>'' s1)
         else let s2 = serial_print ''\<newline>'' (serial_print_hex user_stack_virt
                         (serial_print ''  Mapping user stack to virtual address: '' s1));
                  (map_result, s3) = vmm_map_page vmm_get_kernel_address_space user_stack_virt user_stack_phys user_flags s2
              in if map_result \<noteq> 0
                 then hcf (serial_print ''\<newline>'' (serial_print_dec (word_of_int map_result)
                        (serial_print ''ERROR: Failed to map user stack! Error: '' s3)))
                 else Some (Inr (user_stack_virt + 0x1000), serial_print ''  User stack mapped successfully\<newline>'' s3))"

text \<open>\<open>ra\<close> is the return address of the call of \<^verbatim>\<open>context_switch\<close>.\<close>

definition start_init :: "image \<Rightarrow> u64 \<Rightarrow> u64 \<Rightarrow> 'z thread_state_scheme \<Rightarrow> ((boot_end + unit) \<times> 'z thread_state_scheme) option" where
  "start_init img ra user_stack_top s0 =
     (let s1 = serial_print ''  Entry point: '' (serial_print ''Creating userspace thread...\<newline>'' s0);
          s2 = serial_print ''  Stack top: '' (serial_print ''\<newline>'' (serial_print_hex user_code_virt s1));
          s3 = serial_print ''\<newline>'' (serial_print_hex user_stack_top s2)
      in case thread_create_user img user_code_virt user_stack_top s3 of
           None \<Rightarrow> None
         | Some s4 \<Rightarrow>
            (case scheduler_start ra (serial_print ''Starting scheduler...\<newline>\<newline>'' (serial_print ''Userspace thread created\<newline>\<newline>'' s4)) of
               None \<Rightarrow> None
             | Some (Resumes rip, s5) \<Rightarrow> Some (Inl (Entered rip), s5)
             | Some (Returns, s5) \<Rightarrow> hcf (serial_print ''\<newline>ERROR: Scheduler returned!\<newline>'' s5)))"

definition kernel_main ::
    "device \<Rightarrow> image \<Rightarrow> u64 \<Rightarrow> limine \<Rightarrow> u64 \<Rightarrow> 'z kernel_state_scheme \<Rightarrow> ((boot_end + unit) \<times> 'z kernel_state_scheme) option" where
  "kernel_main dev img usable lim ra s0 =
     (case Option.bind (boot_cpu dev img lim s0) (boot_memory usable lim) of
        None \<Rightarrow> None
      | Some s1 \<Rightarrow>
         run_then (boot_services dev img) (\<lambda>_.
         run_then (find_init dev lim) (\<lambda>src.
         run_then (load_user_code src) (\<lambda>_.
         run_then map_user_stack (start_init img ra)))) s1)"

end
