(* ===== verification/Kernel_Load.thy ===== *)
theory Kernel_Load
  imports Kernel
begin

text \<open>
  Loading the init program: after the two loops of \<open>load_user_code\<close> the bytes of the program can be read by
  user mode from \<^verbatim>\<open>0x400000\<close> on, whatever pages the allocator handed out for the program
  and for the tables on the way.
\<close>

unbundle bit_operations_syntax

section \<open>The pages of the program\<close>

definition code_page :: "nat \<Rightarrow> u64" where
  "code_page i = user_code_virt + of_nat i * 0x1000"

abbreviation max_code_pages :: nat where "max_code_pages \<equiv> 0x40000"

lemma code_page_unat:
  assumes "i < max_code_pages"
  shows "unat (code_page i) = 0x400000 + 4096 * i"
proof -
  have "code_page i = of_nat (0x400000 + 4096 * i)" by (simp add: code_page_def user_code_virt_def)
  moreover have "unat (of_nat (0x400000 + 4096 * i) :: u64) = 0x400000 + 4096 * i"
    by (rule unat_of_nat64) (use assms in simp)
  ultimately show ?thesis by simp
qed

lemma code_page_facts:
  assumes "i < max_code_pages"
  shows "aligned (code_page i)" "pml4_index (code_page i) < 256"
    "j < max_code_pages \<Longrightarrow> same_page 12 (code_page i) (code_page j) \<longleftrightarrow> i = j"
proof -
  note u = code_page_unat
  have "0x400000 + 4096 * i = 4096 * (0x400 + i)" by simp
  then show "aligned (code_page i)" unfolding u[OF assms] by (metis dvd_triv_left)
  show "pml4_index (code_page i) < 256" by (rule pml4_index_low) (use assms in \<open>simp add: u\<close>)
  have d: "unat (code_page k) mod 2 ^ 48 div 4096 = 0x400 + k" if "k < max_code_pages" for k
    using that by (simp add: u)
  show "same_page 12 (code_page i) (code_page j) \<longleftrightarrow> i = j" if "j < max_code_pages"
    unfolding same_page_unat d[OF assms] d[OF that] by simp
qed

text \<open>No 2 MiB or 1 GiB page is in the way of a mapping.\<close>

definition no_large_page :: "memory \<Rightarrow> u64 \<Rightarrow> u64 \<Rightarrow> bool" where
  "no_large_page m A v = (case page_leaf m A v of None \<Rightarrow> True | Some (e, sh) \<Rightarrow> sh \<le> 12)"

lemma no_large_page_walk: "no_large_page m A v \<longleftrightarrow> (\<forall>es. page_walk m A v = Some es \<longrightarrow> page_shift es \<le> 12)"
  by (cases "page_walk m A v") (simp_all add: no_large_page_def page_leaf_def)

text \<open>
  The state after \<open>length ps\<close> pages: page \<open>i\<close> of the program is mapped to the frame \<open>ps ! i\<close>,
  and nothing else has changed that \<open>P\<close>, the pages that are in use, or the page walk can show.
\<close>

definition code_mapped :: "u64 \<Rightarrow> u64 set \<Rightarrow> 'z vmm_state_scheme \<Rightarrow> u64 list \<Rightarrow> 'z vmm_state_scheme \<Rightarrow> bool" where
  "code_mapped A P s0 ps s \<longleftrightarrow> spaces_inv {A} (P \<union> set ps) s \<and> mem_only s0 s \<and> distinct ps \<and> set ps \<inter> P = {}
     \<and> (\<forall>i<length ps. \<forall>w. same_page 12 (code_page i) w \<longrightarrow>
          translate (phys_mem s) A w = Some (ps ! i + take_bit 12 w) \<and> user_access (phys_mem s) A w)
     \<and> (\<forall>w. (\<forall>i<length ps. \<not> same_page 12 (code_page i) w) \<longrightarrow> page_leaf (phys_mem s) A w = page_leaf (phys_mem s0) A w)
     \<and> (\<forall>u\<in>P. same_bytes u (phys_mem s0) (phys_mem s)) \<and> set (free_list s) \<subseteq> set (free_list s0)"

lemma same_bytes_trans: "same_bytes u m m' \<Longrightarrow> same_bytes u m' m'' \<Longrightarrow> same_bytes u m m''"
  by (simp add: same_bytes_def)

lemma code_mappedD:
  assumes "code_mapped A P s0 ps s"
  shows "spaces_inv {A} (P \<union> set ps) s" "mem_only s0 s" "distinct ps" "set ps \<inter> P = {}"
    "i < length ps \<Longrightarrow> same_page 12 (code_page i) w \<Longrightarrow> translate (phys_mem s) A w = Some (ps ! i + take_bit 12 w)"
    "i < length ps \<Longrightarrow> same_page 12 (code_page i) w \<Longrightarrow> user_access (phys_mem s) A w"
    "\<forall>i<length ps. \<not> same_page 12 (code_page i) w \<Longrightarrow> page_leaf (phys_mem s) A w = page_leaf (phys_mem s0) A w"
    "u \<in> P \<Longrightarrow> same_bytes u (phys_mem s0) (phys_mem s)" "set (free_list s) \<subseteq> set (free_list s0)"
  using assms by (auto simp: code_mapped_def)

text \<open>One page more, when the allocator has a page and mapping succeeds.\<close>

lemma code_mapped_step:
  fixes s0 s :: "'z vmm_state_scheme"
  assumes M: "code_mapped A P s0 ps s" and as: "as_pml4 KernelAS s0 = phys_to_virt (hhdm_offset s0) A"
    and i: "length ps < max_code_pages" and small: "no_large_page (phys_mem s0) A (code_page (length ps))"
    and al: "pmm_alloc_page s = (phys, s1)" and ne: "free_list s \<noteq> []"
    and r: "vmm_map_page KernelAS (code_page (length ps)) phys user_flags s1 = (x, s2)"
  shows "phys \<noteq> 0" "x = 0 \<or> length (free_list s) < 4"
    "x = 0 \<Longrightarrow> code_mapped A P s0 (ps @ [phys]) s2 \<and> length (free_list s) \<le> length (free_list s2) + 4"
proof -
  note D = code_mappedD[OF M]
  let ?v = "code_page (length ps)"
  have a: "phys \<noteq> 0" "phys \<notin> P \<union> set ps" "spaces_inv {A} (insert phys (P \<union> set ps)) s1"
      "length (free_list s1) = length (free_list s) - 1" "same_walks A (phys_mem s) (phys_mem s1)" "alloc_only s s1"
      "\<And>u. u \<in> P \<union> set ps \<Longrightarrow> same_bytes u (phys_mem s) (phys_mem s1)" "set (free_list s1) \<subseteq> set (free_list s)"
  proof -
    obtain p t where "pmm_alloc_page s = (p, t)" "p \<noteq> 0" "p \<notin> P \<union> set ps" "spaces_inv {A} (insert p (P \<union> set ps)) t"
      "length (free_list t) = length (free_list s) - 1" "same_walks A (phys_mem s) (phys_mem t)" "alloc_only s t"
      "\<And>u. u \<in> P \<union> set ps \<Longrightarrow> same_bytes u (phys_mem s) (phys_mem t)" "set (free_list t) \<subseteq> set (free_list s)"
      by (rule spaces_alloc[OF D(1) ne]) blast
    moreover from this(1) al have "p = phys" "t = s1" by simp_all
    ultimately show "phys \<noteq> 0" "phys \<notin> P \<union> set ps" "spaces_inv {A} (insert phys (P \<union> set ps)) s1"
      "length (free_list s1) = length (free_list s) - 1" "same_walks A (phys_mem s) (phys_mem s1)" "alloc_only s s1"
      "\<And>u. u \<in> P \<union> set ps \<Longrightarrow> same_bytes u (phys_mem s) (phys_mem s1)" "set (free_list s1) \<subseteq> set (free_list s)"
      by blast+
  qed
  show "phys \<noteq> 0" by (rule a(1))
  note W = same_walksD[OF a(5)]
  have m1: "mem_only s0 s1" using mem_only_trans[OF D(2) alloc_mem_only[OF a(6)]] .
  note F = mem_only_fields[OF m1]
  have other: "\<forall>k<length ps. \<not> same_page 12 (code_page k) ?v" using code_page_facts(3)[OF _ i] i by auto
  have sm: "\<forall>es. page_walk (phys_mem s1) A ?v = Some es \<longrightarrow> page_shift es \<le> 12"
    using small D(7)[OF other] unfolding no_large_page_walk[symmetric] by (simp add: no_large_page_def W(2))
  have as1: "as_pml4 KernelAS s1 = phys_to_virt (hhdm_offset s1) A" using as F by simp
  have vm1: "vm_inv s1 A" using spaces_invD(1)[OF a(3)] by simp
  show "x = 0 \<or> length (free_list s) < 4"
  proof (rule map_user_run[OF vm1 as1 sm r])
    assume "length (free_list s1) < 3"
    then show ?thesis using a(4) by linarith
  qed blast
  assume x: "x = 0"
  have fr: "frame_ok (hhdm_offset s1) phys" using spaces_invD(4)[OF a(3)] by simp
  note N = spaces_map[OF a(3) as1 code_page_facts(2)[OF i] sm fr r[unfolded x]]
  have "code_mapped A P s0 (ps @ [phys]) s2"
    unfolding code_mapped_def
  proof (intro conjI allI impI ballI)
    show "spaces_inv {A} (P \<union> set (ps @ [phys])) s2" using N(1) by (simp add: insert_commute Un_commute)
    show "mem_only s0 s2" using mem_only_trans[OF m1 map_mem_only[OF r]] .
    show "distinct (ps @ [phys])" "set (ps @ [phys]) \<inter> P = {}" using D(3,4) a(2) by auto
    show "set (free_list s2) \<subseteq> set (free_list s0)" using D(9) a(8) N(7) by blast
    fix u assume "u \<in> P"
    then show "same_bytes u (phys_mem s0) (phys_mem s2)"
      using D(8) a(7)[of u] N(2) same_bytes_trans by (meson UnI1 insertI2)
  next
    fix k w assume k: "k < length (ps @ [phys])" and w: "same_page 12 (code_page k) w"
    have s: "same_page 12 ?v w \<longleftrightarrow> k = length ps"
      using code_page_facts(3)[of k "length ps"] k i w by (auto simp: same_page_def)
    show "translate (phys_mem s2) A w = Some ((ps @ [phys]) ! k + take_bit 12 w)"
      using N(4)[of w] D(5)[OF _ w] W(3)[of w] s k by (auto simp: nth_append)
    show "user_access (phys_mem s2) A w"
      using N(5)[of w] D(6)[OF _ w] W(4)[of w] s k by (auto simp: nth_append)
  next
    fix w assume "\<forall>k<length (ps @ [phys]). \<not> same_page 12 (code_page k) w"
    then show "page_leaf (phys_mem s2) A w = page_leaf (phys_mem s0) A w"
      using N(6)[of w] D(7)[of w] W(2)[of w] by simp
  qed
  with a(4) N(3) show "code_mapped A P s0 (ps @ [phys]) s2 \<and> length (free_list s) \<le> length (free_list s2) + 4" by simp
qed

text \<open>The machine has stopped for good: \<open>hcf\<close> with interrupts off, after a message.\<close>

definition halted :: "string \<Rightarrow> ((boot_end + 'a) \<times> 'z machine_scheme) option \<Rightarrow> bool" where
  "halted msg r \<longleftrightarrow> (\<exists>s' t. r = Some (Inl Hcf, s') \<and> \<not> if_flag s' \<and> console s' = t @ msg)"

lemma halted_hcf: "halted msg (hcf (serial_print msg s))"
  by (auto simp: halted_def hcf_def)

definition code_errors :: "string set" where
  "code_errors = {''ERROR: Failed to allocate page for user code!\<newline>'', ''ERROR: Failed to map user code page!\<newline>''}"

lemma map_user_code_ok:
  fixes s0 s :: "'z vmm_state_scheme"
  assumes M: "code_mapped A P s0 ps s" and as: "as_pml4 KernelAS s0 = phys_to_virt (hhdm_offset s0) A"
    and n: "length ps + n \<le> max_code_pages" and small: "\<forall>i<length ps + n. no_large_page (phys_mem s0) A (code_page i)"
  shows "(\<exists>qs s'. map_user_code n (length ps) s = Some (Inr (), s') \<and> length qs = n \<and> code_mapped A P s0 (ps @ qs) s' \<and>
      length (free_list s) \<le> length (free_list s') + 4 * n) \<or>
    (\<exists>msg\<in>code_errors. halted msg (map_user_code n (length ps) s)) \<and> length (free_list s) < 4 * n"
  using assms
proof (induction n arbitrary: ps s)
  case 0
  then show ?case by auto
next
  case (Suc n)
  have i: "length ps < max_code_pages" "no_large_page (phys_mem s0) A (code_page (length ps))" using Suc.prems(3,4) by auto
  obtain phys s1 where al: "pmm_alloc_page s = (phys, s1)" by force
  obtain x s2 where r: "vmm_map_page KernelAS (code_page (length ps)) phys user_flags s1 = (x, s2)" by force
  have run: "map_user_code (Suc n) (length ps) s =
      (if phys = 0 then hcf (serial_print ''ERROR: Failed to allocate page for user code!\<newline>'' s1)
       else if x \<noteq> 0 then hcf (serial_print ''ERROR: Failed to map user code page!\<newline>'' s2) else map_user_code n (length ps + 1) s2)"
    using al r by (simp add: code_page_def vmm_get_kernel_address_space_def del: serial_print_def)
  consider (empty) "free_list s = []" | (unmapped) "free_list s \<noteq> []" "x \<noteq> 0" | (page) "free_list s \<noteq> []" "x = 0" by blast
  then show ?case
  proof cases
    case empty
    have "phys = 0" using pmm.alloc_empty[OF vm_invD(1)[OF spaces_invD(1)[OF code_mappedD(1)[OF Suc.prems(1)]]] empty] al by simp
    with empty halted_hcf show ?thesis unfolding run code_errors_def by fastforce
  next
    case unmapped
    note st = code_mapped_step[OF Suc.prems(1) as i al unmapped(1) r]
    from unmapped(2) st(1,2) halted_hcf show ?thesis unfolding run code_errors_def by fastforce
  next
    case page
    note st = code_mapped_step[OF Suc.prems(1) as i al page(1) r]
    have st3: "code_mapped A P s0 (ps @ [phys]) s2" "length (free_list s) \<le> length (free_list s2) + 4" using st(3) page(2) by simp_all
    have run': "map_user_code (Suc n) (length ps) s = map_user_code n (length (ps @ [phys])) s2" unfolding run using st(1) page(2) by simp
    have "(\<exists>qs s'. map_user_code n (length (ps @ [phys])) s2 = Some (Inr (), s') \<and> length qs = n \<and>
        code_mapped A P s0 ((ps @ [phys]) @ qs) s' \<and> length (free_list s2) \<le> length (free_list s') + 4 * n) \<or>
      (\<exists>msg\<in>code_errors. halted msg (map_user_code n (length (ps @ [phys])) s2)) \<and> length (free_list s2) < 4 * n"
      by (rule Suc.IH[OF st3(1) as]) (use Suc.prems(3,4) in auto)
    then show ?thesis
    proof (elim disjE exE conjE)
      fix qs s' assume q: "map_user_code n (length (ps @ [phys])) s2 = Some (Inr (), s')" "length qs = n"
        "code_mapped A P s0 ((ps @ [phys]) @ qs) s'" "length (free_list s2) \<le> length (free_list s') + 4 * n"
      then show ?thesis using st3(2) unfolding run' by (intro disjI1 exI[of _ "phys # qs"] exI[of _ s']) simp
    next
      assume "\<exists>msg\<in>code_errors. halted msg (map_user_code n (length (ps @ [phys])) s2)" "length (free_list s2) < 4 * n"
      then show ?thesis using st3(2) unfolding run' by (intro disjI2 conjI) simp_all
    qed
  qed
qed

section \<open>The copy\<close>

text \<open>The byte that the kernel reads at a virtual address.\<close>

definition vread :: "'z machine_scheme \<Rightarrow> u64 \<Rightarrow> u8 option" where
  "vread s a = map_option (phys_mem s) (translate (phys_mem s) (entry_to_phys (cr3_reg s)) a)"

text \<open>The bytes of the program lie in pages of \<open>P\<close>.\<close>

definition source_in :: "u64 \<Rightarrow> u64 set \<Rightarrow> u64 \<Rightarrow> u64 \<Rightarrow> memory \<Rightarrow> bool" where
  "source_in A P data sz m \<longleftrightarrow>
     (\<forall>k<unat sz. \<exists>u\<in>P. \<exists>n<4096. translate m A (data + of_nat k) = Some (u + of_nat n))"

text \<open>The state after the first \<open>k\<close> bytes.\<close>

definition copied :: "u64 \<Rightarrow> u64 set \<Rightarrow> u64 list \<Rightarrow> u64 \<Rightarrow> 'z pmm_state_scheme \<Rightarrow> nat \<Rightarrow> memory \<Rightarrow> bool" where
  "copied A P ps data s k m \<longleftrightarrow> spaces_inv {A} (P \<union> set ps) (s\<lparr>phys_mem := m\<rparr>) \<and> same_walks A (phys_mem s) m
     \<and> (\<forall>u\<in>P. same_bytes u (phys_mem s) m)
     \<and> (\<forall>l<k. Some (m (ps ! (l div 4096) + of_nat (l mod 4096))) = vread s (data + of_nat l))"

lemma copied_step:
  fixes s :: "'z vmm_state_scheme"
  assumes M: "code_mapped A P s0 ps s" and root: "entry_to_phys (cr3_reg s) = A"
    and src: "source_in A P data sz (phys_mem s)" and i: "i < length ps" "length ps \<le> max_code_pages" "j < 4096"
    and C: "copied A P ps data s (i * 4096 + j) m" and k: "i * 4096 + j < unat sz"
  shows "\<exists>m'. copy_byte (user_code_virt + of_nat (i * 0x1000) + of_nat j) (data + of_nat (i * 0x1000) + of_nat j) (s\<lparr>phys_mem := m\<rparr>)
      = Some (s\<lparr>phys_mem := m'\<rparr>) \<and> copied A P ps data s (i * 4096 + j + 1) m'"
proof -
  let ?k = "i * 4096 + j" and ?q = "ps ! i"
  note D = code_mappedD[OF M]
  have C': "spaces_inv {A} (P \<union> set ps) (s\<lparr>phys_mem := m\<rparr>)" "same_walks A (phys_mem s) m" "\<forall>u\<in>P. same_bytes u (phys_mem s) m"
    "\<forall>l<?k. Some (m (ps ! (l div 4096) + of_nat (l mod 4096))) = vread s (data + of_nat l)"
    using C by (simp_all add: copied_def)
  note W = same_walksD(3)[OF C'(2)]
  have ii: "i < max_code_pages" using i by simp
  have dst: "user_code_virt + of_nat (i * 0x1000) + of_nat j = code_page i + of_nat j" by (simp add: code_page_def)
  have "translate (phys_mem s) A (code_page i + of_nat j) = Some (?q + of_nat j)"
    using D(5)[OF i(1) page_offset(1)[OF code_page_facts(1)[OF ii] i(3)]] page_offset(2)[OF code_page_facts(1)[OF ii] i(3)] by simp
  then have t1: "translate m A (code_page i + of_nat j) = Some (?q + of_nat j)" by (simp add: W)
  obtain u n where u: "u \<in> P" "n < 4096" "translate (phys_mem s) A (data + of_nat ?k) = Some (u + of_nat n)"
    using src k unfolding source_in_def by blast
  have sk: "data + of_nat (i * 0x1000) + of_nat j = data + of_nat ?k" by simp
  have t2: "translate m A (data + of_nat ?k) = Some (u + of_nat n)" using u(3) by (simp only: W)
  let ?m = "m(?q + of_nat j := m (u + of_nat n))"
  have "copy_byte (user_code_virt + of_nat (i * 0x1000) + of_nat j) (data + of_nat (i * 0x1000) + of_nat j) (s\<lparr>phys_mem := m\<rparr>)
      = Some (s\<lparr>phys_mem := ?m\<rparr>)"
    unfolding dst sk using t1 t2 root by (simp add: copy_byte_def Let_def)
  moreover have "copied A P ps data s (?k + 1) ?m"
    unfolding copied_def
  proof (intro conjI)
    have q: "?q \<in> P \<union> set ps" using i(1) by simp
    note al = frame_okD(1)[OF spaces_invD(4)[OF C'(1)]]
    note st = spaces_store[OF C'(1) q i(3), of "m (u + of_nat n)"]
    show "spaces_inv {A} (P \<union> set ps) (s\<lparr>phys_mem := ?m\<rparr>)" using st(1) by simp
    show "same_walks A (phys_mem s) ?m" using st(2) C'(2) by (simp add: same_walks_def)
    have keep: "?m (x + of_nat y) = m (x + of_nat y)" if "x \<in> P \<union> set ps" "y < 4096" "\<not> (x = ?q \<and> y = j)" for x y
      using page_byte_eq[OF al[OF that(1)] al[OF q] that(2) i(3)] that(3) by auto
    have "?q \<notin> P" using D(4) i(1) by (meson disjoint_iff nth_mem)
    then show "\<forall>u\<in>P. same_bytes u (phys_mem s) ?m" using keep C'(3) unfolding same_bytes_def by (metis UnI1)
    show "\<forall>l<?k + 1. Some (?m (ps ! (l div 4096) + of_nat (l mod 4096))) = vread s (data + of_nat l)"
    proof (intro allI impI)
      fix l assume l: "l < ?k + 1"
      show "Some (?m (ps ! (l div 4096) + of_nat (l mod 4096))) = vread s (data + of_nat l)"
      proof (cases "l = ?k")
        case True
        have "m (u + of_nat n) = phys_mem s (u + of_nat n)" using C'(3) u(1,2) by (auto simp: same_bytes_def)
        with True i(3) u(3) root show ?thesis by (simp only: vread_def) simp
      next
        case False
        have "l < (i + 1) * 4096" using l i(3) by simp
        then have "l div 4096 < i + 1" by (simp only: div_less_iff_less_mult)
        then have ld: "l div 4096 < length ps" using i(1) by simp
        have "\<not> (ps ! (l div 4096) = ?q \<and> l mod 4096 = j)"
        proof
          assume a: "ps ! (l div 4096) = ?q \<and> l mod 4096 = j"
          then have "l div 4096 = i" using nth_eq_iff_index_eq[OF D(3) ld i(1)] by blast
          with a False show False by (metis div_mult_mod_eq)
        qed
        then have "?m (ps ! (l div 4096) + of_nat (l mod 4096)) = m (ps ! (l div 4096) + of_nat (l mod 4096))"
          using ld by (intro keep) auto
        then show ?thesis using C'(4) l False by simp
      qed
    qed
  qed
  ultimately show ?thesis by blast
qed

lemma copy_page_ok:
  fixes s :: "'z vmm_state_scheme"
  assumes M: "code_mapped A P s0 ps s" "entry_to_phys (cr3_reg s) = A" "source_in A P data sz (phys_mem s)"
      "i < length ps" "length ps \<le> max_code_pages"
    and C: "copied A P ps data s (min (i * 4096 + j) (unat sz)) m" and j: "j + n \<le> 4096"
  shows "\<exists>m'. copy_page n data sz i j (s\<lparr>phys_mem := m\<rparr>) = Some (Inr (), s\<lparr>phys_mem := m'\<rparr>) \<and>
    copied A P ps data s (min (i * 4096 + j + n) (unat sz)) m'"
  using C j
proof (induction n arbitrary: j m)
  case 0
  then show ?case by auto
next
  case (Suc n)
  show ?case
  proof (cases "i * 4096 + j < unat sz")
    case True
    with Suc.prems(1) have C: "copied A P ps data s (i * 4096 + j) m" by (simp add: min_absorb1)
    have "j < 4096" using Suc.prems(2) by simp
    from copied_step[OF M this C True] obtain m1 where
      m1: "copy_byte (user_code_virt + of_nat (i * 0x1000) + of_nat j) (data + of_nat (i * 0x1000) + of_nat j) (s\<lparr>phys_mem := m\<rparr>) = Some (s\<lparr>phys_mem := m1\<rparr>)"
      "copied A P ps data s (i * 4096 + j + 1) m1" by blast
    have "copied A P ps data s (min (i * 4096 + (j + 1)) (unat sz)) m1" using m1(2) True by (simp add: min_absorb1)
    from Suc.IH[OF this] Suc.prems(2) obtain m' where
      "copy_page n data sz i (j + 1) (s\<lparr>phys_mem := m1\<rparr>) = Some (Inr (), s\<lparr>phys_mem := m'\<rparr>)"
      "copied A P ps data s (min (i * 4096 + (j + 1) + n) (unat sz)) m'" by auto
    with m1(1) True show ?thesis by (auto simp del: of_nat_mult)
  next
    case False
    then have "min (i * 4096 + j) (unat sz) = unat sz" "min (i * 4096 + j + Suc n) (unat sz) = unat sz" by simp_all
    with False Suc.prems(1) show ?thesis by (intro exI[of _ m]) simp
  qed
qed

lemma copy_user_code_ok:
  fixes s :: "'z vmm_state_scheme"
  assumes M: "code_mapped A P s0 ps s" "entry_to_phys (cr3_reg s) = A" "source_in A P data sz (phys_mem s)"
    and len: "length ps \<le> max_code_pages" "i + n \<le> length ps"
    and C: "copied A P ps data s (min (i * 4096) (unat sz)) m"
  shows "\<exists>m'. copy_user_code n data sz i (s\<lparr>phys_mem := m\<rparr>) = Some (Inr (), s\<lparr>phys_mem := m'\<rparr>) \<and>
    copied A P ps data s (min ((i + n) * 4096) (unat sz)) m'"
  using C len(2)
proof (induction n arbitrary: i m)
  case 0
  then show ?case by (auto simp: run_return_def)
next
  case (Suc n)
  have i: "i < length ps" using Suc.prems(2) by simp
  obtain m1 where m1: "copy_page 0x1000 data sz i 0 (s\<lparr>phys_mem := m\<rparr>) = Some (Inr (), s\<lparr>phys_mem := m1\<rparr>)"
      "copied A P ps data s (min (i * 4096 + 0 + 0x1000) (unat sz)) m1"
    using copy_page_ok[OF M i len(1), of 0 m "0x1000"] Suc.prems(1) by auto
  have "copied A P ps data s (min ((i + 1) * 4096) (unat sz)) m1" using m1(2) by (simp add: add.commute)
  from Suc.IH[OF this] Suc.prems(2) obtain m' where
    "copy_user_code n data sz (i + 1) (s\<lparr>phys_mem := m1\<rparr>) = Some (Inr (), s\<lparr>phys_mem := m'\<rparr>)"
    "copied A P ps data s (min ((i + 1 + n) * 4096) (unat sz)) m'" by auto
  with m1(1) show ?case by (auto simp: run_then_def)
qed

section \<open>Loading as a whole\<close>

lemma pages_needed_unat:
  assumes "unat sz \<le> 0x40000000"
  shows "unat (pages_needed sz) = (unat sz + 0xFFF) div 0x1000" "unat (pages_needed sz) \<le> max_code_pages"
    "unat sz \<le> unat (pages_needed sz) * 4096"
proof -
  have "unat (sz + 0xFFF) = unat sz + 0xFFF" by (subst unat_add64) (use assms in simp_all)
  then show *: "unat (pages_needed sz) = (unat sz + 0xFFF) div 0x1000" by (simp add: pages_needed_def unat_div)
  show "unat (pages_needed sz) \<le> max_code_pages" unfolding * using assms by (simp add: div_le_mono[of _ "0x40000FFF", THEN order_trans])
  show "unat sz \<le> unat (pages_needed sz) * 4096"
    unfolding * using dividend_less_div_times[of "0x1000" "unat sz + 0xFFF"] by simp
qed

text \<open>What is in place when the program is loaded: the kernel runs on the address space with root \<open>A\<close>.\<close>

definition load_ready :: "u64 \<Rightarrow> u64 set \<Rightarrow> init_source \<Rightarrow> 'z vmm_state_scheme \<Rightarrow> bool" where
  "load_ready A P src s \<longleftrightarrow> spaces_inv {A} P s \<and> as_pml4 KernelAS s = phys_to_virt (hhdm_offset s) A
     \<and> entry_to_phys (cr3_reg s) = A \<and> unat (init_size src) \<le> 0x40000000
     \<and> source_in A P (init_data src) (init_size src) (phys_mem s)
     \<and> (\<forall>i<unat (pages_needed (init_size src)). no_large_page (phys_mem s) A (code_page i) \<and>
          (\<forall>k<unat (init_size src). \<not> same_page 12 (code_page i) (init_data src + of_nat k)))
     \<and> (\<forall>b. disk_page src = Some b \<longrightarrow> b \<in> P \<and> page_ok b \<and> length (free_list s) < unat MAX_PAGES)"

lemma code_address:
  assumes "k < n * 4096" "n \<le> max_code_pages"
  shows "user_code_virt + of_nat k = code_page (k div 4096) + of_nat (k mod 4096)" "k div 4096 < n"
    "same_page 12 (code_page (k div 4096)) (user_code_virt + of_nat k)"
    "take_bit 12 (user_code_virt + of_nat k) = of_nat (k mod 4096)"
proof -
  show kn: "k div 4096 < n" using assms(1) by (simp add: div_less_iff_less_mult)
  have "(of_nat k :: u64) = of_nat (k div 4096) * 0x1000 + of_nat (k mod 4096)"
    by (metis div_mult_mod_eq of_nat_add of_nat_mult of_nat_numeral)
  then show e: "user_code_virt + of_nat k = code_page (k div 4096) + of_nat (k mod 4096)"
    by (simp add: code_page_def add.assoc)
  have "k div 4096 < max_code_pages" using kn assms(2) by simp
  note al = code_page_facts(1)[OF this]
  show "same_page 12 (code_page (k div 4096)) (user_code_virt + of_nat k)"
    "take_bit 12 (user_code_virt + of_nat k) = of_nat (k mod 4096)"
    unfolding e by (rule page_offset[OF al]; simp)+
qed

text \<open>Printing and other changes outside memory and allocator.\<close>

lemma spaces_inv_quiet:
  assumes "spaces_inv R P s" "phys_mem s' = phys_mem s" "free_list s' = free_list s" "hhdm_offset s' = hhdm_offset s"
    "page_stack_top s' = page_stack_top s" "free_pages s' = free_pages s"
  shows "spaces_inv R P s'"
  using assms(1) unfolding spaces_inv_def vm_inv_def pmm_inv_def assms(2-6) .

text \<open>The program is in place in the memory \<open>m\<close>: bytes as the kernel read them before, for user mode.\<close>

definition code_loaded :: "u64 \<Rightarrow> init_source \<Rightarrow> 'y machine_scheme \<Rightarrow> 'z machine_scheme \<Rightarrow> bool" where
  "code_loaded A src s s' \<longleftrightarrow> (\<forall>k<unat (init_size src).
     vread s' (user_code_virt + of_nat k) = vread s (init_data src + of_nat k) \<and>
     vread s' (user_code_virt + of_nat k) \<noteq> None \<and> user_access (phys_mem s') A (user_code_virt + of_nat k))"

lemma vread_root: "entry_to_phys (cr3_reg s) = A \<Longrightarrow> vread s a = map_option (phys_mem s) (translate (phys_mem s) A a)"
  by (simp add: vread_def)

lemma mapped_copied_loaded:
  fixes s s' :: "'z vmm_state_scheme"
  assumes M: "code_mapped A P s ps s1" and C: "copied A P ps (init_data src) s1 (unat (init_size src)) m"
    and root: "entry_to_phys (cr3_reg s) = A" "entry_to_phys (cr3_reg s') = A" and m: "phys_mem s' = m"
    and len: "unat (init_size src) \<le> length ps * 4096" "length ps \<le> max_code_pages"
    and src: "source_in A P (init_data src) (init_size src) (phys_mem s)"
    and apart: "\<And>i k. i < length ps \<Longrightarrow> k < unat (init_size src) \<Longrightarrow> \<not> same_page 12 (code_page i) (init_data src + of_nat k)"
  shows "code_loaded A src s s'" "source_in A (set ps) user_code_virt (init_size src) m"
proof -
  have "vread s' (user_code_virt + of_nat k) = vread s (init_data src + of_nat k) \<and>
     vread s' (user_code_virt + of_nat k) \<noteq> None \<and> user_access (phys_mem s') A (user_code_virt + of_nat k) \<and>
     (\<exists>u\<in>set ps. \<exists>n<4096. translate m A (user_code_virt + of_nat k) = Some (u + of_nat n))" if k: "k < unat (init_size src)" for k
  proof -
    note D = code_mappedD[OF M]
    have kl: "k < length ps * 4096" using k len(1) by simp
    note ca = code_address[OF kl len(2)]
    have W: "translate m A w = translate (phys_mem s1) A w" "user_access m A w = user_access (phys_mem s1) A w" for w
      using same_walksD(3,4)[of A "phys_mem s1" m] C by (simp_all add: copied_def)
    have t: "translate m A (user_code_virt + of_nat k) = Some (ps ! (k div 4096) + of_nat (k mod 4096))"
      using D(5)[OF ca(2,3)] ca(4) by (simp add: W)
    have root1: "entry_to_phys (cr3_reg s1) = A" using mem_only_fields(2)[OF D(2)] root(1) by simp
    obtain u n where u: "u \<in> P" "n < 4096" "translate (phys_mem s) A (init_data src + of_nat k) = Some (u + of_nat n)"
      using src k unfolding source_in_def by blast
    have "page_leaf (phys_mem s1) A (init_data src + of_nat k) = page_leaf (phys_mem s) A (init_data src + of_nat k)"
      using apart[OF _ k] by (intro D(7)) blast
    then have "translate (phys_mem s1) A (init_data src + of_nat k) = Some (u + of_nat n)" using u(3) by (simp add: translate_leaf)
    moreover have "phys_mem s1 (u + of_nat n) = phys_mem s (u + of_nat n)" using D(8)[OF u(1)] u(2) by (simp add: same_bytes_def)
    ultimately have "vread s1 (init_data src + of_nat k) = vread s (init_data src + of_nat k)"
      using u(3) by (simp add: vread_root[OF root1] vread_root[OF root(1)])
    moreover have "vread s' (user_code_virt + of_nat k) = vread s1 (init_data src + of_nat k)"
      using C k t by (simp add: copied_def vread_root[OF root(2)] m)
    moreover have "vread s' (user_code_virt + of_nat k) \<noteq> None" using t by (simp add: vread_root[OF root(2)] m)
    moreover have "\<exists>u\<in>set ps. \<exists>n<4096. translate m A (user_code_virt + of_nat k) = Some (u + of_nat n)"
      using t ca(2) by (intro bexI[of _ "ps ! (k div 4096)"] exI[of _ "k mod 4096"]) simp_all
    ultimately show ?thesis using D(6)[OF ca(2,3)] by (simp add: m W)
  qed
  then show "code_loaded A src s s'" "source_in A (set ps) user_code_virt (init_size src) m"
    unfolding code_loaded_def source_in_def by blast+
qed

lemma load_readyD:
  assumes "load_ready A P src s"
  shows "spaces_inv {A} P s" "as_pml4 KernelAS s = phys_to_virt (hhdm_offset s) A" "entry_to_phys (cr3_reg s) = A"
    "unat (init_size src) \<le> 0x40000000" "source_in A P (init_data src) (init_size src) (phys_mem s)"
    "i < unat (pages_needed (init_size src)) \<Longrightarrow> no_large_page (phys_mem s) A (code_page i)"
    "i < unat (pages_needed (init_size src)) \<Longrightarrow> k < unat (init_size src) \<Longrightarrow>
       \<not> same_page 12 (code_page i) (init_data src + of_nat k)"
    "disk_page src = Some b \<Longrightarrow> b \<in> P \<and> page_ok b \<and> length (free_list s) < unat MAX_PAGES"
  using assms by (simp_all add: load_ready_def)

lemma load_ready_console: "load_ready A P src (s\<lparr>console := c\<rparr>) = load_ready A P src s"
proof -
  have "spaces_inv {A} P (s\<lparr>console := c\<rparr>) = spaces_inv {A} P s"
    by (rule iffI; erule spaces_inv_quiet) (simp_all add: free_list_def)
  then show ?thesis by (simp add: load_ready_def as_pml4_def free_list_def)
qed

lemma free_list_shrinks: "set (free_list s') \<subseteq> set (free_list s) \<Longrightarrow> pmm_inv s' \<Longrightarrow> length (free_list s') \<le> length (free_list s)"
  by (metis List.finite_set card_length card_mono distinct_card le_trans pmm_inv_def)

lemma code_mapped_source:
  assumes M: "code_mapped A P s0 ps s" and src: "source_in A P data sz (phys_mem s0)"
    and apart: "\<And>i k. i < length ps \<Longrightarrow> k < unat sz \<Longrightarrow> \<not> same_page 12 (code_page i) (data + of_nat k)"
  shows "source_in A P data sz (phys_mem s)"
  unfolding source_in_def
proof (intro allI impI)
  fix k assume k: "k < unat sz"
  have "page_leaf (phys_mem s) A (data + of_nat k) = page_leaf (phys_mem s0) A (data + of_nat k)"
    using apart[OF _ k] by (intro code_mappedD(7)[OF M]) blast
  with src k show "\<exists>u\<in>P. \<exists>n<4096. translate (phys_mem s) A (data + of_nat k) = Some (u + of_nat n)"
    unfolding source_in_def translate_leaf by simp
qed

text \<open>The state after both loops, with the pages \<open>ps\<close> taken for the program.\<close>

definition loaded_state :: "u64 \<Rightarrow> u64 set \<Rightarrow> init_source \<Rightarrow> u64 list \<Rightarrow> 'z vmm_state_scheme \<Rightarrow> 'z vmm_state_scheme \<Rightarrow> bool" where
  "loaded_state A P src ps s s' \<longleftrightarrow> mem_only s s' \<and> spaces_inv {A} (P \<union> set ps) s' \<and> set ps \<inter> P = {} \<and> code_loaded A src s s' \<and>
    source_in A (set ps) user_code_virt (init_size src) (phys_mem s') \<and>
    length (free_list s) \<le> length (free_list s') + 4 * unat (pages_needed (init_size src)) \<and>
    length (free_list s') \<le> length (free_list s) \<and>
    (\<forall>w. (\<forall>i<unat (pages_needed (init_size src)). \<not> same_page 12 (code_page i) w) \<longrightarrow>
      page_leaf (phys_mem s') A w = page_leaf (phys_mem s) A w)"

lemma loaded_stateD:
  assumes "loaded_state A P src ps s s'"
  shows "mem_only s s'" "spaces_inv {A} (P \<union> set ps) s'" "set ps \<inter> P = {}" "code_loaded A src s s'"
    "source_in A (set ps) user_code_virt (init_size src) (phys_mem s')"
    "length (free_list s) \<le> length (free_list s') + 4 * unat (pages_needed (init_size src))" "length (free_list s') \<le> length (free_list s)"
    "\<forall>i<unat (pages_needed (init_size src)). \<not> same_page 12 (code_page i) w \<Longrightarrow> page_leaf (phys_mem s') A w = page_leaf (phys_mem s) A w"
  using assms unfolding loaded_state_def by blast+

lemma copy_after_map:
  fixes s :: "'z vmm_state_scheme"
  assumes R: "load_ready A P src s" and m: "length ps = unat (pages_needed (init_size src))" "code_mapped A P s ps s1"
      "length (free_list s) \<le> length (free_list s1) + 4 * unat (pages_needed (init_size src))"
  shows "\<exists>s'. copy_user_code (unat (pages_needed (init_size src))) (init_data src) (init_size src) 0 s1 = Some (Inr (), s') \<and>
    loaded_state A P src ps s s'"
proof -
  let ?n = "unat (pages_needed (init_size src))"
  note D = load_readyD[OF R] and N = pages_needed_unat[OF load_readyD(4)[OF R]] and M = code_mappedD[OF m(2)]
  have root1: "entry_to_phys (cr3_reg s1) = A" using mem_only_fields(2)[OF M(2)] D(3) by simp
  have apart: "\<not> same_page 12 (code_page i) (init_data src + of_nat k)" if "i < length ps" "k < unat (init_size src)" for i k
    using D(7) that m(1) by simp
  note src1 = code_mapped_source[OF m(2) D(5) apart]
  have C0: "copied A P ps (init_data src) s1 (min (0 * 4096) (unat (init_size src))) (phys_mem s1)"
    using M(1) by (simp add: copied_def same_walks_def same_bytes_def)
  have len: "length ps \<le> max_code_pages" "0 + ?n \<le> length ps" using m(1) N(2) by simp_all
  have "min ((0 + ?n) * 4096) (unat (init_size src)) = unat (init_size src)" using N(3) by simp
  with copy_user_code_ok[OF m(2) root1 src1 len C0]
  obtain m' where c: "copy_user_code ?n (init_data src) (init_size src) 0 s1 = Some (Inr (), s1\<lparr>phys_mem := m'\<rparr>)"
      "copied A P ps (init_data src) s1 (unat (init_size src)) m'" by auto
  let ?s = "s1\<lparr>phys_mem := m'\<rparr>"
  have f: "entry_to_phys (cr3_reg ?s) = A" "phys_mem ?s = m'" "unat (init_size src) \<le> length ps * 4096"
    using root1 N(3) m(1) by simp_all
  note L = mapped_copied_loaded[OF m(2) c(2) D(3) f len(1) D(5) apart]
  have "mem_only s ?s" using M(2) by simp
  moreover have "free_list ?s = free_list s1" by (simp add: free_list_def)
  moreover have "length (free_list s1) \<le> length (free_list s)"
    by (rule free_list_shrinks[OF M(9) vm_invD(1)[OF spaces_invD(1)[OF M(1)]]]) simp
  moreover have "spaces_inv {A} (P \<union> set ps) ?s" using c(2) unfolding copied_def by blast
  moreover have "page_leaf (phys_mem ?s) A w = page_leaf (phys_mem s) A w" if "\<forall>i<?n. \<not> same_page 12 (code_page i) w" for w
    using M(7)[of w] that m(1) same_walksD(2)[of A "phys_mem s1" m' w] c(2) by (simp add: copied_def)
  ultimately have "loaded_state A P src ps s ?s" unfolding loaded_state_def using m(3) M(4) L f(2) by simp
  with c(1) show ?thesis by blast
qed

text \<open>Both loops, one after the other: the whole program is in place, or the machine has halted for want of memory.\<close>

abbreviation map_and_copy :: "init_source \<Rightarrow> 'z vmm_state_scheme \<Rightarrow> ((boot_end + unit) \<times> 'z vmm_state_scheme) option" where
  "map_and_copy src \<equiv> run_then (map_user_code (unat (pages_needed (init_size src))) 0)
     (\<lambda>_. copy_user_code (unat (pages_needed (init_size src))) (init_data src) (init_size src) 0)"

lemma map_and_copy_ok:
  fixes s :: "'z vmm_state_scheme"
  assumes R: "load_ready A P src s"
  obtains (loaded) ps s' where "map_and_copy src s = Some (Inr (), s')" "loaded_state A P src ps s s'"
  | (full) msg where "msg \<in> code_errors" "halted msg (map_and_copy src s)" "length (free_list s) < 4 * unat (pages_needed (init_size src))"
proof -
  let ?n = "unat (pages_needed (init_size src))"
  note D = load_readyD[OF R] and N = pages_needed_unat[OF load_readyD(4)[OF R]]
  have M0: "code_mapped A P s [] s" using D(1) by (simp add: code_mapped_def same_bytes_def)
  have small: "\<forall>i<length [] + ?n. no_large_page (phys_mem s) A (code_page i)" using D(6) by simp
  have n0: "length [] + ?n \<le> max_code_pages" using N(2) by simp
  from map_user_code_ok[OF M0 D(2) n0 small, unfolded list.size append_Nil]
  consider (all) ps s1 where "map_user_code ?n 0 s = Some (Inr (), s1)" "length ps = ?n" "code_mapped A P s ps s1"
      "length (free_list s) \<le> length (free_list s1) + 4 * ?n"
    | (stop) msg where "msg \<in> code_errors" "halted msg (map_user_code ?n 0 s)" "length (free_list s) < 4 * ?n" by blast
  then show thesis
  proof cases
    case all
    from copy_after_map[OF R all(2-4)] all(1) show ?thesis by (auto simp: run_then_def intro: loaded)
  next
    case stop
    then show ?thesis by (intro full) (auto simp: halted_def run_then_def)
  qed
qed

end
