(* ===== verification/Kernel_Boot.thy ===== *)
theory Kernel_Boot
  imports Kernel_Load
begin

text \<open>
  The way from the loaded kernel to user mode: \<open>load_user_code\<close> as a whole, the user stack,
  and the hand-over to the scheduler, which ends in the trampoline of the init thread.
\<close>

unbundle bit_operations_syntax

section \<open>Loading the program\<close>

text \<open>The disk page is given back; the pages of the program stay.\<close>

definition after_disk :: "init_source \<Rightarrow> u64 set \<Rightarrow> u64 set" where
  "after_disk src P = (case disk_page src of None \<Rightarrow> P | Some b \<Rightarrow> P - {b})"

lemma vread_cong: "phys_mem s' = phys_mem s \<Longrightarrow> cr3_reg s' = cr3_reg s \<Longrightarrow> vread s' = vread s"
  by (rule ext) (simp add: vread_def)

lemma code_loaded_cong:
  assumes "vread t = vread s" "vread t' = vread s'" "phys_mem t' = phys_mem s'"
  shows "code_loaded A src t t' = code_loaded A src s s'"
  unfolding code_loaded_def assms ..

lemma release_disk_page:
  fixes s :: "'z vmm_state_scheme"
  assumes "spaces_inv {A} (P \<union> Q) s" "Q \<inter> P = {}"
    and b: "\<And>b. disk_page src = Some b \<Longrightarrow> b \<in> P \<and> page_ok b \<and> length (free_list s) < unat MAX_PAGES"
    and t: "t = (case disk_page src of None \<Rightarrow> s | Some b \<Rightarrow> pmm_free_page b s)"
  shows "spaces_inv {A} (after_disk src P \<union> Q) t" "phys_mem t = phys_mem s" "mem_only s t"
    "length (free_list s) \<le> length (free_list t)"
proof -
  have "spaces_inv {A} (after_disk src P \<union> Q) t \<and> phys_mem t = phys_mem s \<and> mem_only s t \<and> length (free_list s) \<le> length (free_list t)"
  proof (cases "disk_page src")
    case None
    then show ?thesis using assms(1) t by (simp add: after_disk_def)
  next
    case (Some d)
    note f = spaces_free[OF assms(1), of d] and bd = b[OF Some]
    have "P \<union> Q - {d} = P - {d} \<union> Q" using assms(2) bd by blast
    then show ?thesis using f bd Some t by (simp add: after_disk_def)
  qed
  then show "spaces_inv {A} (after_disk src P \<union> Q) t" "phys_mem t = phys_mem s" "mem_only s t"
    "length (free_list s) \<le> length (free_list t)" by blast+
qed

lemma run_then_assoc: "run_then f (\<lambda>a. run_then (g a) h) = run_then (run_then f g) h"
  by (rule ext) (simp add: run_then_def split: option.split prod.split sum.split)

lemma run_then_Inr: "f s = Some (Inr a, s') \<Longrightarrow> run_then f g s = g a s'"
  by (simp add: run_then_def)

lemma run_then_halted: "halted msg (f s) \<Longrightarrow> halted msg (run_then f g s)"
  by (auto simp: halted_def run_then_def)

lemma load_user_code_cases:
  fixes s :: "'z vmm_state_scheme"
  assumes R: "load_ready A P src s"
  obtains (loaded) ps s' where "load_user_code src s = Some (Inr (), s')" "mem_only s s'"
    "spaces_inv {A} (after_disk src P \<union> set ps) s'" "set ps \<inter> P = {}" "code_loaded A src s s'"
    "source_in A (set ps) user_code_virt (init_size src) (phys_mem s')"
    "length (free_list s) \<le> length (free_list s') + 4 * unat (pages_needed (init_size src))"
    "\<And>w. \<forall>i<unat (pages_needed (init_size src)). \<not> same_page 12 (code_page i) w \<Longrightarrow>
      page_leaf (phys_mem s') A w = page_leaf (phys_mem s) A w"
  | (full) msg where "msg \<in> code_errors" "halted msg (load_user_code src s)" "length (free_list s) < 4 * unat (pages_needed (init_size src))"
proof -
  let ?n = "unat (pages_needed (init_size src))"
  define s1 where "s1 = serial_print '' pages for user code...\<newline>'' (serial_print_dec (pages_needed (init_size src)) (serial_print ''  Allocating and mapping '' s))"
  have "prints s s1" unfolding s1_def by (simp del: serial_print_def)
  then obtain c where c: "s1 = s\<lparr>console := c\<rparr>" by (auto simp: prints_def)
  have R1: "load_ready A P src s1" using R by (simp add: c load_ready_console)
  have fl: "free_list s1 = free_list s" by (simp add: c free_list_def)
  have run: "load_user_code src s = run_then (map_and_copy src) (\<lambda>_ s2. Some (Inr (),
      serial_print ''\<newline>'' (serial_print_hex user_code_virt (serial_print ''  User code mapped successfully at ''
        (case disk_page src of None \<Rightarrow> s2 | Some b \<Rightarrow> pmm_free_page b s2))))) s1"
    unfolding load_user_code_def Let_def s1_def[symmetric] run_then_assoc ..
  show thesis
  proof (rule map_and_copy_ok[OF R1])
    fix msg assume f: "msg \<in> code_errors" "halted msg (map_and_copy src s1)" "length (free_list s1) < 4 * ?n"
    have "halted msg (load_user_code src s)" unfolding run by (rule run_then_halted[where f = "map_and_copy src", OF f(2)])
    from full[OF f(1) this] f(3) show thesis unfolding fl by blast
  next
    fix ps s2 assume m: "map_and_copy src s1 = Some (Inr (), s2)" "loaded_state A P src ps s1 s2"
    note l = loaded_stateD[OF m(2)]
    define t where "t = (case disk_page src of None \<Rightarrow> s2 | Some b \<Rightarrow> pmm_free_page b s2)"
    have bd: "b \<in> P \<and> page_ok b \<and> length (free_list s2) < unat MAX_PAGES" if "disk_page src = Some b" for b
      using load_readyD(8)[OF R that] l(7) unfolding fl by linarith
    have T: "spaces_inv {A} (after_disk src P \<union> set ps) t" "phys_mem t = phys_mem s2" "mem_only s2 t" "length (free_list s2) \<le> length (free_list t)"
      using release_disk_page[OF l(2,3) bd t_def] by blast+
    define u where "u = serial_print ''\<newline>'' (serial_print_hex user_code_virt (serial_print ''  User code mapped successfully at '' t))"
    have "prints t u" unfolding u_def by (simp del: serial_print_def)
    then obtain d where d: "u = t\<lparr>console := d\<rparr>" unfolding prints_def by blast
    show thesis
    proof (rule loaded)
      show "load_user_code src s = Some (Inr (), u)"
        unfolding run run_then_Inr[where f = "map_and_copy src", OF m(1)] t_def[symmetric] u_def[symmetric] ..
      have "mem_only s s1" by (simp add: c)
      from mem_only_trans[OF this mem_only_trans[OF l(1) T(3)]] show "mem_only s u" unfolding d by simp
      show "spaces_inv {A} (after_disk src P \<union> set ps) u" unfolding d by (rule spaces_inv_quiet[OF T(1)]) (simp_all add: free_list_def)
      show "code_loaded A src s u"
        unfolding d using l(4) code_loaded_cong[OF vread_cong[of s s1] vread_cong[of "t\<lparr>console := d\<rparr>" s2], of A src]
          mem_only_fields(2)[OF T(3)] T(2) by (simp add: c)
      have fu: "free_list u = free_list t" unfolding d by (simp add: free_list_def)
      show "length (free_list s) \<le> length (free_list u) + 4 * ?n" using l(6) T(4) unfolding fl fu by linarith
      show "page_leaf (phys_mem u) A w = page_leaf (phys_mem s) A w" if "\<forall>i<?n. \<not> same_page 12 (code_page i) w" for w
        unfolding d using l(8)[OF that] T(2) by (simp add: c)
    qed (use l(3,5) T(2) in \<open>simp_all add: d\<close>)
  qed
qed

section \<open>The stack\<close>

lemma user_stack_facts:
  "unat user_stack_virt = 0x7FFFFFFFE000" "pml4_index user_stack_virt < 256"
  "i < max_code_pages \<Longrightarrow> \<not> same_page 12 user_stack_virt (code_page i)"
proof -
  show u: "unat user_stack_virt = 0x7FFFFFFFE000" by (simp add: user_stack_virt_def)
  show "pml4_index user_stack_virt < 256" by (rule pml4_index_low) (simp add: u)
  show "\<not> same_page 12 user_stack_virt (code_page i)" if "i < max_code_pages"
    unfolding same_page_unat u code_page_unat[OF that] using that by simp
qed

lemma code_not_stack:
  assumes "k < max_code_pages * 4096"
  shows "\<not> same_page 12 user_stack_virt (user_code_virt + of_nat k)"
  using user_stack_facts(3)[OF code_address(2)[OF assms]] code_address(3)[OF assms] by (simp add: same_page_def)

text \<open>
  Mapping the stack keeps the program where it is. The result of a failed mapping, minus
  one, is printed as an unsigned number.
\<close>

definition stack_errors :: "string set" where
  "stack_errors = {''ERROR: Failed to allocate user stack!\<newline>'', ''ERROR: Failed to map user stack! Error: 18446744073709551615\<newline>''}"

lemma stack_error_text:
  "halted ''ERROR: Failed to map user stack! Error: 18446744073709551615\<newline>''
     (hcf (serial_print ''\<newline>'' (serial_print_dec (word_of_int (- 1)) (serial_print ''ERROR: Failed to map user stack! Error: '' s))))"
proof -
  have d: "n < 10 \<Longrightarrow> dec_string n = [char_of (48 + n)]" "10 \<le> n \<Longrightarrow> dec_string n = dec_string (n div 10) @ [char_of (48 + n mod 10)]" for n
    by (simp_all add: dec_string.simps[of n])
  have "unat (- 1 :: u64) = 18446744073709551615" by (simp add: unsigned_minus_1_eq_mask mask_eq_exp_minus_1)
  then have "dec_string (unat (- 1 :: u64)) = ''18446744073709551615''" by (simp add: d char_of_def bit_0)
  then show ?thesis by (simp add: halted_def hcf_def serial_print_dec_text)
qed

lemma map_user_stack_cases:
  fixes s :: "'z vmm_state_scheme"
  assumes inv: "spaces_inv {A} P s" and as: "as_pml4 KernelAS s = phys_to_virt (hhdm_offset s) A" "entry_to_phys (cr3_reg s) = A"
    and small: "no_large_page (phys_mem s) A user_stack_virt"
  obtains (mapped) q s' where "map_user_stack s = Some (Inr (user_stack_virt + 0x1000), s')" "mem_only s s'"
    "spaces_inv {A} (insert q P) s'" "\<And>w. same_page 12 user_stack_virt w \<Longrightarrow> translate (phys_mem s') A w = Some (q + take_bit 12 w)"
    "\<And>w. same_page 12 user_stack_virt w \<or> user_access (phys_mem s) A w \<Longrightarrow> user_access (phys_mem s') A w"
    "\<And>w. \<not> same_page 12 user_stack_virt w \<Longrightarrow> translate (phys_mem s') A w = translate (phys_mem s) A w"
    "\<And>u. u \<in> P \<Longrightarrow> same_bytes u (phys_mem s) (phys_mem s')"
  | (full) msg where "msg \<in> stack_errors" "halted msg (map_user_stack s)" "length (free_list s) < 4"
proof -
  let ?s0 = "serial_print ''  Allocating user stack...\<newline>'' s"
  have inv0: "spaces_inv {A} P ?s0" by (rule spaces_inv_quiet[OF inv]) (simp_all add: free_list_def)
  have fl0: "free_list ?s0 = free_list s" by (simp add: free_list_def)
  show thesis
  proof (cases "free_list s = []")
    case True
    then have "free_list ?s0 = []" by (simp only: fl0)
    from pmm.alloc_empty[OF vm_invD(1)[OF spaces_invD(1)[OF inv0]] this] obtain s1 where "pmm_alloc_page ?s0 = (0, s1)" by (cases "pmm_alloc_page ?s0") simp
    then have "map_user_stack s = hcf (serial_print ''ERROR: Failed to allocate user stack!\<newline>'' s1)" by (simp add: map_user_stack_def del: serial_print_def)
    with halted_hcf True show thesis by (intro full[of "''ERROR: Failed to allocate user stack!\<newline>''"]) (simp_all add: stack_errors_def del: serial_print_def)
  next
    case False
    then have "free_list ?s0 \<noteq> []" unfolding fl0 .
    then obtain q s1 where a: "pmm_alloc_page ?s0 = (q, s1)" "q \<noteq> 0" "q \<notin> P" "spaces_inv {A} (insert q P) s1"
        "length (free_list s1) = length (free_list ?s0) - 1" "same_walks A (phys_mem ?s0) (phys_mem s1)" "alloc_only ?s0 s1"
        "\<And>u. u \<in> P \<Longrightarrow> same_bytes u (phys_mem ?s0) (phys_mem s1)"
      using spaces_alloc[OF inv0] by metis
    let ?s2 = "serial_print ''\<newline>'' (serial_print_hex user_stack_virt (serial_print ''  Mapping user stack to virtual address: '' s1))"
    have "prints s1 ?s2" by (simp del: serial_print_def)
    then obtain c where c: "?s2 = s1\<lparr>console := c\<rparr>" unfolding prints_def by blast
    have m0: "mem_only s ?s0" by simp
    have m2: "mem_only s ?s2" unfolding c using mem_only_trans[OF m0 alloc_mem_only[OF a(7)]] by simp
    note F = mem_only_fields[OF m2] and W = same_walksD[OF a(6)]
    have inv2: "spaces_inv {A} (insert q P) ?s2" unfolding c by (rule spaces_inv_quiet[OF a(4)]) (simp_all add: free_list_def)
    have mem2: "phys_mem ?s2 = phys_mem s1" unfolding c by simp
    have fl2: "free_list ?s2 = free_list s1" unfolding c by (simp add: free_list_def)
    have small2: "\<forall>es. page_walk (phys_mem ?s2) A user_stack_virt = Some es \<longrightarrow> page_shift es \<le> 12"
      unfolding mem2 W(1) using small unfolding no_large_page_walk by simp
    have fr: "frame_ok (hhdm_offset ?s2) q" using spaces_invD(4)[OF inv2] by simp
    have as2: "as_pml4 KernelAS ?s2 = phys_to_virt (hhdm_offset ?s2) A" using as(1) F by simp
    have vm2: "vm_inv ?s2 A" using spaces_invD(1)[OF inv2] by simp
    obtain x s3 where r: "vmm_map_page KernelAS user_stack_virt q user_flags ?s2 = (x, s3)" by force
    have run: "map_user_stack s = (if x \<noteq> 0 then hcf (serial_print ''\<newline>'' (serial_print_dec (word_of_int x)
        (serial_print ''ERROR: Failed to map user stack! Error: '' s3)))
      else Some (Inr (user_stack_virt + 0x1000), serial_print ''  User stack mapped successfully\<newline>'' s3))"
      unfolding map_user_stack_def Let_def a(1) vmm_get_kernel_address_space_def using a(2) r by (simp del: serial_print_def)
    show thesis
    proof (cases "x = 0")
      case False
      have x: "x = - 1 \<and> length (free_list ?s2) < 3" by (rule map_user_run[OF vm2 as2 small2 r]) (use False in blast)+
      then have "length (free_list s1) < 3" "x = - 1" by (simp_all only: fl2)
      have "halted ''ERROR: Failed to map user stack! Error: 18446744073709551615\<newline>'' (map_user_stack s)"
        using run stack_error_text[of s3] \<open>x = - 1\<close> by (simp del: serial_print_def)
      moreover have "length (free_list s) < 4" using \<open>length (free_list s1) < 3\<close> a(5) unfolding fl0 by linarith
      ultimately show thesis by (intro full) (simp_all add: stack_errors_def)
    next
      case True
      note N = spaces_map[OF inv2 as2 user_stack_facts(2) small2 fr r[unfolded True]]
      let ?s = "serial_print ''  User stack mapped successfully\<newline>'' s3"
      have "map_user_stack s = Some (Inr (user_stack_virt + 0x1000), ?s)" unfolding run using True by simp
      moreover have "mem_only s ?s" using mem_only_trans[OF m2 map_mem_only[OF r]] by simp
      moreover have "spaces_inv {A} (insert q P) ?s" by (rule spaces_inv_quiet[OF N(1)]) (simp_all add: free_list_def)
      moreover have "same_bytes u (phys_mem s) (phys_mem ?s)" if "u \<in> P" for u
        using same_bytes_trans[of u "phys_mem s" "phys_mem s1" "phys_mem s3"] N(2) a(8)[OF that] that mem2 by simp
      ultimately show thesis
        using N(4,5) W(3,4) mem2 by (intro mapped[of ?s q]) auto
    qed
  qed
qed

section \<open>Into user mode\<close>

lemma sched_inv_frame:
  assumes "sched_inv img s" "threads s' = threads s" "thread_count s' = thread_count s" "thread_list s' = thread_list s"
    "current s' = current s"
  shows "sched_inv img s'"
  using assms thread_inv_frame[OF sched_invD(1)[OF assms(1)] assms(2-5)] by (simp add: sched_inv_def)

lemma mem_only_threads:
  fixes s s' :: "'z thread_state_scheme"
  assumes "mem_only s s'"
  shows "thread_count s' = thread_count s" "cpu s' = cpu s" "sched_inv img s \<Longrightarrow> sched_inv img s'"
proof -
  show "thread_count s' = thread_count s" "cpu s' = cpu s" using assms by (auto simp: mem_only_def)
  show "sched_inv img s'" if "sched_inv img s"
    by (rule sched_inv_frame[OF that]) (use assms in \<open>auto simp: mem_only_def\<close>)
qed

text \<open>The fields of the machine and of the memory managers, which threads do not touch.\<close>

definition same_machine :: "'z thread_state_scheme \<Rightarrow> 'z thread_state_scheme \<Rightarrow> bool" where
  "same_machine s s' \<longleftrightarrow> phys_mem s' = phys_mem s \<and> cr3_reg s' = cr3_reg s"

lemma create_same_machine:
  assumes "thread_inv s" "thread_count s < MAX_THREADS" "thread_create_user img entry ustack s = Some s'"
  shows "same_machine s s'" "cpu s' = cpu s"
  using assms(3) unfolding thread_create_user_eq[OF assms(1,2)] by (auto simp: same_machine_def spawn_def)

lemma scheduler_same_machine:
  "scheduler_start ra s = Some (c, s') \<Longrightarrow> same_machine s s' \<and> thread_count s' = thread_count s"
  by (auto simp: scheduler_start_def same_machine_def context_switch_eq(2)[OF refl] gdt_set_kernel_stack_def Let_def
      split: option.splits if_splits)

text \<open>The first user thread.\<close>

lemma create_first:
  fixes s :: "'z thread_state_scheme"
  assumes inv: "sched_inv img s" "thread_count s = 0" and img: "stacks_placed img"
  obtains s' where "thread_create_user img entry ustack s = Some s'" "sched_inv img s'" "thread_count s' = 1"
    "runnable (threads s') 0" "is_user_mode (threads s' ! 0)"
    "saved_frame s' 0 = (usermode_trampoline img, initial_regs (top16 img 0) entry ustack)" "same_machine s s'" "cpu s' = cpu s"
proof -
  have n: "thread_count s < MAX_THREADS" by (simp add: inv(2) MAX_THREADS_def)
  let ?f = "(usermode_trampoline img, initial_regs (top16 img 0) entry ustack)"
  let ?t = "user_thread img 0 ustack (threads s ! 0)" and ?ss = "(the_tss s)\<lparr>rsp0 := top16 img 0\<rparr>"
  have create: "thread_create_user img entry ustack s = Some (spawn ?f ?t ?ss s)"
    using thread_create_user_eq[OF sched_invD(1)[OF inv(1)] n] by (simp add: inv(2))
  have sp: "sched_inv img (spawn ?f ?t ?ss s)" "thread_count (spawn ?f ?t ?ss s) = 1"
      "same_thread (threads (spawn ?f ?t ?ss s) ! 0) ?t" "saved_frame (spawn ?f ?t ?ss s) 0 = ?f"
    using spawn_initial[OF inv(1) img n, of ?t "usermode_trampoline img" entry ustack ?ss] by (simp_all add: inv(2) created_threads)
  have "runnable (threads (spawn ?f ?t ?ss s)) 0" "is_user_mode (threads (spawn ?f ?t ?ss s) ! 0)"
    using sp(3) by (simp_all add: runnable_def same_thread_def created_threads)
  with create sp(1,2,4) create_same_machine[OF sched_invD(1)[OF inv(1)] n create] show thesis by (intro that)
qed

lemma start_init_ok:
  fixes s :: "'z thread_state_scheme"
  assumes inv: "sched_inv img s" "thread_count s = 0" and img: "stacks_placed img" "off_stacks img (c_rsp (cpu s))"
  obtains s' where "start_init img ra ustack s = Some (Inl (Entered (usermode_trampoline img)), s')" "same_machine s s'"
    "cpu s' = initial_regs (top16 img 0) user_code_virt ustack" "current s' = Some 0" "sched_inv img s'"
    "rsp0 (the_tss s') = stack_top img 0" "thread_count s' = 1"
proof -
  define s3 where "s3 = serial_print ''\<newline>'' (serial_print_hex ustack (serial_print ''  Stack top: '' (serial_print ''\<newline>''
    (serial_print_hex user_code_virt (serial_print ''  Entry point: '' (serial_print ''Creating userspace thread...\<newline>'' s))))))"
  have "prints s s3" unfolding s3_def by (simp del: serial_print_def)
  then obtain c where c: "s3 = s\<lparr>console := c\<rparr>" by (auto simp: prints_def)
  have i3: "sched_inv img s3" "thread_count s3 = 0" using sched_inv_frame[OF inv(1), of s3] inv(2) by (simp_all add: c)
  obtain s4 where s4: "thread_create_user img user_code_virt ustack s3 = Some s4" "sched_inv img s4" "thread_count s4 = 1"
      "runnable (threads s4) 0" "is_user_mode (threads s4 ! 0)"
      "saved_frame s4 0 = (usermode_trampoline img, initial_regs (top16 img 0) user_code_virt ustack)" "same_machine s3 s4" "cpu s4 = cpu s3"
    by (rule create_first[OF i3 img(1)])
  define s5 where "s5 = serial_print ''Starting scheduler...\<newline>\<newline>'' (serial_print ''Userspace thread created\<newline>\<newline>'' s4)"
  have f5: "thread_count s5 = 1" "threads s5 = threads s4" "cpu s5 = cpu s" "saved_frame s5 0 = saved_frame s4 0" "same_machine s s5"
    using s4(3,7,8) by (simp_all add: s5_def c saved_frame_def same_machine_def)
  have i5: "sched_inv img s5" by (rule sched_inv_frame[OF s4(2)]) (simp_all add: s5_def)
  have r5: "off_stacks img (c_rsp (cpu s5))" "0 < thread_count s5" "runnable (threads s5) 0" using img(2) f5 s4(4) by simp_all
  obtain i s' where r: "next_in_order (threads s5) (thread_count s5) 0 = Some i"
      "scheduler_start ra s5 = Some (Resumes (fst (saved_frame s5 i)), s')" "cpu s' = snd (saved_frame s5 i)"
      "current s' = Some i" "sched_inv img s'" "is_user_mode (threads s5 ! i) \<longrightarrow> rsp0 (the_tss s') = stack_top img i"
    using scheduler_start_runs[OF i5 img(1) r5, of ra] by blast
  have i0: "i = 0" using next_in_order_less[OF r(1) r5(2)] f5(1) by simp
  have "start_init img ra ustack s = Some (Inl (Entered (usermode_trampoline img)), s')"
    unfolding start_init_def Let_def s3_def[symmetric] s4(1) option.case s5_def[symmetric] r(2) using f5(4) s4(6) i0 by simp
  moreover have "same_machine s s'" "thread_count s' = 1"
    using f5(1,5) scheduler_same_machine[OF r(2)] by (simp_all add: same_machine_def)
  ultimately show thesis using r(3-6) i0 f5(2,4) s4(5,6) by (intro that[of s']) simp_all
qed

text \<open>What the processor finds when the trampoline has run: the program, a stack, and ring 3.\<close>

definition init_entered :: "u64 \<Rightarrow> image \<Rightarrow> init_source \<Rightarrow> 'y machine_scheme \<Rightarrow> 'z thread_state_scheme \<Rightarrow> bool" where
  "init_entered A img src s s' \<longleftrightarrow> code_loaded A src s s' \<and> current s' = Some 0 \<and> thread_count s' = 1
     \<and> sched_inv img s' \<and> rsp0 (the_tss s') = stack_top img 0
     \<and> (\<forall>n<4096. vread s' (user_stack_virt + of_nat n) \<noteq> None \<and> user_access (phys_mem s') A (user_stack_virt + of_nat n))
     \<and> (\<forall>rflags. run_usermode_trampoline rflags (cpu s') = \<lparr>frame_rip = 0x400000, frame_cs = ucast USER_CS,
          frame_rflags = rflags OR 0x200, frame_rsp = 0x7FFFFFFFF000, frame_ss = ucast USER_DS\<rparr>)"

text \<open>The stack is mapped after the program and takes nothing away from it.\<close>

lemma code_loaded_stack:
  assumes L: "code_loaded A src s s1" "source_in A Q user_code_virt (init_size src) (phys_mem s1)"
    and root: "entry_to_phys (cr3_reg s1) = A" "entry_to_phys (cr3_reg s2) = A" and sz: "unat (init_size src) \<le> 0x40000000"
    and tr: "\<And>w. \<not> same_page 12 user_stack_virt w \<Longrightarrow> translate (phys_mem s2) A w = translate (phys_mem s1) A w"
    and ua: "\<And>w. user_access (phys_mem s1) A w \<Longrightarrow> user_access (phys_mem s2) A w"
    and bts: "\<And>u. u \<in> Q \<Longrightarrow> same_bytes u (phys_mem s1) (phys_mem s2)"
  shows "code_loaded A src s s2"
  unfolding code_loaded_def
proof (intro allI impI)
  fix k assume k: "k < unat (init_size src)"
  obtain u n where u: "u \<in> Q" "n < 4096" "translate (phys_mem s1) A (user_code_virt + of_nat k) = Some (u + of_nat n)"
    using L(2) k unfolding source_in_def by blast
  have "k < max_code_pages * 4096" using k sz by simp
  from tr[OF code_not_stack[OF this]] u bts[OF u(1)]
  have "vread s2 (user_code_virt + of_nat k) = vread s1 (user_code_virt + of_nat k)"
    by (simp add: vread_root[OF root(1)] vread_root[OF root(2)] same_bytes_def)
  with L(1) k ua show "vread s2 (user_code_virt + of_nat k) = vread s (init_data src + of_nat k) \<and>
      vread s2 (user_code_virt + of_nat k) \<noteq> None \<and> user_access (phys_mem s2) A (user_code_virt + of_nat k)"
    unfolding code_loaded_def by metis
qed

text \<open>The trampoline of a thread that has its initial registers.\<close>

lemma init_frame_ring3:
  "run_usermode_trampoline rflags (initial_regs a user_code_virt (user_stack_virt + 0x1000)) =
    \<lparr>frame_rip = 0x400000, frame_cs = ucast USER_CS, frame_rflags = rflags OR 0x200, frame_rsp = 0x7FFFFFFFF000, frame_ss = ucast USER_DS\<rparr>"
  by (simp add: run_usermode_trampoline_def jump_to_usermode_def initial_regs_def user_code_virt_def user_stack_virt_def USER_CS_def USER_DS_def gdt_index_defs)

text \<open>With the program in place, the stack and the thread follow.\<close>

lemma enter_init:
  fixes s s1 :: "'z thread_state_scheme"
  assumes l: "mem_only s s1" "spaces_inv {A} Q s1" "set ps \<subseteq> Q" "code_loaded A src s s1"
      "source_in A (set ps) user_code_virt (init_size src) (phys_mem s1)" "unat (init_size src) \<le> 0x40000000"
    and as: "as_pml4 KernelAS s = phys_to_virt (hhdm_offset s) A" "entry_to_phys (cr3_reg s) = A"
    and small: "no_large_page (phys_mem s1) A user_stack_virt"
    and inv: "sched_inv img s" "thread_count s = 0" and img: "stacks_placed img" "off_stacks img (c_rsp (cpu s))"
  obtains (entered) s' where "run_then map_user_stack (start_init img ra) s1 = Some (Inl (Entered (usermode_trampoline img)), s')"
      "init_entered A img src s s'"
  | (full) msg where "msg \<in> stack_errors" "halted msg (run_then map_user_stack (start_init img ra) s1)" "length (free_list s1) < 4"
proof -
  note F1 = mem_only_fields[OF l(1)]
  have as1: "as_pml4 KernelAS s1 = phys_to_virt (hhdm_offset s1) A" and root1: "entry_to_phys (cr3_reg s1) = A" using as F1 by simp_all
  show thesis
  proof (rule map_user_stack_cases[OF l(2) as1 root1 small])
    fix msg assume f: "msg \<in> stack_errors" "halted msg (map_user_stack s1)" "length (free_list s1) < 4"
    from f(1) run_then_halted[where f = map_user_stack, OF f(2)] f(3) show thesis by (rule full)
  next
    fix q s2 assume m: "map_user_stack s1 = Some (Inr (user_stack_virt + 0x1000), s2)" "mem_only s1 s2"
      "\<And>w. same_page 12 user_stack_virt w \<Longrightarrow> translate (phys_mem s2) A w = Some (q + take_bit 12 w)"
      "\<And>w. same_page 12 user_stack_virt w \<or> user_access (phys_mem s1) A w \<Longrightarrow> user_access (phys_mem s2) A w"
      "\<And>w. \<not> same_page 12 user_stack_virt w \<Longrightarrow> translate (phys_mem s2) A w = translate (phys_mem s1) A w"
      "\<And>u. u \<in> Q \<Longrightarrow> same_bytes u (phys_mem s1) (phys_mem s2)"
    have root2: "entry_to_phys (cr3_reg s2) = A" using root1 mem_only_fields(2)[OF m(2)] by simp
    have code2: "code_loaded A src s s2"
      by (rule code_loaded_stack[OF l(4,5) root1 root2 l(6) m(5)]) (use m(4,6) l(3) in auto)
    note T1 = mem_only_threads[OF l(1)] and T2 = mem_only_threads[OF m(2)]
    have i2: "sched_inv img s2" "thread_count s2 = 0" "off_stacks img (c_rsp (cpu s2))" using T1 T2 inv img(2) by simp_all
    obtain s' where st: "start_init img ra (user_stack_virt + 0x1000) s2 = Some (Inl (Entered (usermode_trampoline img)), s')" "same_machine s2 s'"
        "cpu s' = initial_regs (top16 img 0) user_code_virt (user_stack_virt + 0x1000)" "current s' = Some 0" "sched_inv img s'"
        "rsp0 (the_tss s') = stack_top img 0" "thread_count s' = 1"
      by (rule start_init_ok[OF i2(1,2) img(1) i2(3)])
    have M: "phys_mem s' = phys_mem s2" "cr3_reg s' = cr3_reg s2" using st(2) by (simp_all add: same_machine_def)
    have run: "run_then map_user_stack (start_init img ra) s1 = Some (Inl (Entered (usermode_trampoline img)), s')"
      using st(1) by (simp add: run_then_def m(1))
    have stk: "vread s' (user_stack_virt + of_nat n) \<noteq> None \<and> user_access (phys_mem s') A (user_stack_virt + of_nat n)" if "n < 4096" for n
    proof -
      have "same_page 12 user_stack_virt (user_stack_virt + of_nat n)" by (rule page_offset[OF _ that]) (simp add: user_stack_facts(1))
      from m(3)[OF this] m(4)[of "user_stack_virt + of_nat n"] this show ?thesis by (simp add: vread_cong[OF M] vread_root[OF root2] M)
    qed
    have "code_loaded A src s s'" using code2 by (simp only: code_loaded_cong[OF refl vread_cong[OF M] M(1)])
    with stk st(3-7) have "init_entered A img src s s'" by (simp only: init_entered_def init_frame_ring3) blast
    with run show thesis by (rule entered)
  qed
qed

text \<open>From the found program to user mode, or to a stop with a message when memory runs out.\<close>

abbreviation run_init :: "image \<Rightarrow> u64 \<Rightarrow> init_source \<Rightarrow> 'z thread_state_scheme \<Rightarrow> ((boot_end + unit) \<times> 'z thread_state_scheme) option" where
  "run_init img ra src \<equiv> run_then (load_user_code src) (\<lambda>_. run_then map_user_stack (start_init img ra))"

lemma hand_over_cases:
  fixes s :: "'z thread_state_scheme"
  assumes R: "load_ready A P src s" and stack: "no_large_page (phys_mem s) A user_stack_virt"
    and inv: "sched_inv img s" "thread_count s = 0" and img: "stacks_placed img" "off_stacks img (c_rsp (cpu s))"
  obtains (entered) s' where "run_init img ra src s = Some (Inl (Entered (usermode_trampoline img)), s')" "init_entered A img src s s'"
  | (full) msg where "msg \<in> code_errors \<union> stack_errors" "halted msg (run_init img ra src s)"
      "length (free_list s) < 4 * unat (pages_needed (init_size src)) + 4"
proof -
  note D = load_readyD[OF R] and N = pages_needed_unat[OF load_readyD(4)[OF R]]
  show thesis
  proof (rule load_user_code_cases[OF R])
    fix msg assume f: "msg \<in> code_errors" "halted msg (load_user_code src s)" "length (free_list s) < 4 * unat (pages_needed (init_size src))"
    show thesis using f(1,3) run_then_halted[where f = "load_user_code src", OF f(2)] by (intro full) auto
  next
    fix ps s1 assume l: "load_user_code src s = Some (Inr (), s1)" "mem_only s s1"
      "spaces_inv {A} (after_disk src P \<union> set ps) s1" "set ps \<inter> P = {}" "code_loaded A src s s1"
      "source_in A (set ps) user_code_virt (init_size src) (phys_mem s1)"
      "length (free_list s) \<le> length (free_list s1) + 4 * unat (pages_needed (init_size src))"
      "\<And>w. \<forall>i<unat (pages_needed (init_size src)). \<not> same_page 12 (code_page i) w \<Longrightarrow>
        page_leaf (phys_mem s1) A w = page_leaf (phys_mem s) A w"
    have "page_leaf (phys_mem s1) A user_stack_virt = page_leaf (phys_mem s) A user_stack_virt"
    proof (intro l(8) allI impI)
      fix i assume "i < unat (pages_needed (init_size src))"
      then have "i < max_code_pages" using N(2) by simp
      from user_stack_facts(3)[OF this] show "\<not> same_page 12 (code_page i) user_stack_virt" unfolding same_page_def by (rule not_sym)
    qed
    then have small1: "no_large_page (phys_mem s1) A user_stack_virt" using stack by (simp add: no_large_page_def)
    have run: "run_init img ra src s = run_then map_user_stack (start_init img ra) s1" by (rule run_then_Inr[where f = "load_user_code src", OF l(1)])
    show thesis
    proof (rule enter_init[OF l(2,3) _ l(5,6) D(4,2,3) small1 inv img])
      show "set ps \<subseteq> after_disk src P \<union> set ps" by blast
    next
      fix msg assume "msg \<in> stack_errors" "halted msg (run_then map_user_stack (start_init img ra) s1)" "length (free_list s1) < 4"
      with l(7) show thesis by (intro full) (auto simp: run)
    qed (use entered run in simp)
  qed
qed

end
