(* ===== verification/Kernel_Main.thy ===== *)
theory Kernel_Main
  imports Kernel_Boot Ext2_Image
begin

text \<open>
  The whole of \<open>kernel_main\<close>, from what the boot loader leaves behind to the first instruction of
  the init program: each phase keeps what the next one needs, and the last one enters user mode.
\<close>

unbundle bit_operations_syntax

section \<open>The processor\<close>

text \<open>What setting up consoles, tables and timers leaves alone.\<close>

definition below :: "'z idt_state_scheme \<Rightarrow> memory \<times> u64 \<times> 'z" where
  "below s = (phys_mem s, cr3_reg s, idt_state.more s)"

lemma below_print [simp]:
  fixes s :: "'z idt_state_scheme"
  shows "below (serial_print x s) = below s" "below (serial_print_hex v s) = below s" "below (serial_print_dec v s) = below s"
    "hhdm_offset (serial_print x s) = hhdm_offset s" "hhdm_offset (serial_print_hex v s) = hhdm_offset s"
    "hhdm_offset (serial_print_dec v s) = hhdm_offset s"
  by (simp_all add: below_def serial_print_hex_text serial_print_dec_text)

lemma below_prints:
  fixes s :: "'z idt_state_scheme"
  assumes "prints s s'"
  shows "below s' = below s" "hhdm_offset s' = hhdm_offset s"
  using assms by (auto simp: prints_def below_def)

lemma serial_init_below [simp]: "below (serial_init dev s) = below s" "hhdm_offset (serial_init dev s) = hhdm_offset s"
  by (simp_all add: serial_init_def below_def Let_def inb_def)

lemma gdt_init_below [simp]:
  fixes s :: "'z idt_state_scheme"
  shows "below (gdt_init img s) = below s" "hhdm_offset (gdt_init img s) = hhdm_offset s"
proof -
  have f: "below (fold gdt_debug_line is t) = below t \<and> hhdm_offset (fold gdt_debug_line is t) = hhdm_offset t" for "is" and t :: "'z idt_state_scheme"
    by (induction "is" arbitrary: t) (simp_all add: gdt_debug_line_def del: serial_print_def)
  show "below (gdt_init img s) = below s" "hhdm_offset (gdt_init img s) = hhdm_offset s"
    unfolding gdt_init_def Let_def by (simp_all add: f del: serial_print_def)
      (simp_all add: below_def gdt_set_entry_def gdt_set_tss_def gdt_load_def tss_load_def)
qed

lemma gate_below [simp]:
  fixes s :: "'z idt_state_scheme"
  shows "below (idt_set_gate n x y z s) = below s" "hhdm_offset (idt_set_gate n x y z s) = hhdm_offset s"
  by (simp_all add: idt_set_gate_def below_def)

lemma idt_init_below [simp]:
  fixes s :: "'z idt_state_scheme"
  shows "below (idt_init img s) = below s" "hhdm_offset (idt_init img s) = hhdm_offset s"
proof -
  have f: "below (fold (\<lambda>i. idt_set_gate (a i) (b i) x y) is t) = below t \<and> hhdm_offset (fold (\<lambda>i. idt_set_gate (a i) (b i) x y) is t) = hhdm_offset t"
    for a b x y and "is" :: "nat list" and t :: "'z idt_state_scheme"
    by (induction "is" arbitrary: t) simp_all
  have p: "below (t\<lparr>idt_pointer := q, idtr := q\<rparr>) = below t" for t :: "'z idt_state_scheme" and q by (simp add: below_def)
  have z: "below (t\<lparr>idt := q\<rparr>) = below t" for t :: "'z idt_state_scheme" and q by (simp add: below_def)
  show "below (idt_init img s) = below s" "hhdm_offset (idt_init img s) = hhdm_offset s"
    unfolding idt_init_def Let_def by (simp_all only: p f z) (simp add: f)
qed

lemma pit_init_below:
  fixes s :: "'z idt_state_scheme"
  shows "\<exists>s'. pit_init 100 s = Some s' \<and> below s' = below s \<and> hhdm_offset s' = hhdm_offset s"
  by (simp add: pit_init_def Let_def pic_init_def below_def)

lemma boot_cpu_ok:
  fixes s :: "'z idt_state_scheme"
  assumes "hhdm_response lim = Some h"
  obtains s' where "boot_cpu dev img lim s = Some s'" "below s' = below s" "hhdm_offset s' = h"
proof -
  define s1 where "s1 = serial_print ''Parsing Limine bootloader info...\<newline>'' (serial_print ''======================\<newline>\<newline>''
    (serial_print ''PlasmaOS Kernel v0.1.0\<newline>'' (serial_init dev s)))"
  have 1: "below s1 = below s" unfolding s1_def by (simp del: serial_print_def)
  have "prints (s1\<lparr>hhdm_offset := h\<rparr>) (limine_parse_info lim s1)" using limine_parse_prints[of s1 lim] assms by simp
  from below_prints[OF this] have 2: "below (limine_parse_info lim s1) = below s" "hhdm_offset (limine_parse_info lim s1) = h"
    using 1 by (simp_all add: below_def)
  define s7 where "s7 = serial_print ''  - Initializing PIT (Programmable Interval Timer) at 100Hz...\<newline>''
    (serial_print ''  - IDT loaded successfully\<newline>'' (idt_init img (serial_print ''  - Setting up IDT (Interrupt Descriptor Table)...\<newline>''
      (serial_print ''  - GDT loaded successfully\<newline>'' (gdt_init img (serial_print ''  - Setting up GDT (Global Descriptor Table)...\<newline>''
        (serial_print ''\<newline>Initializing CPU infrastructure...\<newline>'' (limine_parse_info lim s1))))))))"
  have 7: "below s7 = below s" "hhdm_offset s7 = h" unfolding s7_def by (simp_all add: 2 del: serial_print_def)
  obtain s8 where 8: "pit_init 100 s7 = Some s8" "below s8 = below s" "hhdm_offset s8 = h" using pit_init_below[of s7] 7 by auto
  show thesis
  proof (rule that)
    show "boot_cpu dev img lim s = Some (serial_print ''\<newline>CPU infrastructure complete\<newline>\<newline>''
        (serial_print ''  - PIT initialized, interrupts enabled\<newline>'' s8))"
      unfolding boot_cpu_def Let_def s1_def[symmetric] s7_def[symmetric] 8(1) by simp
  qed (simp_all add: 8 del: serial_print_def)
qed

section \<open>Memory\<close>

text \<open>Nothing is lost of the pages \<open>P\<close> or of the address space with root \<open>A\<close>.\<close>

definition kept :: "u64 \<Rightarrow> u64 set \<Rightarrow> 'z vmm_state_scheme \<Rightarrow> 'z vmm_state_scheme \<Rightarrow> bool" where
  "kept A P s s' \<longleftrightarrow> same_walks A (phys_mem s) (phys_mem s') \<and> (\<forall>u\<in>P. same_bytes u (phys_mem s) (phys_mem s')) \<and> mem_only s s'"

lemma kept_trans: "kept A P s t \<Longrightarrow> kept A P t u \<Longrightarrow> kept A P s u"
  unfolding kept_def by (auto simp: same_walks_def elim: mem_only_trans intro: same_bytes_trans)

lemma kept_mono: "kept A Q s t \<Longrightarrow> P \<subseteq> Q \<Longrightarrow> kept A P s t"
  by (auto simp: kept_def)

lemma spaces_weaken: "spaces_inv {A} Q s \<Longrightarrow> P \<subseteq> Q \<Longrightarrow> spaces_inv {A} P s"
  by (auto simp: spaces_inv_def)

lemma console_kept [simp]:
  fixes s t :: "'z vmm_state_scheme"
  shows "kept A P s (t\<lparr>console := c\<rparr>) = kept A P s t" "free_list (t\<lparr>console := c\<rparr>) = free_list t"
    "spaces_inv R P (t\<lparr>console := c\<rparr>) = spaces_inv R P t"
proof -
  show "spaces_inv R P (t\<lparr>console := c\<rparr>) = spaces_inv R P t"
    by (rule iffI; erule spaces_inv_quiet) (simp_all add: free_list_def)
qed (simp_all add: kept_def free_list_def)

lemma kept_refl [simp]: "kept A P s s"
  by (simp add: kept_def same_walks_def same_bytes_def)

lemma alloc_keep:
  fixes s :: "'z vmm_state_scheme"
  assumes inv: "spaces_inv {A} P s" and ne: "0 < length (free_list s)"
  obtains p s' where "pmm_alloc_page s = (p, s')" "p \<noteq> 0" "page_ok p" "p \<notin> P" "spaces_inv {A} (insert p P) s'" "kept A P s s'"
    "length (free_list s') + 1 = length (free_list s)"
proof -
  have ne': "free_list s \<noteq> []" using ne by simp
  obtain p s' where a: "pmm_alloc_page s = (p, s')" "p \<noteq> 0" "p \<notin> P" "spaces_inv {A} (insert p P) s'"
    "length (free_list s') = length (free_list s) - 1" "same_walks A (phys_mem s) (phys_mem s')" "alloc_only s s'"
    "\<And>u. u \<in> P \<Longrightarrow> same_bytes u (phys_mem s) (phys_mem s')"
    by (rule spaces_alloc[OF inv ne']) blast
  have pm: "pmm_inv s" using vm_invD(1)[OF spaces_invD(1)[OF inv]] by simp
  have "page_ok p" using pmm.alloc_page[OF pm ne'] pmm.avail_ok[OF pm last_in_set[OF ne']] a(1) by simp
  moreover have "kept A P s s'" using a(6,8) alloc_mem_only[OF a(7)] by (simp add: kept_def)
  ultimately show thesis using a(1-5) ne by (intro that) auto
qed

text \<open>The test takes four pages and gives one back.\<close>

lemma memory_test_ok:
  fixes s :: "'z vmm_state_scheme"
  assumes inv: "spaces_inv {A} P s" and ne: "3 \<le> length (free_list s)"
  shows "spaces_inv {A} P (memory_test s)" "kept A P s (memory_test s)" "length (free_list (memory_test s)) + 3 = length (free_list s)"
proof -
  let ?s = "serial_print ''Testing memory allocation...\<newline>'' s"
  have 0: "spaces_inv {A} P ?s" "kept A P s ?s" "free_list ?s = free_list s" using inv by simp_all
  have n0: "0 < length (free_list ?s)" unfolding 0(3) using ne by linarith
  obtain p1 s1 where 1: "pmm_alloc_page ?s = (p1, s1)" "spaces_inv {A} (insert p1 P) s1" "kept A P ?s s1" "length (free_list s1) + 1 = length (free_list ?s)"
    by (rule alloc_keep[OF 0(1) n0])
  have 1: "pmm_alloc_page ?s = (p1, s1)" "spaces_inv {A} (insert p1 P) s1" "kept A P ?s s1" "length (free_list s1) + 1 = length (free_list s)"
    using 1 by (simp_all only: 0(3))
  have n1: "0 < length (free_list s1)" using 1(4) ne by linarith
  obtain p2 s2 where 2: "pmm_alloc_page s1 = (p2, s2)" "page_ok p2" "p2 \<notin> insert p1 P" "spaces_inv {A} (insert p2 (insert p1 P)) s2"
      "kept A (insert p1 P) s1 s2" "length (free_list s2) + 1 = length (free_list s1)"
    by (rule alloc_keep[OF 1(2) n1])
  have n2: "0 < length (free_list s2)" using 1(4) 2(6) ne by linarith
  obtain p3 s3 where 3: "pmm_alloc_page s2 = (p3, s3)" "spaces_inv {A} (insert p3 (insert p2 (insert p1 P))) s3"
      "kept A (insert p2 (insert p1 P)) s2 s3" "length (free_list s3) + 1 = length (free_list s2)"
    by (rule alloc_keep[OF 2(4) n2])
  define s6 where "s6 = serial_print ''\<newline>'' (serial_print_hex p3 (serial_print '', '' (serial_print_hex p2 (serial_print '', ''
    (serial_print_hex p1 (serial_print ''  Allocated pages: '' s3))))))"
  have 6: "spaces_inv {A} (insert p3 (insert p2 (insert p1 P))) s6" "kept A P s3 s6" "free_list s6 = free_list s3"
    using 3(2) by (simp_all add: s6_def serial_print_hex_text)
  have "pmm_inv s" using vm_invD(1)[OF spaces_invD(1)[OF inv]] by simp
  from pmm.avail_cap[OF this] have cap: "length (free_list s6) < unat MAX_PAGES" unfolding 6(3) using 1(4) 2(6) 3(4) by linarith
  let ?f = "pmm_free_page p2 s6"
  have "p2 \<in> insert p3 (insert p2 (insert p1 P))" by simp
  note F = spaces_free[OF 6(1) this 2(2) cap]
  have 7: "spaces_inv {A} P ?f" "kept A P s6 ?f" "length (free_list ?f) = length (free_list s6) + 1"
  proof -
    show "spaces_inv {A} P ?f" by (rule spaces_weaken[OF F(1)]) (use 2(3) in blast)
    show "kept A P s6 ?f" using F(3) by (simp add: kept_def F(2) same_walks_def same_bytes_def)
    show "length (free_list ?f) = length (free_list s6) + 1" by (simp add: F(4))
  qed
  let ?s7 = "serial_print ''  Freed middle page\<newline>'' ?f"
  have 7: "spaces_inv {A} P ?s7" "kept A P s6 ?s7" "length (free_list ?s7) = length (free_list s6) + 1" using 7 by simp_all
  have n7: "0 < length (free_list ?s7)" unfolding 7(3) by simp
  obtain p4 s8 where 8: "pmm_alloc_page ?s7 = (p4, s8)" "spaces_inv {A} (insert p4 P) s8" "kept A P ?s7 s8"
      "length (free_list s8) + 1 = length (free_list ?s7)"
    by (rule alloc_keep[OF 7(1) n7])
  define s9 where "s9 = serial_print ''Memory allocation test passed!\<newline>\<newline>'' (serial_print ''\<newline>'' (serial_print_hex p4 (serial_print ''  Reallocated: '' s8)))"
  have 9: "memory_test s = s9" unfolding memory_test_def Let_def 1(1) prod.case 2(1) 3(1) s6_def[symmetric] 8(1) s9_def ..
  have k: "kept A P s s1" "kept A P s1 s2" "kept A P s2 s3"
    by (rule kept_trans[OF 0(2) 1(3)], rule kept_mono[OF 2(5)], blast, rule kept_mono[OF 3(3)], blast)
  have s9: "spaces_inv {A} P s9" "kept A P s8 s9" "free_list s9 = free_list s8"
    using spaces_weaken[OF 8(2) subset_insertI] by (simp_all add: s9_def serial_print_hex_text)
  show "spaces_inv {A} P (memory_test s)" unfolding 9 by (rule s9(1))
  show "kept A P s (memory_test s)" unfolding 9
    by (rule kept_trans[OF k(1) kept_trans[OF k(2) kept_trans[OF k(3) kept_trans[OF 6(2) kept_trans[OF 7(2) kept_trans[OF 8(3) s9(2)]]]]]])
  show "length (free_list (memory_test s)) + 3 = length (free_list s)"
    unfolding 9 s9(3) using 1(4) 2(6) 3(4) 7(3) 8(4) unfolding 6(3) by linarith
qed

text \<open>The pages that \<open>pmm_init\<close> puts on its stack.\<close>

definition usable_pages :: "u64 \<Rightarrow> memmap_entry list \<Rightarrow> u64 list" where
  "usable_pages usable es = take (unat MAX_PAGES) (concat (map region_pages (filter (\<lambda>e. me_type e = usable) es)))"

text \<open>
  The memory as the boot loader hands it over: page tables with root \<open>A\<close> outside the pages
  it reports as usable, all of it in reach of the direct map at \<open>h\<close>, and pages \<open>P\<close> that are
  neither usable nor tables.
\<close>

definition loader_memory :: "u64 \<Rightarrow> u64 \<Rightarrow> u64 set \<Rightarrow> u64 list \<Rightarrow> memory \<Rightarrow> bool" where
  "loader_memory h A P U m \<longleftrightarrow> (\<forall>p\<in>set U. frame_ok h p) \<and> pt_wf h m A (set U)
     \<and> (\<forall>u\<in>P. frame_ok h u \<and> u \<notin> set U \<and> not_table m A u)"

lemma loader_spaces:
  assumes "loader_memory (hhdm_offset s) A P (free_list s) (phys_mem s)" "pmm_inv s"
  shows "spaces_inv {A} P s"
  using assms by (auto simp: loader_memory_def spaces_inv_def vm_inv_def)

lemma pmm_erase_fields:
  fixes s s' :: "'z vmm_state_scheme"
  assumes "pmm_erase s' = pmm_erase s"
  shows "hhdm_offset s' = hhdm_offset s" "cr3_reg s' = cr3_reg s" "vmm_state.more s' = vmm_state.more s"
  using assms[THEN arg_cong, of hhdm_offset] assms[THEN arg_cong, of cr3_reg] assms[THEN arg_cong, of vmm_state.more]
  by (simp_all add: pmm_erase_def)

lemma boot_memory_ok:
  fixes s :: "'z vmm_state_scheme"
  assumes lim: "memmap_response lim = Some es" "memmap_ok usable es" "executable_address_response lim = Some ka"
    and L: "loader_memory (hhdm_offset s) A P (usable_pages usable es) (phys_mem s)"
    and root: "cr3_reg s AND NOT 0xFFF = A" and room: "3 \<le> length (usable_pages usable es)"
  obtains s' where "boot_memory usable lim s = Some s'" "spaces_inv {A} P s'" "as_pml4 KernelAS s' = phys_to_virt (hhdm_offset s') A"
    "hhdm_offset s' = hhdm_offset s" "cr3_reg s' = cr3_reg s" "vmm_state.more s' = vmm_state.more s"
    "length (free_list s') + 3 = length (usable_pages usable es)" "same_walks A (phys_mem s) (phys_mem s')"
    "\<And>u. u \<in> P \<Longrightarrow> same_bytes u (phys_mem s) (phys_mem s')"
proof -
  define s1 where "s1 = serial_print ''  - Initilizing PMM (Physical Memory Manager)...\<newline>'' (serial_print ''Initializing memory management...\<newline>'' s)"
  have e1: "phys_mem s1 = phys_mem s" "hhdm_offset s1 = hhdm_offset s" "cr3_reg s1 = cr3_reg s" "vmm_state.more s1 = vmm_state.more s"
    by (simp_all add: s1_def)
  obtain s2 where i: "pmm_init usable (Some es) s1 = Some s2" "free_list s2 = usable_pages usable es" "phys_mem s2 = phys_mem s1" "pmm_erase s2 = pmm_erase s1"
    using pmm_init_spec[of usable es s1] unfolding usable_pages_def by blast
  have pm: "pmm_inv s2" using pmm_init_establishes_inv[OF lim(2) i(1)] by blast
  note E = pmm_erase_fields[OF i(4)]
  have sp: "spaces_inv {A} P s2" by (rule loader_spaces[OF _ pm]) (use L in \<open>simp add: i(2,3) E e1\<close>)
  obtain b v where ka: "ka = (b, v)" by (cases ka)
  define s3 where "s3 = vmm_init (Some (b, v)) (serial_print ''  - Initializing VMM (Virtual Memory Manager)...\<newline>'' s2)"
  obtain c where v: "s3 = s2\<lparr>kas_cr3 := A, kas_pml4 := phys_to_virt (hhdm_offset s2) A, console := c\<rparr>"
    using root E(2) e1(3) by (auto simp: s3_def vmm_init_def Let_def serial_print_hex_text)
  define s5 where "s5 = serial_print '' MB\<newline>\<newline>'' (serial_print_dec (pmm_get_free_memory (serial_print ''  * Free memory: '' (serial_print ''\<newline>Memory Management Complete!\<newline>'' s3)) div 1024 div 1024)
    (serial_print ''  * Free memory: '' (serial_print ''\<newline>Memory Management Complete!\<newline>'' s3)))"
  obtain c' where s5: "s5 = s2\<lparr>kas_cr3 := A, kas_pml4 := phys_to_virt (hhdm_offset s2) A, console := c'\<rparr>"
    by (auto simp: s5_def v serial_print_dec_text)
  have sp5: "spaces_inv {A} P s5" unfolding s5 by (rule spaces_inv_quiet[OF sp]) (simp_all add: free_list_def)
  have f5: "free_list s5 = usable_pages usable es" using i(2) by (simp add: s5 free_list_def)
  have "3 \<le> length (free_list s5)" unfolding f5 by (rule room)
  note T = memory_test_ok[OF sp5 this]
  have K: "same_walks A (phys_mem s5) (phys_mem (memory_test s5))" "\<And>u. u \<in> P \<Longrightarrow> same_bytes u (phys_mem s5) (phys_mem (memory_test s5))"
    "mem_only s5 (memory_test s5)" using T(2) by (simp_all add: kept_def)
  have p5: "phys_mem s5 = phys_mem s" by (simp add: s5 i(3) e1)
  note F = mem_only_fields[OF K(3)]
  show thesis
  proof (rule that)
    show "boot_memory usable lim s = Some (memory_test s5)"
      unfolding boot_memory_def Let_def s1_def[symmetric] limine_get_memmap_request_def lim(1) i(1) limine_get_executable_address_request_def lim(3) ka
        option.case s3_def[symmetric] s5_def ..
    show "spaces_inv {A} P (memory_test s5)" by (rule T(1))
    show "length (free_list (memory_test s5)) + 3 = length (usable_pages usable es)" using T(3) by (simp add: f5)
  qed (use K(1,2) p5 F E e1 in \<open>simp_all add: s5 as_pml4_def\<close>)
qed

section \<open>Services, on a machine without a drive\<close>

text \<open>A bus with no drive on it: the status register never shows an idle drive.\<close>

definition no_drive :: "device \<Rightarrow> bool" where
  "no_drive dev \<longleftrightarrow> (\<forall>events. dev_inb dev events (ata_base + ATA_REG_STATUS) AND ATA_STATUS_BSY \<noteq> 0)"

lemma no_drive_wait: "no_drive dev \<Longrightarrow> fst (ata_wait_bsy dev s) = - 1"
proof -
  assume nd: "no_drive dev"
  have "fst (wait_bsy_loop dev n s) = - 1" for n
    by (induction n arbitrary: s) (use nd in \<open>simp_all add: inb_def Let_def no_drive_def\<close>)
  then show ?thesis by (simp add: ata_wait_bsy_def)
qed

text \<open>Everything but the console, the bus, the interrupt table and the message pool.\<close>

definition system where
  "system s = ((phys_mem s, cr3_reg s, hhdm_offset s, page_stack s, page_stack_top s, free_pages s, kas_pml4 s),
     (cpu s, threads s, thread_count s, thread_list s, current s, port_count s), ext2_ready s)"

lemma system_print [simp]:
  "system (serial_print x s) = system s" "system (serial_print_hex v s) = system s" "system (serial_print_dec v s) = system s"
  by (simp_all add: system_def serial_print_hex_text serial_print_dec_text)

lemma system_bus:
  fixes s s' :: "'z ext2_state_scheme"
  assumes "bus_only n s s'"
  shows "system s' = system s"
proof -
  have "s' = s\<lparr>io_log := io_log s', console := console s'\<rparr>" using assms by (simp add: bus_only_def)
  from this[THEN arg_cong, of system] show ?thesis by (simp add: system_def)
qed

lemma system_wait_bsy [simp]: "system (snd (ata_wait_bsy dev s)) = system s"
  using system_bus wait_bsy_any[of dev POLLS s] by (auto simp: ata_wait_bsy_def)

lemma ata_init_system:
  assumes "no_drive dev"
  shows "system (ata_init dev s) = system s"
proof -
  define s4 where "s4 = outb (ata_base + ATA_REG_COMMAND) ATA_CMD_IDENTIFY (fold (\<lambda>i s. snd (inb dev ata_control s)) [0..<4]
    (outb (ata_base + ATA_REG_COMMAND) 0xA0 (serial_print ''ATA: Initializing primary bus...\<newline>'' s)))"
  have f: "system (fold (\<lambda>i s. snd (inb dev p s)) is t) = system t" for p "is" t
    by (induction "is" arbitrary: t) (simp_all add: inb_def Let_def system_def)
  have o: "system (outb p v t) = system t" for p v t by (simp add: system_def)
  have "system s4 = system s" unfolding s4_def o f system_print ..
  moreover obtain r s5 where w: "ata_wait_bsy dev s4 = (r, s5)" by force
  moreover have "r = - 1" "system s5 = system s4" using no_drive_wait[OF assms, of s4] system_wait_bsy[of dev s4] w by simp_all
  ultimately show ?thesis unfolding ata_init_def Let_def s4_def[symmetric] w by (simp del: serial_print_def)
qed

lemma ext2_init_system:
  assumes "no_drive dev"
  shows "system (snd (ext2_init dev s)) = system s"
proof -
  let ?s = "serial_print ''ext2: Initializing ext2 filesystem...\<newline>'' s"
  obtain r s1 where w: "ata_wait_bsy dev ?s = (r, s1)" by force
  have r: "r = - 1" "system s1 = system s" using no_drive_wait[OF assms, of ?s] system_wait_bsy[of dev ?s] w by (simp_all del: serial_print_def)
  have "ata_read_data dev 0 2 2 ?s = (- 1, [], s1)" using w r(1) by (simp add: ata_read_data_def del: serial_print_def)
  then show ?thesis using r(2) by (simp add: ext2_init_def Let_def del: serial_print_def)
qed

lemma syscall_init_system [simp]: "system (syscall_init img s) = system s"
  by (simp add: syscall_init_def idt_set_gate_def system_def)

lemma boot_services_ok:
  fixes s :: "'z kernel_state_scheme"
  assumes nd: "no_drive dev" and fs: "\<not> ext2_ready s"
  obtains s' where "boot_services dev img s = Some (Inr (), s')"
    "system s' = (fst (system s), (cpu s, threads s, 0, None, None, 1), False)"
proof -
  define s1 where "s1 = thread_init (serial_print ''\<newline>Initializing threading subsystem...\<newline>'' s)"
  have 1: "system s1 = (fst (system s), (cpu s, threads s, 0, None, None, 0), False)" using fs by (simp add: s1_def thread_init_def system_def)
  define s5 where "s5 = serial_print ''Disk I/O initialized\<newline>\<newline>'' (ata_init dev (serial_print ''Initializing disk I/O...\<newline>''
    (serial_print ''Syscalls initialized\<newline>\<newline>'' (syscall_init img (serial_print ''Initializing syscall interface...\<newline>'' s1)))))"
  define s6 where "s6 = snd (ext2_init dev (serial_print ''Initializing filesystem...\<newline>'' s5))"
  have 6: "system s6 = system s1"
    unfolding s6_def s5_def by (simp only: ext2_init_system[OF nd] ata_init_system[OF nd] system_print syscall_init_system)
  have ne: "\<not> ext2_ready s6" using 6 1 by (simp add: system_def)
  define s7 where "s7 = serial_print ''Creating IPC test port...\<newline>'' (serial_print ''\<newline>'' (serial_print ''ext2: Filesystem not initialized\<newline>'' s6))"
  have 7: "system s7 = system s1" unfolding s7_def by (simp only: system_print 6)
  then have pc: "port_count s7 = 0" using 1 by (simp add: system_def)
  define s9 where "s9 = (set_port 0 empty_port (s7\<lparr>port_count := 1\<rparr>))\<lparr>test_port := Some 0\<rparr>"
  have p: "port_create s7 = (Some 0, set_port 0 empty_port (s7\<lparr>port_count := 1\<rparr>))"
    using pc by (simp add: port_create_def MAX_PORTS_def)
  show thesis
  proof (rule that)
    show "boot_services dev img s = Some (Inr (), serial_print ''Port created successfully\<newline>\<newline>'' s9)"
      unfolding boot_services_def Let_def s1_def[symmetric] s5_def[symmetric] s6_def[symmetric]
      using ne p by (simp add: ext2_list_root_def s7_def[symmetric] s9_def del: serial_print_def)
    show "system (serial_print ''Port created successfully\<newline>\<newline>'' s9) = (fst (system s), (cpu s, threads s, 0, None, None, 1), False)"
      using 1 7 unfolding system_print by (simp add: s9_def set_port_def system_def)
  qed
qed

section \<open>Finding the program\<close>

abbreviation module_source :: "limine_file \<Rightarrow> init_source" where
  "module_source md \<equiv> \<lparr>init_data = file_address md, init_size = file_bytes md, disk_page = None\<rparr>"

lemma find_init_ok:
  fixes s :: "'z ext2_state_scheme"
  assumes inv: "spaces_inv {A} P s" and ne: "0 < length (free_list s)" and fs: "\<not> ext2_ready s"
    and md: "module_response lim = Some (md # mds)"
  obtains s' where "find_init dev lim s = Some (Inr (module_source md), s')" "spaces_inv {A} P s'" "kept A P s s'"
    "length (free_list s') + 1 = length (free_list s)"
proof -
  define s0 where "s0 = serial_print ''Loading userspace init program...\<newline>'' s"
  have 0: "spaces_inv {A} P s0" "kept A P s s0" "free_list s0 = free_list s" using inv by (simp_all add: s0_def)
  have n0: "0 < length (free_list s0)" using ne by (simp add: 0(3))
  obtain p s1 where a: "pmm_alloc_page s0 = (p, s1)" "p \<noteq> 0" "spaces_inv {A} (insert p P) s1" "kept A P s0 s1"
      "length (free_list s1) + 1 = length (free_list s0)"
    by (rule alloc_keep[OF 0(1) n0])
  have "mem_only s0 s1" using a(4) by (simp add: kept_def)
  then have "ext2_ready s1 = ext2_ready s0" by (auto simp: mem_only_def)
  then have r: "\<not> ext2_ready s1" using fs by (simp add: s0_def)
  define s2 where "s2 = serial_print ''ext2: Filesystem not initialized\<newline>'' s1"
  have l: "load_from_disk dev s0 = Some (p, None, s2)"
    unfolding load_from_disk_def Let_def a(1) prod.case ext2_read_file_def using a(2) r by (simp add: s2_def del: serial_print_def)
  define s3 where "s3 = serial_print '' bytes)\<newline>'' (serial_print_dec (file_bytes md) (serial_print '' ('' (serial_print (file_path md)
    (serial_print ''  Loaded from Limine module: '' s2))))"
  have 3: "spaces_inv {A} P s3" "kept A P s1 s3" "free_list s3 = free_list s1"
    using spaces_weaken[OF a(3) subset_insertI] by (simp_all add: s3_def s2_def serial_print_dec_text)
  show thesis
  proof (rule that)
    show "find_init dev lim s = Some (Inr (module_source md), s3)"
      unfolding find_init_def s0_def[symmetric] l using md by (simp add: s3_def Let_def del: serial_print_def)
    show "kept A P s s3" by (rule kept_trans[OF 0(2) kept_trans[OF a(4) 3(2)]])
    show "length (free_list s3) + 1 = length (free_list s)" using a(5) by (simp add: 3(3) 0(3))
  qed (rule 3(1))
qed

text \<open>Without a module the page for the file is given back and the machine stops.\<close>

definition no_init_error :: string where
  "no_init_error = ''ERROR: Could not load init from disk or modules!\<newline>''"

lemma free_page_console:
  assumes "pmm_inv s" "length (free_list s) < unat MAX_PAGES"
  shows "console (pmm_free_page p s) = console s"
  using assms(2) by (simp add: pmm_free_page_def page_push_def Let_def length_free_list word_le_nat_alt)

lemma find_init_none:
  fixes s :: "'z ext2_state_scheme"
  assumes inv: "spaces_inv {A} P s" and ne: "0 < length (free_list s)" and fs: "\<not> ext2_ready s"
    and md: "module_response lim = None \<or> module_response lim = Some []"
  shows "halted no_init_error (find_init dev lim s)"
proof -
  define s0 where "s0 = serial_print ''Loading userspace init program...\<newline>'' s"
  have 0: "spaces_inv {A} P s0" "free_list s0 = free_list s" using inv by (simp_all add: s0_def)
  have n0: "0 < length (free_list s0)" using ne by (simp add: 0(2))
  obtain p s1 where a: "pmm_alloc_page s0 = (p, s1)" "p \<noteq> 0" "spaces_inv {A} (insert p P) s1" "kept A P s0 s1"
      "length (free_list s1) + 1 = length (free_list s0)"
    by (rule alloc_keep[OF 0(1) n0])
  have r: "\<not> ext2_ready s1" using a(4) fs by (auto simp: kept_def mem_only_def s0_def)
  define s2 where "s2 = serial_print no_init_error (serial_print ''ext2: Filesystem not initialized\<newline>'' s1)"
  have l: "find_init dev lim s = hcf (pmm_free_page p s2)"
    unfolding find_init_def s0_def[symmetric] load_from_disk_def Let_def a(1) prod.case ext2_read_file_def
    using a(2) r md by (auto simp: s2_def no_init_error_def Let_def simp del: serial_print_def)
  have "pmm_inv s0" using vm_invD(1)[OF spaces_invD(1)[OF 0(1)]] by simp
  from pmm.avail_cap[OF this] have "length (free_list s2) < unat MAX_PAGES" using a(5) by (simp add: s2_def)
  moreover have "spaces_inv {A} (insert p P) s2" using a(3) by (simp add: s2_def)
  from vm_invD(1)[OF spaces_invD(1)[OF this]] have "pmm_inv s2" by simp
  ultimately have "console (pmm_free_page p s2) = console s2" by (intro free_page_console)
  then show ?thesis unfolding l by (simp add: halted_def hcf_def s2_def)
qed

section \<open>The whole boot\<close>

lemma more_fields:
  fixes s s' :: "'z ext2_state_scheme"
  assumes "vmm_state.more s' = vmm_state.more s"
  shows "cpu s' = cpu s" "threads s' = threads s" "ext2_ready s' = ext2_ready s"
  using assms by (cases s; cases s'; simp)+

lemma below_more:
  fixes s s' :: "'z vmm_state_scheme"
  assumes "below s' = below s"
  shows "phys_mem s' = phys_mem s" "cr3_reg s' = cr3_reg s" "vmm_state.more s' = vmm_state.more s"
  using assms by (cases s; cases s'; simp add: below_def)+

lemma cr3_root:
  assumes "unat (x :: u64) < 2 ^ 52"
  shows "x AND NOT 0xFFF = entry_to_phys x"
proof -
  have "take_bit 52 x = x" by (rule word_unat_eq_iff[THEN iffD2]) (use assms in \<open>simp add: unsigned_take_bit_eq take_bit_nat_eq_self\<close>)
  then have "x = x AND mask 52" by (simp add: take_bit_eq_mask)
  then have "x AND NOT 0xFFF = x AND (mask 52 AND NOT 0xFFF)" by (metis and.assoc)
  also have "(mask 52 AND NOT 0xFFF :: u64) = 0x000FFFFFFFFFF000" by (simp add: mask_eq_exp_minus_1)
  finally show ?thesis by (simp add: entry_to_phys_def)
qed

text \<open>
  The module of the boot loader is in the pages \<open>P\<close> and fits below the limit, and nothing is in
  the way of its pages and of the stack.
\<close>

definition module_fits :: "u64 \<Rightarrow> u64 set \<Rightarrow> limine_file \<Rightarrow> memory \<Rightarrow> bool" where
  "module_fits A P md m \<longleftrightarrow> unat (file_bytes md) \<le> 0x40000000 \<and> source_in A P (file_address md) (file_bytes md) m
     \<and> (\<forall>i<unat (pages_needed (file_bytes md)). no_large_page m A (code_page i) \<and>
          (\<forall>k<unat (file_bytes md). \<not> same_page 12 (code_page i) (file_address md + of_nat k)))
     \<and> no_large_page m A user_stack_virt"

lemma module_fits_walks:
  assumes "same_walks A m m'"
  shows "module_fits A P md m' = module_fits A P md m"
  using same_walksD(2,3)[OF assms] by (simp add: module_fits_def source_in_def no_large_page_def)

lemma module_load_ready:
  assumes "spaces_inv {A} P s" "as_pml4 KernelAS s = phys_to_virt (hhdm_offset s) A" "entry_to_phys (cr3_reg s) = A"
    "module_fits A P md (phys_mem s)"
  shows "load_ready A P (module_source md) s" "no_large_page (phys_mem s) A user_stack_virt"
  using assms by (simp_all add: load_ready_def module_fits_def)

lemma source_vread:
  assumes "source_in A P data sz (phys_mem s)" "same_walks A (phys_mem s) (phys_mem s')" "\<And>u. u \<in> P \<Longrightarrow> same_bytes u (phys_mem s) (phys_mem s')"
    "entry_to_phys (cr3_reg s) = A" "entry_to_phys (cr3_reg s') = A" "k < unat sz"
  shows "vread s' (data + of_nat k) = vread s (data + of_nat k)"
proof -
  obtain u n where u: "u \<in> P" "n < 4096" "translate (phys_mem s) A (data + of_nat k) = Some (u + of_nat n)"
    using assms(1,6) unfolding source_in_def by blast
  with same_walksD(3)[OF assms(2)] assms(3)[OF u(1)] show ?thesis
    by (simp add: vread_root[OF assms(4)] vread_root[OF assms(5)] same_bytes_def)
qed

lemma thread_table_inv:
  assumes "length (threads s) = MAX_THREADS" "thread_count s = 0" "thread_list s = None" "current s = None"
  shows "sched_inv img s"
  using assms by (simp add: sched_inv_def thread_inv_def ring_def)

lemma system_spaces:
  fixes s s' :: "'z ext2_state_scheme"
  assumes "fst (system s') = fst (system s)"
  shows "spaces_inv R P s \<Longrightarrow> spaces_inv R P s'" "free_list s' = free_list s" "phys_mem s' = phys_mem s" "cr3_reg s' = cr3_reg s"
    "hhdm_offset s' = hhdm_offset s" "as_pml4 KernelAS s' = as_pml4 KernelAS s"
proof -
  show f: "free_list s' = free_list s" "phys_mem s' = phys_mem s" "cr3_reg s' = cr3_reg s" "hhdm_offset s' = hhdm_offset s"
    "as_pml4 KernelAS s' = as_pml4 KernelAS s" using assms by (simp_all add: system_def free_list_def as_pml4_def)
  show "spaces_inv R P s'" if "spaces_inv R P s" by (rule spaces_inv_quiet[OF that f(2,1,4)]) (use assms in \<open>simp_all add: system_def\<close>)
qed

text \<open>The first three phases.\<close>

lemma boot_up:
  fixes s :: "'z kernel_state_scheme"
  assumes lim: "memmap_response lim = Some es" "memmap_ok usable es" "hhdm_response lim = Some h" "executable_address_response lim = Some ka"
    and root: "entry_to_phys (cr3_reg s) = A" "unat (cr3_reg s) < 2 ^ 52"
    and L: "loader_memory h A P (usable_pages usable es) (phys_mem s)" and room: "3 \<le> length (usable_pages usable es)"
    and nd: "no_drive dev" and bss: "length (threads s) = MAX_THREADS" "\<not> ext2_ready s"
  obtains s' where "kernel_main dev img usable lim ra s = run_then (find_init dev lim) (run_init img ra) s'"
    "spaces_inv {A} P s'" "as_pml4 KernelAS s' = phys_to_virt (hhdm_offset s') A" "entry_to_phys (cr3_reg s') = A"
    "same_walks A (phys_mem s) (phys_mem s')" "\<And>u. u \<in> P \<Longrightarrow> same_bytes u (phys_mem s) (phys_mem s')"
    "length (free_list s') + 3 = length (usable_pages usable es)" "cpu s' = cpu s" "sched_inv img s'" "thread_count s' = 0" "\<not> ext2_ready s'"
proof -
  obtain s1 where 1: "boot_cpu dev img lim s = Some s1" "below s1 = below s" "hhdm_offset s1 = h" by (rule boot_cpu_ok[OF lim(3)])
  note B = below_more[OF 1(2)]
  have L1: "loader_memory (hhdm_offset s1) A P (usable_pages usable es) (phys_mem s1)" using L by (simp only: 1(3) B)
  have root1: "cr3_reg s1 AND NOT 0xFFF = A" using cr3_root[OF root(2)] by (simp only: B root(1))
  obtain s2 where 2: "boot_memory usable lim s1 = Some s2" "spaces_inv {A} P s2" "as_pml4 KernelAS s2 = phys_to_virt (hhdm_offset s2) A"
      "hhdm_offset s2 = hhdm_offset s1" "cr3_reg s2 = cr3_reg s1" "vmm_state.more s2 = vmm_state.more s1"
      "length (free_list s2) + 3 = length (usable_pages usable es)" "same_walks A (phys_mem s1) (phys_mem s2)"
      "\<And>u. u \<in> P \<Longrightarrow> same_bytes u (phys_mem s1) (phys_mem s2)"
    by (rule boot_memory_ok[OF lim(1,2,4) L1 root1 room]) blast
  have "vmm_state.more s2 = vmm_state.more s" using 2(6) B(3) by (rule trans)
  note M = more_fields[OF this]
  have fs: "\<not> ext2_ready s2" using bss(2) M(3) by simp
  obtain s3 where 3: "boot_services dev img s2 = Some (Inr (), s3)" "system s3 = (fst (system s2), (cpu s2, threads s2, 0, None, None, 1), False)"
    by (rule boot_services_ok[OF nd fs])
  have S3: "cpu s3 = cpu s" "threads s3 = threads s" "thread_count s3 = 0" "thread_list s3 = None" "current s3 = None" "\<not> ext2_ready s3"
    using 3(2) M by (simp_all add: system_def)
  have "fst (system s3) = fst (system s2)" using 3(2) by simp
  note E = system_spaces[OF this]
  show thesis
  proof (rule that)
    show "kernel_main dev img usable lim ra s = run_then (find_init dev lim) (run_init img ra) s3"
      unfolding kernel_main_def 1(1) bind.simps 2(1) option.case by (rule run_then_Inr[where f = "boot_services dev img", OF 3(1)])
    show "spaces_inv {A} P s3" by (rule E(1)[OF 2(2)])
    show "sched_inv img s3" by (rule thread_table_inv) (use S3 bss(1) in simp_all)
    show "same_bytes u (phys_mem s) (phys_mem s3)" if "u \<in> P" for u using 2(9)[OF that] by (simp only: B E(3))
  qed (use 2(3,5,7,8) root(1) S3 E(2-6) B in simp_all)
qed

text \<open>The program is a module: it is entered, or memory runs out.\<close>

lemma kernel_main_cases:
  fixes s :: "'z kernel_state_scheme"
  assumes lim: "memmap_response lim = Some es" "memmap_ok usable es" "hhdm_response lim = Some h"
      "executable_address_response lim = Some ka" "module_response lim = Some (md # mds)"
    and root: "entry_to_phys (cr3_reg s) = A" "unat (cr3_reg s) < 2 ^ 52"
    and L: "loader_memory h A P (usable_pages usable es) (phys_mem s)" and fits: "module_fits A P md (phys_mem s)"
    and room: "4 \<le> length (usable_pages usable es)"
    and nd: "no_drive dev" and bss: "length (threads s) = MAX_THREADS" "\<not> ext2_ready s"
    and img: "stacks_placed img" "off_stacks img (c_rsp (cpu s))"
  obtains (entered) s' where "kernel_main dev img usable lim ra s = Some (Inl (Entered (usermode_trampoline img)), s')"
      "init_entered A img (module_source md) s s'"
  | (full) msg where "msg \<in> code_errors \<union> stack_errors" "halted msg (kernel_main dev img usable lim ra s)"
      "length (usable_pages usable es) < 4 * unat (pages_needed (file_bytes md)) + 8"
proof -
  have room3: "3 \<le> length (usable_pages usable es)" using room by simp
  obtain s3 where 3: "kernel_main dev img usable lim ra s = run_then (find_init dev lim) (run_init img ra) s3"
      "spaces_inv {A} P s3" "as_pml4 KernelAS s3 = phys_to_virt (hhdm_offset s3) A" "entry_to_phys (cr3_reg s3) = A"
      "same_walks A (phys_mem s) (phys_mem s3)" "\<And>u. u \<in> P \<Longrightarrow> same_bytes u (phys_mem s) (phys_mem s3)"
      "length (free_list s3) + 3 = length (usable_pages usable es)" "cpu s3 = cpu s" "sched_inv img s3" "thread_count s3 = 0" "\<not> ext2_ready s3"
    by (rule boot_up[OF lim(1-4) root L room3 nd bss]) blast
  have ne: "0 < length (free_list s3)" using 3(7) room by linarith
  obtain s4 where 4: "find_init dev lim s3 = Some (Inr (module_source md), s4)" "spaces_inv {A} P s4" "kept A P s3 s4"
      "length (free_list s4) + 1 = length (free_list s3)"
    by (rule find_init_ok[OF 3(2) ne 3(11) lim(5)])
  have K: "same_walks A (phys_mem s3) (phys_mem s4)" "\<And>u. u \<in> P \<Longrightarrow> same_bytes u (phys_mem s3) (phys_mem s4)" "mem_only s3 s4"
    using 4(3) by (simp_all add: kept_def)
  note F = mem_only_fields[OF K(3)] and T = mem_only_threads[OF K(3)]
  have W: "same_walks A (phys_mem s) (phys_mem s4)" using 3(5) K(1) by (simp add: same_walks_def)
  have SB: "same_bytes u (phys_mem s) (phys_mem s4)" if "u \<in> P" for u by (rule same_bytes_trans[OF 3(6)[OF that] K(2)[OF that]])
  have root4: "entry_to_phys (cr3_reg s4) = A" and as4: "as_pml4 KernelAS s4 = phys_to_virt (hhdm_offset s4) A" using 3(3,4) by (simp_all add: F)
  have "module_fits A P md (phys_mem s4)" using fits by (simp only: module_fits_walks[OF W])
  note R = module_load_ready[OF 4(2) as4 root4 this]
  have i4: "sched_inv img s4" "thread_count s4 = 0" "off_stacks img (c_rsp (cpu s4))" using T 3(8-10) img(2) by simp_all
  have run: "kernel_main dev img usable lim ra s = run_init img ra (module_source md) s4"
    unfolding 3(1) by (rule run_then_Inr[where f = "find_init dev lim", OF 4(1)])
  show thesis
  proof (rule hand_over_cases[OF R i4(1,2) img(1) i4(3)])
    fix msg assume f: "msg \<in> code_errors \<union> stack_errors" "halted msg (run_init img ra (module_source md) s4)"
      "length (free_list s4) < 4 * unat (pages_needed (init_size (module_source md))) + 4"
    have "length (usable_pages usable es) < 4 * unat (pages_needed (file_bytes md)) + 8" using f(3) 3(7) 4(4) by simp
    with f(1,2) show thesis unfolding run[symmetric] by (rule full)
  next
    fix s' assume s': "run_init img ra (module_source md) s4 = Some (Inl (Entered (usermode_trampoline img)), s')" "init_entered A img (module_source md) s4 s'"
    have "vread s4 (file_address md + of_nat k) = vread s (file_address md + of_nat k)" if "k < unat (file_bytes md)" for k
      by (rule source_vread[OF _ W SB root(1) root4 that]) (use fits in \<open>simp_all add: module_fits_def\<close>)
    then have "code_loaded A (module_source md) s4 s' = code_loaded A (module_source md) s s'" by (simp add: code_loaded_def)
    with s'(2) have "init_entered A img (module_source md) s s'" by (simp add: init_entered_def)
    with s'(1) show thesis unfolding run[symmetric] by (rule entered)
  qed
qed


section \<open>A boot loader that meets the contract\<close>

text \<open>
  Memory as the loader leaves it: the root table at \<^verbatim>\<open>0x1000\<close> maps the first gigabyte at the direct
  map through one table, and the module, an endless loop of two bytes, is at \<^verbatim>\<open>0x3000\<close>.
\<close>

definition boot_tables :: memory where
  "boot_tables = store64 (store64 (\<lambda>_. 0) (entry_at 0x1000 256) 0x2003) (entry_at 0x2000 0) 0x83"

definition boot_image :: memory where
  "boot_image = boot_tables(0x3000 + of_nat 0 := 0xEB, 0x3000 + of_nat 1 := 0xFE)"

definition boot_module :: limine_file where
  "boot_module = \<lparr>file_path = ''/boot/init.bin'', file_address = 0xFFFF800000003000, file_bytes = 2\<rparr>"

definition boot_memmap :: "memmap_entry list" where
  "boot_memmap = [\<lparr>me_base = 0x100000, me_length = 0xC000, me_type = 0\<rparr>]"

definition boot_limine :: limine where
  "boot_limine = \<lparr>framebuffer_response = None, memmap_response = Some boot_memmap, hhdm_response = Some 0xFFFF800000000000,
     executable_address_response = Some (0x200000, 0xFFFFFFFF80000000), module_response = Some [boot_module]\<rparr>"

definition boot_state :: kernel_state where
  "boot_state = (ext2_state.extend bss_ext2 \<lparr>test_port = None\<rparr>)\<lparr>phys_mem := boot_image, cr3_reg := 0x1000\<rparr>"

lemma boot_pte:
  assumes "i < 512"
  shows "pte boot_image 0x1000 i = (if i = 256 then 0x2003 else 0)" "pte boot_image 0x2000 i = (if i = 0 then 0x83 else 0)"
proof -
  have al: "aligned 0x1000" "aligned 0x2000" "aligned 0x3000" by simp_all
  have b: "pte boot_image t i = pte boot_tables t i" if "aligned t" "t \<noteq> 0x3000" for t
    unfolding boot_image_def using byte_store_pte[OF that(1) al(3) that(2) _ assms, of 0] byte_store_pte[OF that(1) al(3) that(2) _ assms, of 1] by simp
  show "pte boot_image 0x1000 i = (if i = 256 then 0x2003 else 0)" "pte boot_image 0x2000 i = (if i = 0 then 0x83 else 0)"
    unfolding b[OF al(1), simplified] b[OF al(2), simplified] boot_tables_def
    using pte_store[OF al(2) al(1), of 0 i] pte_store[OF al(2) al(2), of 0 i] pte_store[OF al(1) al(1), of 256 i] pte_store[OF al(1) al(2), of 256 i] assms
    by (simp_all add: pte_zero_mem)
qed

lemma boot_table_at:
  assumes "path p"
  shows "table_at boot_image 0x1000 p = Some t \<longleftrightarrow> p = [] \<and> t = 0x1000 \<or> p = [256] \<and> t = 0x2000"
proof -
  have 1: "subtable boot_image 0x1000 i = (if i = 256 then Some 0x2000 else None)" if "i < 512" for i
    using boot_pte(1)[OF that] by (simp add: subtable_def Let_def entry_to_phys_def)
  have 2: "subtable boot_image 0x2000 i = None" if "i < 512" for i
    using boot_pte(2)[OF that] by (simp add: subtable_def Let_def)
  show ?thesis
  proof (cases p)
    case (Cons i q)
    then show ?thesis using assms 1[of i] 2 by (cases q) auto
  qed auto
qed

lemma boot_usable: "usable_pages 0 boot_memmap = map (\<lambda>i. 0x100000 + 0x1000 * of_nat i) [0..<12]"
proof -
  have "concat (map region_pages (filter (\<lambda>e. me_type e = 0) boot_memmap)) = map (\<lambda>i. 0x100000 + 0x1000 * of_nat i) [0..<12]"
    by (simp add: boot_memmap_def region_pages_def page_range_def align_up_def align_down_def PAGE_SIZE_def upt_rec)
  then show ?thesis by (simp add: usable_pages_def MAX_PAGES_def)
qed

lemma boot_usable_pages: "set (usable_pages 0 boot_memmap) = {0x100000, 0x101000, 0x102000, 0x103000, 0x104000, 0x105000,
    0x106000, 0x107000, 0x108000, 0x109000, 0x10A000, 0x10B000}" "length (usable_pages 0 boot_memmap) = 12"
  unfolding boot_usable by (simp_all add: upt_rec)

lemma boot_loader: "loader_memory 0xFFFF800000000000 0x1000 {0x3000} (usable_pages 0 boot_memmap) boot_image"
  unfolding loader_memory_def pt_wf_def not_table_def boot_usable_pages(1)
proof (intro conjI)
  show "\<forall>i<512. bit (pte boot_image 0x1000 i) 0 \<longrightarrow> \<not> bit (pte boot_image 0x1000 i) 7" by (simp add: boot_pte)
qed (auto simp: boot_table_at frame_ok_def hhdm_covers_def)

lemma boot_no_page:
  assumes "pml4_index v \<noteq> 256"
  shows "no_large_page boot_image 0x1000 v"
proof -
  have "pml4_index v < 512" by (rule index_less)
  with assms have "page_walk boot_image 0x1000 v = None" by (simp add: page_walk_def indices_def boot_pte Let_def)
  then show ?thesis by (simp add: no_large_page_walk)
qed

lemma boot_walk:
  assumes "k < 2"
  shows "translate boot_image 0x1000 (0xFFFF800000003000 + of_nat k) = Some (0x3000 + of_nat k)"
proof -
  have "k = 0 \<or> k = 1" using assms by auto
  then show ?thesis
    by (auto simp: translate_def page_walk_def page_shift_def indices_def pml4_index_def pdpt_index_def pd_index_def pt_index_def
        boot_pte Let_def entry_to_phys_def)
qed

lemma boot_fits: "module_fits 0x1000 {0x3000} boot_module boot_image"
  unfolding module_fits_def
proof (intro conjI allI impI)
  show "source_in 0x1000 {0x3000} (file_address boot_module) (file_bytes boot_module) boot_image"
    unfolding source_in_def using boot_walk by (auto simp: boot_module_def intro!: exI)
  fix i assume "i < unat (pages_needed (file_bytes boot_module))"
  then have i: "code_page i = 0x400000" by (simp add: boot_module_def pages_needed_def code_page_def user_code_virt_def)
  show "no_large_page boot_image 0x1000 (code_page i)" unfolding i by (rule boot_no_page) (simp add: pml4_index_def)
  fix k assume "k < unat (file_bytes boot_module)"
  then have "k = 0 \<or> k = 1" by (auto simp: boot_module_def)
  then show "\<not> same_page 12 (code_page i) (file_address boot_module + of_nat k)"
    unfolding i by (auto simp: boot_module_def same_page_def take_bit_eq_mask mask_eq_exp_minus_1)
next
  show "unat (file_bytes boot_module) \<le> 0x40000000" by (simp add: boot_module_def)
  show "no_large_page boot_image 0x1000 user_stack_virt" by (rule boot_no_page) (simp add: pml4_index_def user_stack_virt_def)
qed

lemma boot_state_fields:
  "phys_mem boot_state = boot_image" "cr3_reg boot_state = 0x1000" "threads boot_state = replicate 8 bss_thread" "\<not> ext2_ready boot_state"
  "c_rsp (cpu boot_state) = 0xFFFFFFFF80050000"
  by (simp_all add: boot_state_def bss_ext2_def bss_threads_def ext2_state.defs thread_state.defs vmm_state.defs initial_regs_def)

text \<open>A bus that floats: every read gives ones.\<close>

definition floating_bus :: device where
  "floating_bus = \<lparr>dev_inb = (\<lambda>_ _. 0xFF), dev_insw = (\<lambda>_ _. 0xFFFF)\<rparr>"

lemma boot_machine_ok: "memmap_ok 0 boot_memmap" "no_drive floating_bus" "stacks_placed example_image"
    "off_stacks example_image (c_rsp (cpu boot_state))"
  by (simp_all add: memmap_ok_def boot_memmap_def boot_state_fields no_drive_def floating_bus_def ATA_STATUS_BSY_def MAX_THREADS_def
      stacks_placed_def off_stacks_def example_image_def)

lemma boot_state_ok: "entry_to_phys (cr3_reg boot_state) = 0x1000" "unat (cr3_reg boot_state) < 2 ^ 52"
    "loader_memory 0xFFFF800000000000 0x1000 {0x3000} (usable_pages 0 boot_memmap) (phys_mem boot_state)"
    "length (threads boot_state) = MAX_THREADS" "\<not> ext2_ready boot_state"
  using boot_loader by (simp_all add: boot_state_fields entry_to_phys_def MAX_THREADS_def)




end
