(* ===== verification/Spec2Isabelle.thy ===== *)
theory Spec2Isabelle
  imports Ext2_Image Userland Kernel_Main
begin

text \<open>
  A verification development for PlasmaOS, a kernel for x86-64 in C with some assembly, and
  for its first user program.

  \<^bold>\<open>The program.\<close> The boot loader Limine starts \<open>kernel_main\<close> (\<^verbatim>\<open>kernel/main.c\<close>). It brings up the serial
  console, the processor tables, the timer, the physical and the virtual memory manager,
  threads and ports, system calls, the ATA driver and the ext2 file system, each from its
  own file. Then it takes the program \<^verbatim>\<open>init.bin\<close> from the disk or from the loader, copies it to
  \<^verbatim>\<open>0x400000\<close>, gives it a stack and starts the scheduler, which enters it in ring 3. From there
  on the kernel runs in system calls: they send and receive messages on ports, block,
  yield and exit, and switch between threads. Timer interrupts only count.

  \<^bold>\<open>State.\<close> Every component has a record that extends the record of the component before
  it, in the order of the theories: \<open>machine\<close> (memory, console, bus history, CR3, interrupt
  flag), \<open>gdt_state\<close>, \<open>pit_state\<close>, \<open>idt_state\<close>, \<open>pmm_state\<close>, \<open>vmm_state\<close>, \<open>thread_state\<close>,
  \<open>ext2_state\<close>, \<open>kernel_state\<close>. The static variables of a C file are the fields of its
  record. An operation is a function on the scheme of its record, so it can be called
  from every later component and provably leaves the fields above alone. Machine
  integers are words of their width. Pointers are addresses into one byte-addressed
  physical memory where the code needs that (page tables, disk buffers, user memory), and
  indices where the code only points into one static array (threads, ports, messages).
  An operation that may fail to return has an option type, with \<open>None\<close> for not returning;
  code that may end the boot or leave its thread has a sum inside the option.

  \<^bold>\<open>Parameters.\<close> What is not in the sources is an argument: \<open>device\<close>, the values that
  port reads return as a function of the bus history; \<open>image\<close>, the addresses that the
  linker gives to static objects and assembly labels; \<open>limine\<close>, the responses of the boot
  loader; \<open>mmu\<close>, how user memory is reached, with \<open>paging_mmu\<close> as the instance that walks the
  page tables; \<open>user_ctx\<close>, where the compiler puts strings and variables of the program;
  \<open>ra\<close>, the return address of a call of \<^verbatim>\<open>context_switch\<close>; \<open>usable\<close>, the number of the type of usable
  memory. Kernel pointers are translated by \<open>kptr\<close>: Limine maps all physical memory at
  \<open>hhdm_offset\<close>, and addresses below it stand for themselves.

  \<^bold>\<open>Theories.\<close>
  \<^item> \<open>Prelude\<close>: types, words, bytes in memory, characters, code that may stop. \<open>Machine\<close>:
    memory, bus, image.
  \<^item> \<open>Serial\<close> (\<^verbatim>\<open>serial.c\<close>): the polling driver against a UART and the console that the rest uses.
    Decimal output reads back as the number; hexadecimal output is right exactly when
    the number has no digit of value 13.
  \<^item> \<open>Gdt\<close> (\<^verbatim>\<open>gdt.c\<close>, \<^verbatim>\<open>gdt_asm.asm\<close>), \<open>Idt\<close> (\<^verbatim>\<open>idt.c\<close>, dispatch of \<^verbatim>\<open>idt_asm.asm\<close>), \<open>Pit\<close> (\<^verbatim>\<open>pit.c\<close>): tables
    and gates as the processor reads them back, exception report, sleeping.
  \<^item> \<open>Pmm\<close> (\<^verbatim>\<open>pmm.c\<close>): a stack of pages. The locale \<open>page_allocator\<close> is what a client relies on; its
    interpretation gives that no page is handed out twice in any run.
  \<^item> \<open>Vmm\<close>, \<open>Vmm_Map\<close>, \<open>Vmm_Spaces\<close>, \<open>Vmm_Data\<close> (\<^verbatim>\<open>vmm.c\<close>): page tables in memory. \<open>translate\<close> is the walk of the
    processor; mapping and unmapping change it at one page, address spaces stay apart in
    every run of the manager, and data pages stay apart from tables.
  \<^item> \<open>Thread\<close> (\<^verbatim>\<open>thread.c\<close>, \<^verbatim>\<open>switch.asm\<close>, \<^verbatim>\<open>usermode.asm\<close>): threads with saved register frames on their
    stacks, the ring of threads, the switch as an exchange of frames.
  \<^item> \<open>Ipc\<close> (\<^verbatim>\<open>thread.c\<close> from \<open>message_alloc\<close> on): ports as linked queues in the message pool. The locale
    \<open>channels\<close> is the contract of a family of queues; ports are an instance. A receiver
    that blocks leaves its call at the switch and continues it in \<open>recv_resume\<close>.
  \<^item> \<open>Syscall\<close> (\<^verbatim>\<open>syscall.c\<close>, \<^verbatim>\<open>syscall.h\<close>, \<^verbatim>\<open>syscall_asm.asm\<close>): the path of the arguments, every case of the handler,
    and a step relation of the running system, with invariants over all reachable states,
    fairness and liveness of receivers.
  \<^item> \<open>Ata\<close> (\<^verbatim>\<open>ata.c\<close>) and \<open>Ext2\<close>, \<open>Ext2_Read\<close>, \<open>Ext2_Faults\<close>, \<open>Ext2_Image\<close> (\<^verbatim>\<open>ext2.c\<close>): sector transfers; the code of the
    file system and its specification as functions of the disk image, the proof that the
    code computes them on a drive that works, its behaviour on drives and images that do
    not, and an example image.
  \<^item> \<open>Limine\<close> (\<^verbatim>\<open>limine.c\<close>), \<open>Kernel\<close> (\<^verbatim>\<open>main.c\<close>): the boot sequence. \<open>Kernel_Load\<close>, \<open>Kernel_Boot\<close> and
    \<open>Kernel_Main\<close> show that it brings a program from the loader into ring 3, complete and
    with its stack, and that it stops with a message when memory runs out or there is
    no program.
  \<^item> \<open>Userland\<close> (\<^verbatim>\<open>userland/init.c\<close>, wrappers of \<^verbatim>\<open>syscall.h\<close>): the program run against the system call
    handler of the kernel, up to its exit with all tests passed.

  \<^bold>\<open>Bounds and fuel.\<close> No loop is cut short by the model. Loops over chains that the code does not
  bound (ring of threads, message queues, directory records, the page loop of \<open>pmm_init\<close>)
  are partial functions, and the theorems show where they return; the loops that a
  zero record length sends around forever are shown to return \<open>None\<close>. The polling loops of
  the ATA driver have their own limit in the code, \<open>POLLS\<close>. The theorems about loading assume a
  program of at most one gigabyte (\<open>max_code_pages\<close> pages), so that it ends below the stack,
  and four free pages per page of the program, one for its contents and three for tables. The
  theorems about reading files assume what \<open>super_ok\<close> and \<open>file_ok\<close> say of the image, among it blocks
  of at most one page, since the code reads a block into one page.

  \<^bold>\<open>Not modelled.\<close>
  \<^item> \<^verbatim>\<open>entry.asm\<close>: it sets the stack pointer and calls \<open>kernel_main\<close>; the state at that call is where
    the model starts. The stubs of \<^verbatim>\<open>idt_asm.asm\<close> that push vector numbers are labels of \<open>image\<close>.
  \<^item> \<open>thread_receiver\<close> and \<open>thread_sender\<close> in \<^verbatim>\<open>main.c\<close>: nothing starts them.
  \<^item> Interrupts at arbitrary points of the kernel: the handlers are modelled, and system
    calls run with interrupts off; during the boot a timer interrupt changes the tick
    counter and the bus only, and the boot theorems leave it out.
  \<^item> The file system is read only, as in the code; the count of block groups that \<open>ext2_init\<close>
    computes is never used. Constants of the headers that no code uses are left out.
  \<^item> Linker scripts, build files, scripts for images and emulators, and the boot loader
    with its header, which is not part of the sources.
\<close>

end
